(* ===== verification/Prelude.thy ===== *)
theory Prelude
  imports Main "HOL-Library.Word" Complex_Main
begin

text \<open>
  Shared vocabulary of the development: the collections the component proofs draw on,
  the generic lemmas on lists and words that several components need, and C's
  truncating conversion from a rational to an integer.
\<close>

section \<open>Collections\<close>

named_theorems frame_simps \<open>fields an operation leaves alone\<close>
named_theorems wf_intros \<open>preservation of the world's well-formedness\<close>

section \<open>Lists\<close>

lemma sorted_wrt_remove1:
  "sorted_wrt P xs \<Longrightarrow> sorted_wrt P (remove1 x xs)"
proof (induction xs)
  case Nil
  then show ?case by simp
next
  case (Cons y ys)
  then show ?case using set_remove1_subset[of x ys] by auto
qed

lemma sorted_wrt_filter_rel: "sorted_wrt P xs \<Longrightarrow> sorted_wrt P (filter Q xs)"
  by (induction xs) auto

lemma in_set_remove1_distinct:
  "distinct xs \<Longrightarrow> y \<in> set (remove1 x xs) \<longleftrightarrow> y \<in> set xs \<and> y \<noteq> x"
  by (induction xs) auto

lemma filter_partition_set: "set xs = set (filter P xs) \<union> set (filter (\<lambda>x. \<not> P x) xs)"
  by auto

section \<open>Truncation towards zero\<close>

text \<open>The value of the C conversion \<^verbatim>\<open>(integer type)x\<close>, before the range check.\<close>

definition trunc0 :: "rat \<Rightarrow> int" where
  "trunc0 x = (if x < 0 then - \<lfloor>- x\<rfloor> else \<lfloor>x\<rfloor>)"

lemma trunc0_of_int [simp]: "trunc0 (of_int n) = n"
  by (simp add: trunc0_def flip: of_int_minus)

lemma trunc0_nonneg_bounds:
  "0 \<le> x \<Longrightarrow> of_int (trunc0 x) \<le> x \<and> x < of_int (trunc0 x) + 1"
  using floor_correct[of x] by (simp add: trunc0_def)

lemma trunc0_neg_bounds:
  assumes "x < 0"
  shows "x \<le> of_int (trunc0 x)" and "of_int (trunc0 x) - 1 < x" and "trunc0 x \<le> 0"
proof -
  have "of_int \<lfloor>- x\<rfloor> \<le> - x" by (rule of_int_floor_le)
  then show "x \<le> of_int (trunc0 x)" using assms unfolding trunc0_def by (simp only: if_True of_int_minus)
  have "- x < of_int \<lfloor>- x\<rfloor> + 1" by linarith
  then show "of_int (trunc0 x) - 1 < x" using assms by (simp add: trunc0_def)
  show "trunc0 x \<le> 0" using assms by (simp add: trunc0_def)
qed

lemma trunc0_le: "x < of_int n + 1 \<Longrightarrow> 0 \<le> n \<Longrightarrow> trunc0 x \<le> n"
proof (cases "x < 0")
  case True
  assume "0 \<le> n"
  with trunc0_neg_bounds(3)[OF True] show ?thesis by linarith
next
  case False
  assume "x < of_int n + 1"
  with False show ?thesis by (simp add: trunc0_def floor_le_iff)
qed

lemma trunc0_ge: "of_int n - 1 < x \<Longrightarrow> n \<le> 0 \<Longrightarrow> n \<le> trunc0 x"
proof (cases "x < 0")
  case True
  assume "of_int n - 1 < x"
  then have "of_int n < (of_int (trunc0 x) + 1 :: rat)" using trunc0_neg_bounds(1)[OF True] by linarith
  then have "(of_int n :: rat) < of_int (trunc0 x + 1)" by simp
  then have "n < trunc0 x + 1" by (simp only: of_int_less_iff)
  then show ?thesis by simp
next
  case False
  assume "n \<le> 0"
  with False show ?thesis by (simp add: trunc0_def le_floor_iff order_trans)
qed

lemma trunc0_mono: "x \<le> y \<Longrightarrow> trunc0 x \<le> trunc0 y"
  using floor_mono[of x y] floor_mono[of "- y" "- x"]
  by (auto simp: trunc0_def not_less intro: order_trans[of _ 0])

lemma trunc0_error: "\<bar>x - of_int (trunc0 x)\<bar> < 1"
  using trunc0_nonneg_bounds[of x] trunc0_neg_bounds(1,2)[of x] by (cases "x < 0") auto

lemma trunc0_frac_abs_le: "\<bar>x - of_int (trunc0 x)\<bar> \<le> \<bar>x\<bar>"
proof (cases "x < 0")
  case True
  then have "0 \<le> \<lfloor>- x\<rfloor>" by simp
  then have "0 \<le> (of_int \<lfloor>- x\<rfloor> :: rat)" by (simp only: of_int_0_le_iff)
  moreover have "of_int (trunc0 x) = - (of_int \<lfloor>- x\<rfloor> :: rat)" using True by (simp add: trunc0_def)
  ultimately show ?thesis using True of_int_floor_le[of "- x"] by linarith
next
  case False
  then have "0 \<le> \<lfloor>x\<rfloor>" by simp
  then have "0 \<le> (of_int \<lfloor>x\<rfloor> :: rat)" by (simp only: of_int_0_le_iff)
  then show ?thesis using False of_int_floor_le[of x] by (simp add: trunc0_def)
qed

lemma trunc0_frac_sign: "0 \<le> x \<Longrightarrow> 0 \<le> x - of_int (trunc0 x)" "x < 0 \<Longrightarrow> x - of_int (trunc0 x) \<le> 0"
  using trunc0_nonneg_bounds[of x] trunc0_neg_bounds(1)[of x] by auto

end
