(* ===== verification/StdContainers.thy ===== *)
theory StdContainers
  imports Prelude
begin

text \<open>
  The two ordered containers of the C++ standard library the sources use, as strictly
  sorted lists: \<^verbatim>\<open>std::set\<close> with a comparator (\<open>sset\<close>) and \<^verbatim>\<open>std::map\<close> from \<^verbatim>\<open>int\<close>
  (\<open>smap\<close>), both iterated in order. The locale \<open>comparator\<close> is what \<^verbatim>\<open>std::set\<close> asks of
  its comparator (a strict weak order); the set's laws are proved in it once.
\<close>

section \<open>std::set\<close>

text \<open>\<^verbatim>\<open>insert\<close>: nothing happens when an equivalent element is there.\<close>

fun sset_insert :: "('a \<Rightarrow> 'a \<Rightarrow> bool) \<Rightarrow> 'a \<Rightarrow> 'a list \<Rightarrow> 'a list" where
  "sset_insert lt x [] = [x]"
| "sset_insert lt x (y # ys) =
     (if lt x y then x # y # ys else if lt y x then y # sset_insert lt x ys else y # ys)"

definition sset_ok :: "('a \<Rightarrow> 'a \<Rightarrow> bool) \<Rightarrow> 'a list \<Rightarrow> bool" where
  "sset_ok lt xs \<longleftrightarrow> sorted_wrt lt xs"

text \<open>\<^verbatim>\<open>erase\<close> of the first element the loop finds.\<close>

fun erase_first :: "('a \<Rightarrow> bool) \<Rightarrow> 'a list \<Rightarrow> 'a list" where
  "erase_first P [] = []"
| "erase_first P (x # xs) = (if P x then xs else x # erase_first P xs)"

lemma set_erase_first_subset: "set (erase_first P xs) \<subseteq> set xs"
  by (induction xs) auto

lemma erase_first_id: "\<forall>x \<in> set xs. \<not> P x \<Longrightarrow> erase_first P xs = xs"
  by (induction xs) auto

lemma sorted_wrt_erase_first: "sorted_wrt R xs \<Longrightarrow> sorted_wrt R (erase_first P xs)"
  using set_erase_first_subset[of P] by (induction xs) auto

lemma erase_first_remove1: "erase_first (\<lambda>y. y = x) xs = remove1 x xs"
  by (induction xs) auto

lemma erase_first_unique:
  "distinct (map f xs) \<Longrightarrow> erase_first (\<lambda>x. f x = k) xs = filter (\<lambda>x. f x \<noteq> k) xs"
  by (induction xs) (auto simp: image_iff intro!: filter_True[symmetric])

locale comparator =
  fixes lt :: "'a \<Rightarrow> 'a \<Rightarrow> bool"
  assumes irrefl: "\<not> lt x x"
    and trans_lt: "lt x y \<Longrightarrow> lt y z \<Longrightarrow> lt x z"
    and incomp_trans: "\<not> lt x y \<Longrightarrow> \<not> lt y x \<Longrightarrow> \<not> lt y z \<Longrightarrow> \<not> lt z y \<Longrightarrow> \<not> lt x z"
begin

lemma asym: "lt x y \<Longrightarrow> \<not> lt y x"
  using irrefl trans_lt by blast

lemma set_insert_subset: "set (sset_insert lt x xs) \<subseteq> insert x (set xs)"
  by (induction xs) auto

lemma set_insert_superset: "set xs \<subseteq> set (sset_insert lt x xs)"
  by (induction xs) auto

lemma insert_ok: "sset_ok lt xs \<Longrightarrow> sset_ok lt (sset_insert lt x xs)"
  unfolding sset_ok_def
proof (induction xs)
  case Nil
  then show ?case by simp
next
  case (Cons y ys)
  show ?case
  proof (cases "lt x y")
    case True
    with Cons.prems show ?thesis using trans_lt by fastforce
  next
    case False
    with Cons show ?thesis using set_insert_subset[of x ys] by auto
  qed
qed

lemma insert_new:
  assumes "\<forall>y \<in> set xs. lt x y \<or> lt y x"
  shows "set (sset_insert lt x xs) = insert x (set xs)"
    and "length (sset_insert lt x xs) = Suc (length xs)"
  using assms by (induction xs) auto

lemma insert_max: "\<forall>y \<in> set xs. lt y x \<Longrightarrow> sset_insert lt x xs = xs @ [x]"
  by (induction xs) (auto dest: asym)

lemma erase_ok: "sset_ok lt xs \<Longrightarrow> sset_ok lt (erase_first P xs)"
  unfolding sset_ok_def by (rule sorted_wrt_erase_first)

lemma ok_Cons: "sset_ok lt (x # xs) \<longleftrightarrow> (\<forall>y \<in> set xs. lt x y) \<and> sset_ok lt xs"
  by (simp add: sset_ok_def)

lemma ok_distinct: "sset_ok lt xs \<Longrightarrow> distinct xs"
  unfolding sset_ok_def by (induction xs) (auto simp: irrefl)

lemma head_least: "sset_ok lt (x # xs) \<Longrightarrow> y \<in> set (x # xs) \<Longrightarrow> \<not> lt y x"
  by (auto simp: ok_Cons irrefl dest: asym)

lemma sorted_unique: "sorted_wrt lt xs \<Longrightarrow> sorted_wrt lt ys \<Longrightarrow> set xs = set ys \<Longrightarrow> xs = ys"
proof (induction xs arbitrary: ys)
  case (Cons x xs)
  then obtain y zs where ys: "ys = y # zs" by (cases ys) auto
  have "x = y"
  proof (rule ccontr)
    assume "x \<noteq> y"
    then have "x \<in> set zs" "y \<in> set xs" using Cons.prems(3) ys by auto
    then show False using Cons.prems(1,2) ys asym by auto
  qed
  moreover have "x \<notin> set xs" "y \<notin> set zs" using Cons.prems(1,2) ys irrefl by auto
  ultimately have "set xs = set zs" using Cons.prems(3) ys by auto
  then show ?case using Cons.IH[of zs] Cons.prems(1,2) ys \<open>x = y\<close> by simp
qed simp

lemma ok_unique:
  assumes "sset_ok lt xs" and "x \<in> set xs" and "y \<in> set xs" and "x \<noteq> y"
  shows "lt x y \<or> lt y x"
  using assms unfolding sset_ok_def by (induction xs) auto

end

section \<open>std::map\<close>

fun smap_put :: "int \<Rightarrow> 'v \<Rightarrow> (int \<times> 'v) list \<Rightarrow> (int \<times> 'v) list" where
  "smap_put k v [] = [(k, v)]"
| "smap_put k v ((k', v') # m) =
     (if k < k' then (k, v) # (k', v') # m
      else if k = k' then (k, v) # m else (k', v') # smap_put k v m)"

definition smap_find :: "(int \<times> 'v) list \<Rightarrow> int \<Rightarrow> 'v option" where
  "smap_find = map_of"

definition smap_erase :: "int \<Rightarrow> (int \<times> 'v) list \<Rightarrow> (int \<times> 'v) list" where
  "smap_erase k = filter (\<lambda>e. fst e \<noteq> k)"

definition smap_ok :: "(int \<times> 'v) list \<Rightarrow> bool" where
  "smap_ok m \<longleftrightarrow> sorted_wrt (\<lambda>a b. fst a < fst b) m"

lemma smap_ok_Nil [simp]: "smap_ok []"
  by (simp add: smap_ok_def)

lemma smap_find_Nil [simp]: "smap_find [] k = None"
  by (simp add: smap_find_def)

lemma set_smap_put_subset: "set (smap_put k v m) \<subseteq> insert (k, v) (set m)"
  by (induction k v m rule: smap_put.induct) auto

lemma smap_ok_put: "smap_ok m \<Longrightarrow> smap_ok (smap_put k v m)"
  unfolding smap_ok_def
proof (induction k v m rule: smap_put.induct)
  case (2 k v k' v' m)
  then show ?case using set_smap_put_subset[of k v m] by fastforce
qed simp

lemma smap_ok_erase: "smap_ok m \<Longrightarrow> smap_ok (smap_erase k m)"
  unfolding smap_ok_def smap_erase_def by (rule sorted_wrt_filter_rel)

lemma smap_find_put: "smap_ok m \<Longrightarrow> smap_find (smap_put k v m) i = (if i = k then Some v else smap_find m i)"
  unfolding smap_find_def smap_ok_def
  by (induction k v m rule: smap_put.induct) (force dest: map_of_SomeD)+

lemma smap_find_erase: "smap_find (smap_erase k m) i = (if i = k then None else smap_find m i)"
  unfolding smap_find_def smap_erase_def by (induction m) auto

lemma smap_ok_distinct: "smap_ok m \<Longrightarrow> distinct (map fst m)"
  unfolding smap_ok_def by (induction m) auto

lemma smap_find_iff: "smap_ok m \<Longrightarrow> smap_find m k = Some v \<longleftrightarrow> (k, v) \<in> set m"
  by (simp add: smap_find_def smap_ok_distinct)

lemma smap_find_None_iff: "smap_find m k = None \<longleftrightarrow> k \<notin> fst ` set m"
  by (simp add: smap_find_def map_of_eq_None_iff)

text \<open>The laws a client of the table relies on, whatever the representation.\<close>

locale finite_map =
  fixes lookup :: "'m \<Rightarrow> 'k \<Rightarrow> 'v option"
    and put :: "'k \<Rightarrow> 'v \<Rightarrow> 'm \<Rightarrow> 'm"
    and erase :: "'k \<Rightarrow> 'm \<Rightarrow> 'm"
    and ok :: "'m \<Rightarrow> bool"
  assumes lookup_put: "ok m \<Longrightarrow> lookup (put k v m) i = (if i = k then Some v else lookup m i)"
    and lookup_erase: "lookup (erase k m) i = (if i = k then None else lookup m i)"
    and ok_put: "ok m \<Longrightarrow> ok (put k v m)"
    and ok_erase: "ok m \<Longrightarrow> ok (erase k m)"
begin

lemma dom_put: "ok m \<Longrightarrow> dom (lookup (put k v m)) = insert k (dom (lookup m))"
  by (auto simp: lookup_put split: if_splits)

lemma dom_erase: "dom (lookup (erase k m)) = dom (lookup m) - {k}"
  by (auto simp: lookup_erase split: if_splits)

lemma erase_put_same: "ok m \<Longrightarrow> lookup m k = None \<Longrightarrow> lookup (erase k (put k v m)) = lookup m"
  by (auto simp: lookup_erase lookup_put fun_eq_iff)

end

interpretation smap: finite_map smap_find smap_put smap_erase smap_ok
  by unfold_locales (simp_all add: smap_find_put smap_find_erase smap_ok_put smap_ok_erase)

end
