(* ===== verification/Floating.thy ===== *)
theory Floating
  imports Prelude "HOL-Library.Log_Nat"
begin

text \<open>
  The floating-point arithmetic the sources use: \<^verbatim>\<open>double\<close> (53 significant bits) and, in
  \<^verbatim>\<open>timeconv.h\<close>, \<^verbatim>\<open>long double\<close> (64 significant bits, the x86-64 format). A finite value
  is the rational number it denotes; every operation rounds to nearest, ties to even.
  The exponent range is not bounded: the sources compute with seconds and nanoseconds,
  far from overflow and underflow, and convert to \<^verbatim>\<open>time_t\<close> with a range check below.
  Infinities and NaN, which callers can pass, are constructors of their own.
\<close>

section \<open>Rounding\<close>

definition round_half_even :: "rat \<Rightarrow> int" where
  "round_half_even x =
     (let f = \<lfloor>x\<rfloor>; d = x - of_int f
      in if d < 1/2 then f else if 1/2 < d then f + 1 else if even f then f else f + 1)"

definition rat_bitlen :: "int \<Rightarrow> int" where
  "rat_bitlen n = bitlen n"

lemma rat_bitlen_code [code]: "rat_bitlen n = (if 0 < n then rat_bitlen (n div 2) + 1 else 0)"
  unfolding rat_bitlen_def by (rule compute_bitlen)

text \<open>The exponent: the \<open>e\<close> with \<open>2 powi e \<le> \<bar>x\<bar> < 2 powi (e + 1)\<close>.\<close>

definition fl_exp :: "rat \<Rightarrow> int" where
  "fl_exp x =
     (case quotient_of \<bar>x\<bar> of (n, d) \<Rightarrow>
        let e = rat_bitlen n - rat_bitlen d in if 2 powi e \<le> \<bar>x\<bar> then e else e - 1)"

definition fl_ulp :: "nat \<Rightarrow> rat \<Rightarrow> rat" where
  "fl_ulp p x = 2 powi (fl_exp x - int p + 1)"

text \<open>\<open>fl p x\<close> is \<open>x\<close> rounded to \<open>p\<close> significant bits.\<close>

definition fl :: "nat \<Rightarrow> rat \<Rightarrow> rat" where
  "fl p x = (if x = 0 then 0 else of_int (round_half_even (x / fl_ulp p x)) * fl_ulp p x)"

lemma round_half_even_error: "\<bar>of_int (round_half_even x) - x\<bar> \<le> 1/2"
  using floor_correct[of x] unfolding round_half_even_def Let_def
  by (simp add: abs_le_iff field_simps)

lemma round_half_even_of_int [simp]: "round_half_even (of_int n) = n"
  by (simp add: round_half_even_def)

lemma bitlen_rat_bounds:
  assumes "0 < n"
  shows "2 powi (bitlen n - 1) \<le> (of_int n :: rat)" and "of_int n < (2 powi bitlen n :: rat)"
proof -
  have b: "2 ^ nat (bitlen n - 1) \<le> n" "n < 2 ^ nat (bitlen n)" and p: "1 \<le> bitlen n"
    using bitlen_bounds[OF assms] assms by (simp_all add: bitlen_ge_iff_power)
  have "(2 powi (bitlen n - 1) :: rat) = of_int (2 ^ nat (bitlen n - 1))"
    using p by (simp add: power_int_def)
  also have "\<dots> \<le> of_int n" using b(1) by (simp only: of_int_le_iff)
  finally show "2 powi (bitlen n - 1) \<le> (of_int n :: rat)" .
  have "(of_int n :: rat) < of_int (2 ^ nat (bitlen n))" using b(2) by (simp only: of_int_less_iff)
  also have "\<dots> = 2 powi bitlen n" using p by (simp add: power_int_def)
  finally show "of_int n < (2 powi bitlen n :: rat)" .
qed

lemma powi2_pos [simp]: "0 < (2::rat) powi e"
  by (rule zero_less_power_int) simp

lemma powi2_Suc: "(2::rat) powi (e + 1) = 2 * 2 powi e"
  by (simp add: power_int_add)

lemma powi2_diff: "(2::rat) powi (a - b) = 2 powi a / 2 powi b"
  by (rule power_int_diff) simp

lemma fl_exp_bounds:
  assumes "x \<noteq> 0"
  shows "2 powi fl_exp x \<le> \<bar>x\<bar>" and "\<bar>x\<bar> < 2 powi (fl_exp x + 1)"
proof -
  obtain n d where q: "quotient_of \<bar>x\<bar> = (n, d)" by force
  have d: "0 < d" using q by (rule quotient_of_denom_pos)
  have x: "\<bar>x\<bar> = of_int n / of_int d" using q by (rule quotient_of_div)
  have n: "0 < n" 
  proof -
    have "0 < (of_int n / of_int d :: rat)" using assms x by (simp flip: x)
    then show ?thesis using d by (simp add: zero_less_divide_iff)
  qed
  let ?e = "bitlen n - bitlen d"
  have hi: "\<bar>x\<bar> < 2 powi (?e + 1)"
  proof -
    have "of_int n / of_int d < (2 powi bitlen n :: rat) / 2 powi (bitlen d - 1)"
      using bitlen_rat_bounds[OF n] bitlen_rat_bounds[OF d] n d
      by (intro frac_less) auto
    also have "\<dots> = 2 powi (?e + 1)" by (simp flip: powi2_diff add: algebra_simps)
    finally show ?thesis using x by simp
  qed
  have lo: "2 powi (?e - 1) \<le> \<bar>x\<bar>"
  proof -
    have "2 powi (?e - 1) = (2 powi (bitlen n - 1) :: rat) / 2 powi bitlen d"
      by (simp flip: powi2_diff add: algebra_simps)
    also have "\<dots> \<le> of_int n / of_int d"
      using bitlen_rat_bounds[OF n] bitlen_rat_bounds[OF d] n d by (intro frac_le) auto
    finally show ?thesis using x by simp
  qed
  have e: "fl_exp x = (if 2 powi ?e \<le> \<bar>x\<bar> then ?e else ?e - 1)"
    by (simp add: fl_exp_def q rat_bitlen_def Let_def)
  show "2 powi fl_exp x \<le> \<bar>x\<bar>" using lo by (simp add: e)
  show "\<bar>x\<bar> < 2 powi (fl_exp x + 1)" using hi by (simp add: e not_le)
qed

lemma fl_ulp_pos [simp]: "0 < fl_ulp p x"
  by (simp add: fl_ulp_def)

lemma fl_abs_error: "x \<noteq> 0 \<Longrightarrow> \<bar>fl p x - x\<bar> \<le> fl_ulp p x / 2"
proof -
  assume "x \<noteq> 0"
  let ?u = "fl_ulp p x" let ?m = "x / ?u"
  have u: "0 < ?u" by simp
  have "\<bar>fl p x - x\<bar> = \<bar>(of_int (round_half_even ?m) - ?m) * ?u\<bar>"
    using \<open>x \<noteq> 0\<close> u by (simp add: fl_def left_diff_distrib less_imp_neq[THEN not_sym])
  also have "\<dots> = \<bar>of_int (round_half_even ?m) - ?m\<bar> * ?u"
    using u by (simp only: abs_mult abs_of_pos)
  also have "\<dots> \<le> 1/2 * ?u" using round_half_even_error[of ?m] u by (intro mult_right_mono) (simp_all add: less_imp_le)
  finally show ?thesis by simp
qed

lemma fl_rel_error: "\<bar>fl p x - x\<bar> \<le> \<bar>x\<bar> / 2 ^ p"
proof (cases "x = 0")
  case True
  then show ?thesis by (simp add: fl_def)
next
  case False
  have "fl_ulp p x / 2 = 2 powi (fl_exp x - int p)"
    by (simp add: fl_ulp_def powi2_Suc)
  also have "\<dots> = 2 powi fl_exp x / 2 ^ p"
    by (simp add: powi2_diff)
  also have "\<dots> \<le> \<bar>x\<bar> / 2 ^ p"
    using fl_exp_bounds(1)[OF False] by (simp add: divide_right_mono)
  finally show ?thesis using fl_abs_error[OF False, of p] by linarith
qed

text \<open>Rounding keeps the sign, and is exact on the values that fit in \<open>p\<close> bits.\<close>

lemma fl_zero [simp]: "fl p 0 = 0"
  by (simp add: fl_def)

lemma fl_pos_iff:
  assumes "0 < p"
  shows "0 < fl p x \<longleftrightarrow> 0 < x" and "fl p x < 0 \<longleftrightarrow> x < 0"
proof -
  have "\<bar>x\<bar> / 2 ^ p < \<bar>x\<bar>" if "x \<noteq> 0"
    using that assms by (simp add: divide_less_eq one_less_power)
  then have "x \<noteq> 0 \<Longrightarrow> \<bar>fl p x - x\<bar> < \<bar>x\<bar>"
    using fl_rel_error[of p x] by linarith
  then show "0 < fl p x \<longleftrightarrow> 0 < x" and "fl p x < 0 \<longleftrightarrow> x < 0"
    by (cases "x = 0"; auto)+
qed

lemma fl_exact:
  assumes "x = of_int m * 2 powi k" and "\<bar>m\<bar> \<le> 2 ^ p" and "0 < p"
  shows "fl p x = x"
proof (cases "x = 0")
  case True
  then show ?thesis by simp
next
  case False
  let ?e = "fl_exp x"
  have "\<exists>n. x / fl_ulp p x = of_int n"
  proof (cases "?e - int p + 1 \<le> k")
    case True
    then have "x / fl_ulp p x = of_int m * 2 powi (k - (?e - int p + 1))"
      by (simp add: assms(1) fl_ulp_def powi2_diff)
    also have "\<dots> = of_int (m * 2 ^ nat (k - (?e - int p + 1)))"
      using True by (simp add: power_int_def)
    finally show ?thesis by blast
  next
    case big: False
    have ax: "\<bar>x\<bar> = of_int \<bar>m\<bar> * 2 powi k" by (simp add: assms(1) abs_mult)
    have "(2 powi (int p + k) :: rat) \<le> 2 powi ?e"
      using big by (intro power_int_increasing) auto
    also have "\<dots> \<le> of_int \<bar>m\<bar> * 2 powi k"
      using fl_exp_bounds(1)[OF False] ax by simp
    finally have "2 ^ p * (2 powi k :: rat) \<le> of_int \<bar>m\<bar> * 2 powi k"
      by (simp add: power_int_add)
    then have "(2 ^ p :: rat) \<le> of_int \<bar>m\<bar>"
      by (rule mult_right_le_imp_le) (rule powi2_pos)
    then have "(2::int) ^ p \<le> \<bar>m\<bar>" by (metis of_int_le_iff of_int_numeral of_int_power)
    with assms(2) have m: "\<bar>m\<bar> = 2 ^ p" by simp
    have "2 powi ?e \<le> (2 powi (int p + k) :: rat)"
      using fl_exp_bounds(1)[OF False] ax m by (simp add: power_int_add)
    then have "?e \<le> int p + k" by (metis linorder_not_le one_less_numeral_iff power_int_strict_increasing semiring_norm(76))
    with big have e: "?e = int p + k" by simp
    have "m = sgn m * (2 * 2 ^ (p - 1))"
      using m assms(3) by (metis mult_sgn_abs mult.commute power_eq_if not_gr_zero)
    then have "x / fl_ulp p x = of_int (sgn m * (2 * 2 ^ (p - 1))) * 2 powi k / 2 powi (k + 1)"
      by (metis assms(1) fl_ulp_def e add_diff_cancel_left')
    also have "\<dots> = of_int (sgn m * 2 ^ (p - 1))" by (simp add: powi2_Suc)
    finally show ?thesis by blast
  qed
  then obtain n where n: "x / fl_ulp p x = of_int n" by blast
  have "fl p x = (x / fl_ulp p x) * fl_ulp p x"
    using False unfolding fl_def n by (simp only: round_half_even_of_int if_False)
  also have "\<dots> = x" by (simp add: less_imp_neq[THEN not_sym])
  finally show ?thesis .
qed

lemma fl_of_int: "\<bar>n\<bar> \<le> 2 ^ p \<Longrightarrow> 0 < p \<Longrightarrow> fl p (of_int n) = of_int n"
  by (rule fl_exact [where k = 0]) auto

text \<open>Rounding does not cross an integer.\<close>

lemma round_half_even_ge: "of_int m \<le> x \<Longrightarrow> m \<le> round_half_even x"
proof -
  assume "of_int m \<le> x"
  then have "m \<le> \<lfloor>x\<rfloor>" by (simp add: le_floor_iff)
  then show ?thesis by (auto simp: round_half_even_def Let_def)
qed

lemma round_half_even_le:
  assumes "x \<le> of_int m"
  shows "round_half_even x \<le> m"
proof (cases "x = of_int m")
  case False
  with assms have "\<lfloor>x\<rfloor> < m" by (simp add: floor_less_iff)
  then show ?thesis by (auto simp: round_half_even_def Let_def)
qed simp

lemma fl_ulp_inverse:
  assumes "x \<noteq> 0" and "\<bar>x\<bar> < 2 ^ p"
  obtains K where "0 < K" and "1 / fl_ulp p x = of_int K"
proof
  have "(2::rat) powi fl_exp x < 2 powi int p"
    using fl_exp_bounds(1)[OF assms(1)] assms(2) by simp
  then have "fl_exp x < int p"
    by (metis linorder_not_le one_le_numeral power_int_increasing)
  then have "1 / fl_ulp p x = 2 ^ nat (int p - 1 - fl_exp x)"
    by (simp add: fl_ulp_def power_int_def power_inverse divide_simps nat_diff_distrib algebra_simps)
  then show "1 / fl_ulp p x = of_int (2 ^ nat (int p - 1 - fl_exp x))" by simp
qed simp

lemma fl_ge_of_int:
  assumes "of_int n \<le> x" and "\<bar>x\<bar> < 2 ^ p"
  shows "of_int n \<le> fl p x"
proof (cases "x = 0")
  case False
  obtain K where K: "0 < K" "1 / fl_ulp p x = of_int K" using fl_ulp_inverse[OF False assms(2)] .
  then have u: "x / fl_ulp p x = x * of_int K" by (metis times_divide_eq_right mult.right_neutral)
  have "of_int (n * K) \<le> x / fl_ulp p x"
    using assms(1) K(1) by (simp add: u mult_right_mono)
  then have "of_int (n * K) \<le> (of_int (round_half_even (x / fl_ulp p x)) :: rat)"
    by (simp only: of_int_le_iff round_half_even_ge)
  then have "of_int n * (1 / fl_ulp p x) \<le> of_int (round_half_even (x / fl_ulp p x))"
    using K(2) by simp
  then show ?thesis using False by (simp add: fl_def pos_divide_le_eq)
qed (use assms in simp)

lemma fl_le_of_int:
  assumes "x \<le> of_int n" and "\<bar>x\<bar> < 2 ^ p"
  shows "fl p x \<le> of_int n"
proof (cases "x = 0")
  case False
  obtain K where K: "0 < K" "1 / fl_ulp p x = of_int K" using fl_ulp_inverse[OF False assms(2)] .
  then have u: "x / fl_ulp p x = x * of_int K" by (metis times_divide_eq_right mult.right_neutral)
  have "x / fl_ulp p x \<le> of_int (n * K)"
    using assms(1) K(1) by (simp add: u mult_right_mono)
  then have "(of_int (round_half_even (x / fl_ulp p x)) :: rat) \<le> of_int (n * K)"
    by (simp only: of_int_le_iff round_half_even_le)
  then have "of_int (round_half_even (x / fl_ulp p x)) \<le> of_int n * (1 / fl_ulp p x)"
    using K(2) by simp
  then show ?thesis using False by (simp add: fl_def pos_le_divide_eq)
qed (use assms in simp)

section \<open>Double and long double\<close>

abbreviation dbl :: "rat \<Rightarrow> rat" where
  "dbl \<equiv> fl 53"

abbreviation ldbl :: "rat \<Rightarrow> rat" where
  "ldbl \<equiv> fl 64"

text \<open>What a caller can pass where the sources say \<^verbatim>\<open>double\<close>.\<close>

datatype double = Fin rat | PosInf | NegInf | NaN

fun double_neg :: "double \<Rightarrow> bool" where  \<comment> \<open>\<^verbatim>\<open>x < 0\<close>\<close>
  "double_neg (Fin x) = (x < 0)"
| "double_neg NegInf = True"
| "double_neg _ = False"

fun double_gt :: "double \<Rightarrow> rat \<Rightarrow> bool" where  \<comment> \<open>\<^verbatim>\<open>x > c\<close>\<close>
  "double_gt (Fin x) c = (c < x)"
| "double_gt PosInf c = True"
| "double_gt _ c = False"

end
