(* ===== verification/Timestamp.thy ===== *)
theory Timestamp
  imports Floating
begin

text \<open>
  Points in time: \<^verbatim>\<open>timeconv.h\<close> (\<open>addSeconds\<close>), \<^verbatim>\<open>timestamp.h\<close> and its POSIX implementation
  \<^verbatim>\<open>timestamp_unix.cpp\<close>. A \<open>timespec\<close> is normal when its nanoseconds are in \<open>[0, 10^9)\<close>.
  The clock itself is read in the theory State.
\<close>

section \<open>timespec\<close>

datatype timespec = Timespec (tv_sec: int) (tv_nsec: int)

text \<open>\<open>TimestampImplPosix::less\<close> and \<open>greater\<close>.\<close>

definition ts_less :: "timespec \<Rightarrow> timespec \<Rightarrow> bool" where
  "ts_less a b \<longleftrightarrow> tv_sec a < tv_sec b \<or> (tv_sec a = tv_sec b \<and> tv_nsec a < tv_nsec b)"

definition ts_greater :: "timespec \<Rightarrow> timespec \<Rightarrow> bool" where
  "ts_greater a b \<longleftrightarrow> tv_sec a > tv_sec b \<or> (tv_sec a = tv_sec b \<and> tv_nsec a > tv_nsec b)"

instantiation timespec :: linorder
begin

definition less_timespec_def: "a < b \<longleftrightarrow> ts_less a b"

definition less_eq_timespec_def: "a \<le> b \<longleftrightarrow> a = b \<or> ts_less a b" for a b :: timespec

instance
proof
  fix a b c :: timespec
  show "a < b \<longleftrightarrow> a \<le> b \<and> \<not> b \<le> a"
    by (cases a; cases b) (auto simp: less_timespec_def less_eq_timespec_def ts_less_def)
  show "a \<le> a" by (simp add: less_eq_timespec_def)
  show "a \<le> b \<Longrightarrow> b \<le> c \<Longrightarrow> a \<le> c"
    by (cases a; cases b; cases c) (auto simp: less_eq_timespec_def ts_less_def)
  show "a \<le> b \<Longrightarrow> b \<le> a \<Longrightarrow> a = b"
    by (cases a; cases b) (auto simp: less_eq_timespec_def ts_less_def)
  show "a \<le> b \<or> b \<le> a"
    by (cases a; cases b) (auto simp: less_eq_timespec_def ts_less_def)
qed

end

lemma ts_less_iff [simp]: "ts_less a b \<longleftrightarrow> a < b"
  by (simp add: less_timespec_def)

lemma ts_greater_iff [simp]: "ts_greater a b \<longleftrightarrow> b < a"
  unfolding less_timespec_def ts_less_def ts_greater_def by auto

lemma timespec_less_simp [simp]:
  "Timespec s n < Timespec s' n' \<longleftrightarrow> s < s' \<or> (s = s' \<and> n < n')"
  unfolding less_timespec_def ts_less_def by simp

lemma timespec_le_simp [simp]:
  "Timespec s n \<le> Timespec s' n' \<longleftrightarrow> s < s' \<or> (s = s' \<and> n \<le> n')"
  unfolding less_eq_timespec_def ts_less_def by auto

definition ts_normal :: "timespec \<Rightarrow> bool" where
  "ts_normal ts \<longleftrightarrow> 0 \<le> tv_nsec ts \<and> tv_nsec ts < 10 ^ 9"

definition ts_ns :: "timespec \<Rightarrow> int" where  \<comment> \<open>the instant, in nanoseconds\<close>
  "ts_ns ts = tv_sec ts * 10 ^ 9 + tv_nsec ts"

lemma ts_ns_less_iff: "ts_normal a \<Longrightarrow> ts_normal b \<Longrightarrow> a < b \<longleftrightarrow> ts_ns a < ts_ns b"
  by (cases a; cases b) (auto simp: ts_normal_def ts_ns_def)

section \<open>addSeconds\<close>

text \<open>
  \<^verbatim>\<open>(time_t)secs\<close> is undefined in C++ unless the truncated value is a 64-bit integer, and so
  is an overflowing \<^verbatim>\<open>tv_sec +=\<close>: \<open>addSeconds\<close> is \<open>None\<close> there. The fractional part
  \<^verbatim>\<open>secs - (time_t)secs\<close> is exact in \<^verbatim>\<open>double\<close> arithmetic (lemma \<open>frac_exact\<close>); the product
  and the sums with \<^verbatim>\<open>1e9L\<close> are \<^verbatim>\<open>long double\<close> operations, truncated into \<open>tv_nsec\<close>.
\<close>

definition int64 :: "int \<Rightarrow> bool" where
  "int64 n \<longleftrightarrow> - (2 ^ 63) \<le> n \<and> n < 2 ^ 63"

definition add_nsec :: "int \<Rightarrow> rat \<Rightarrow> int" where  \<comment> \<open>\<^verbatim>\<open>tv_nsec += x\<close>\<close>
  "add_nsec n x = trunc0 (ldbl (of_int n + x))"

fun normalize_low :: "timespec \<Rightarrow> timespec" where
  "normalize_low (Timespec s n) =
     (if n < 0 then Timespec (s - 1) (add_nsec n (10 ^ 9)) else Timespec s n)"

fun normalize_high :: "timespec \<Rightarrow> timespec" where
  "normalize_high (Timespec s n) =
     (if 10 ^ 9 \<le> n then Timespec (s + 1) (add_nsec n (- (10 ^ 9))) else Timespec s n)"

definition addSeconds :: "timespec \<Rightarrow> double \<Rightarrow> timespec option" where
  "addSeconds time secs =
     (case secs of
        Fin x \<Rightarrow>
          let t = trunc0 x;
              ts0 = Timespec (tv_sec time + t)
                      (add_nsec (tv_nsec time) (ldbl ((x - of_int t) * 10 ^ 9)));
              ts = normalize_high (normalize_low ts0)
          in if int64 t \<and> int64 (tv_sec ts0) \<and> int64 (tv_sec ts) then Some ts else None
      | _ \<Rightarrow> None)"

lemma frac_exact:
  assumes "x = of_int m * 2 powi k" and "\<bar>m\<bar> \<le> 2 ^ 53"
  shows "dbl (x - of_int (trunc0 x)) = x - of_int (trunc0 x)"
proof (cases "0 \<le> k")
  case True
  then have "x = of_int (m * 2 ^ nat k)" by (simp add: assms(1) power_int_def)
  then show ?thesis by (metis trunc0_of_int cancel_comm_monoid_add_class.diff_cancel fl_zero)
next
  case False
  let ?d = "2 ^ nat (- k)" let ?f = "x - of_int (trunc0 x)" let ?m = "m - trunc0 x * ?d"
  have d: "(2::rat) powi k * of_int ?d = 1" using False by (simp add: power_int_def flip: power_mult_distrib)
  have f: "?f = of_int ?m * 2 powi k"
  proof -
    have "of_int (trunc0 x) = of_int (trunc0 x) * (2 powi k * of_int ?d :: rat)" using d by simp
    then show ?thesis by (simp add: assms(1) algebra_simps)
  qed
  have "\<bar>?f\<bar> \<le> \<bar>x\<bar>" by (rule trunc0_frac_abs_le)
  moreover have "\<bar>?f\<bar> = \<bar>of_int ?m\<bar> * 2 powi k" by (simp only: f abs_mult abs_of_pos[OF powi2_pos])
  moreover have "\<bar>x\<bar> = \<bar>of_int m\<bar> * 2 powi k"
    by (simp only: assms(1) abs_mult abs_of_pos[OF powi2_pos])
  ultimately have "\<bar>of_int ?m\<bar> * (2::rat) powi k \<le> \<bar>of_int m\<bar> * 2 powi k" by simp
  then have "\<bar>of_int ?m :: rat\<bar> \<le> \<bar>of_int m\<bar>"
    by (rule mult_right_le_imp_le) (rule powi2_pos)
  then have "\<bar>?m\<bar> \<le> \<bar>m\<bar>" by (simp only: of_int_le_iff flip: of_int_abs)
  then have "\<bar>?m\<bar> \<le> 2 ^ 53" using assms(2) by linarith
  from fl_exact[OF f this] show ?thesis by simp
qed

section \<open>Facts about addSeconds\<close>

lemma ldbl_product_bounds:
  assumes "\<bar>f\<bar> < 1"
  shows "\<bar>ldbl (f * 10 ^ 9)\<bar> \<le> 10 ^ 9"
    and "\<bar>ldbl (f * 10 ^ 9) - f * 10 ^ 9\<bar> \<le> 10 ^ 9 / 2 ^ 64"
proof -
  let ?y = "f * 10 ^ 9"
  have y: "\<bar>?y\<bar> < 10 ^ 9" using assms by (simp add: abs_mult)
  then have "?y \<le> of_int (10 ^ 9)" "of_int (- (10 ^ 9)) \<le> ?y" "\<bar>?y\<bar> < 2 ^ 64"
    by (auto simp: abs_less_iff)
  from fl_le_of_int[OF this(1,3)] fl_ge_of_int[OF this(2,3)]
  show "\<bar>ldbl ?y\<bar> \<le> 10 ^ 9" by (simp add: abs_le_iff)
  have "\<bar>?y\<bar> / 2 ^ 64 \<le> 10 ^ 9 / 2 ^ 64" using y by (simp add: divide_right_mono)
  with fl_rel_error[of 64 ?y] show "\<bar>ldbl ?y - ?y\<bar> \<le> 10 ^ 9 / 2 ^ 64" by linarith
qed

lemma add_nsec_int: "\<bar>n + m\<bar> \<le> 2 ^ 64 \<Longrightarrow> add_nsec n (of_int m) = n + m"
  unfolding add_nsec_def by (simp only: fl_of_int trunc0_of_int flip: of_int_add)

lemma normalize_low_simp:
  "\<bar>n\<bar> \<le> 2 * 10 ^ 9 \<Longrightarrow>
   normalize_low (Timespec s n) = (if n < 0 then Timespec (s - 1) (n + 10 ^ 9) else Timespec s n)"
  using add_nsec_int[of n "10 ^ 9"] by simp

lemma normalize_high_simp:
  "\<bar>n\<bar> \<le> 2 * 10 ^ 9 \<Longrightarrow>
   normalize_high (Timespec s n) = (if 10 ^ 9 \<le> n then Timespec (s + 1) (n - 10 ^ 9) else Timespec s n)"
  using add_nsec_int[of n "- (10 ^ 9)"] by simp

text \<open>One carry either way is enough for what the addition can produce.\<close>

lemma normalize_eq:
  assumes "- (10 ^ 9) \<le> n" and "n < 2 * 10 ^ 9"
  shows "normalize_high (normalize_low (Timespec s n)) =
    (if n < 0 then Timespec (s - 1) (n + 10 ^ 9)
     else if 10 ^ 9 \<le> n then Timespec (s + 1) (n - 10 ^ 9) else Timespec s n)"
proof (cases "n < 0")
  case True
  with assms have "\<bar>n\<bar> \<le> 2 * 10 ^ 9" and m: "\<bar>n + 10 ^ 9\<bar> \<le> 2 * 10 ^ 9" by linarith+
  with True show ?thesis by (simp only: normalize_low_simp normalize_high_simp[OF m]) simp
next
  case False
  with assms have n: "\<bar>n\<bar> \<le> 2 * 10 ^ 9" by linarith
  with False show ?thesis by (simp only: normalize_low_simp if_False normalize_high_simp[OF n])
qed

lemma normalize_both:
  assumes "- (10 ^ 9) \<le> n" and "n < 2 * 10 ^ 9"
  shows "ts_normal (normalize_high (normalize_low (Timespec s n)))"
    and "ts_ns (normalize_high (normalize_low (Timespec s n))) = s * 10 ^ 9 + n"
    and "\<bar>tv_sec (normalize_high (normalize_low (Timespec s n))) - s\<bar> \<le> 1"
  using assms unfolding normalize_eq[OF assms] by (auto simp: ts_normal_def ts_ns_def algebra_simps)

text \<open>What the addition leaves in \<open>tv_nsec\<close> before the carries.\<close>

lemma add_nsec_bounds:
  assumes "0 \<le> n" "n < 10 ^ 9" and f: "\<bar>f\<bar> < 1"
  defines "z \<equiv> add_nsec n (ldbl (f * 10 ^ 9))"
  shows "- (10 ^ 9) \<le> z" and "z < 2 * 10 ^ 9"
    and "\<bar>of_int z - (of_int n + f * 10 ^ 9)\<bar> < 2"
    and "0 \<le> f \<Longrightarrow> n \<le> z" and "f \<le> 0 \<Longrightarrow> z \<le> n"
proof -
  let ?y = "ldbl (f * 10 ^ 9)" let ?w = "of_int n + ?y"
  note y = ldbl_product_bounds[OF f]
  have fb: "\<bar>f * 10 ^ 9\<bar> < 2 ^ 64" using f by (simp add: abs_mult)
  have n: "0 \<le> (of_int n :: rat)" "of_int n \<le> (of_int (10 ^ 9 - 1) :: rat)"
    using assms(1,2) by (simp_all only: of_int_0_le_iff of_int_le_iff)
  have w: "of_int (- (10 ^ 9)) \<le> ?w" "?w \<le> of_int (2 * 10 ^ 9 - 1)" "\<bar>?w\<bar> < 2 ^ 64"
    using y(1) n by (simp_all add: abs_le_iff abs_less_iff)
  have z: "z = trunc0 (ldbl ?w)" by (simp add: z_def add_nsec_def)
  show "- (10 ^ 9) \<le> z" unfolding z
    by (rule trunc0_ge) (use fl_ge_of_int[OF w(1,3)] in auto)
  show "z < 2 * 10 ^ 9"
  proof -
    have "z \<le> 2 * 10 ^ 9 - 1" unfolding z
      by (rule trunc0_le) (use fl_le_of_int[OF w(2,3)] in auto)
    then show ?thesis by simp
  qed
  show "\<bar>of_int z - (of_int n + f * 10 ^ 9)\<bar> < 2"
  proof -
    have "\<bar>?w\<bar> / 2 ^ 64 \<le> 2 * 10 ^ 9 / 2 ^ 64"
      using w by (intro divide_right_mono) (auto simp: abs_le_iff)
    then have "\<bar>ldbl ?w - ?w\<bar> \<le> 2 * 10 ^ 9 / 2 ^ 64" using fl_rel_error[of 64 ?w] by linarith
    moreover have "\<bar>ldbl ?w - of_int z\<bar> < 1" unfolding z by (rule trunc0_error)
    moreover have "(2 * 10 ^ 9 / 2 ^ 64 :: rat) + 10 ^ 9 / 2 ^ 64 < 1" by simp
    ultimately show ?thesis using y(2) by linarith
  qed
  show "n \<le> z" if "0 \<le> f"
  proof -
    have "of_int 0 \<le> ?y" using that by (intro fl_ge_of_int[OF _ fb]) auto
    then have "of_int n \<le> ldbl ?w" using w(3) by (intro fl_ge_of_int) auto
    then show ?thesis using assms(1) unfolding z by (auto simp: trunc0_def le_floor_iff)
  qed
  show "z \<le> n" if "f \<le> 0"
  proof -
    have "?y \<le> of_int 0" using that by (intro fl_le_of_int[OF _ fb]) (auto simp: mult_le_0_iff)
    then have "ldbl ?w \<le> of_int n" using w(3) by (intro fl_le_of_int) auto
    then show ?thesis using assms(1) unfolding z by (intro trunc0_le) auto
  qed
qed

section \<open>What callers rely on\<close>

lemma addSeconds_SomeD:
  assumes "addSeconds ts (Fin x) = Some r" and "ts_normal ts"
  obtains z where "ts_ns r = (tv_sec ts + trunc0 x) * 10 ^ 9 + z" and "ts_normal r"
    and "\<bar>of_int z - (of_int (tv_nsec ts) + (x - of_int (trunc0 x)) * 10 ^ 9)\<bar> < 2"
    and "0 \<le> x \<Longrightarrow> tv_nsec ts \<le> z" and "x < 0 \<Longrightarrow> z \<le> tv_nsec ts"
proof -
  let ?f = "x - of_int (trunc0 x)"
  let ?z = "add_nsec (tv_nsec ts) (ldbl (?f * 10 ^ 9))"
  have n: "0 \<le> tv_nsec ts" "tv_nsec ts < 10 ^ 9" using assms(2) by (auto simp: ts_normal_def)
  note z = add_nsec_bounds[OF n trunc0_error[of x]]
  have r: "r = normalize_high (normalize_low (Timespec (tv_sec ts + trunc0 x) ?z))"
    using assms(1) by (simp add: addSeconds_def Let_def split: if_splits)
  show thesis
  proof (rule that)
    show "ts_ns r = (tv_sec ts + trunc0 x) * 10 ^ 9 + ?z" unfolding r by (rule normalize_both(2)[OF z(1,2)])
    show "ts_normal r" unfolding r by (rule normalize_both(1)[OF z(1,2)])
    show "\<bar>of_int ?z - (of_int (tv_nsec ts) + ?f * 10 ^ 9)\<bar> < 2" by (rule z(3))
    show "0 \<le> x \<Longrightarrow> tv_nsec ts \<le> ?z" by (rule z(4)) (rule trunc0_frac_sign(1))
    show "x < 0 \<Longrightarrow> ?z \<le> tv_nsec ts" by (rule z(5)) (rule trunc0_frac_sign(2))
  qed
qed

lemma addSeconds_finite: "addSeconds ts secs = Some r \<Longrightarrow> \<exists>x. secs = Fin x"
  by (cases secs) (simp_all add: addSeconds_def)

lemma addSeconds_normal: "addSeconds ts secs = Some r \<Longrightarrow> ts_normal ts \<Longrightarrow> ts_normal r"
  by (frule addSeconds_finite, elim exE) (auto elim: addSeconds_SomeD)

lemma addSeconds_later:
  assumes "addSeconds ts (Fin x) = Some r" and "ts_normal ts" and "0 \<le> x"
  shows "ts \<le> r"
proof -
  obtain z where z: "ts_ns r = (tv_sec ts + trunc0 x) * 10 ^ 9 + z" "ts_normal r" "tv_nsec ts \<le> z"
    using addSeconds_SomeD[OF assms(1,2)] assms(3) by metis
  have "0 \<le> trunc0 x" using assms(3) by (simp add: trunc0_def)
  then have "ts_ns ts \<le> ts_ns r" using z(1,3) ts_ns_def[of ts] by (simp add: algebra_simps)
  then have "\<not> r < ts" using ts_ns_less_iff[OF z(2) assms(2)] by simp
  then show ?thesis by simp
qed

lemma addSeconds_earlier:
  assumes "addSeconds ts (Fin x) = Some r" and "ts_normal ts" and "x < 0"
  shows "r \<le> ts"
proof -
  obtain z where z: "ts_ns r = (tv_sec ts + trunc0 x) * 10 ^ 9 + z" "ts_normal r" "z \<le> tv_nsec ts"
    using addSeconds_SomeD[OF assms(1,2)] assms(3) by metis
  have "trunc0 x \<le> 0" using assms(3) by (rule trunc0_neg_bounds(3))
  then have "ts_ns r \<le> ts_ns ts" using z(1,3) ts_ns_def[of ts] by (simp add: algebra_simps)
  then have "\<not> ts < r" using ts_ns_less_iff[OF assms(2) z(2)] by simp
  then show ?thesis by simp
qed

text \<open>Adding one delay keeps the order of two times.\<close>

lemma add_nsec_mono:
  assumes "0 \<le> n" and "n < n'" and "n' < 10 ^ 9" and y: "\<bar>y\<bar> \<le> 10 ^ 9"
  shows "add_nsec n y \<le> add_nsec n' y"
proof -
  let ?a = "of_int n + y" and ?b = "of_int n' + y" and ?m = "\<lceil>of_int n + y\<rceil>"
  have "(of_int (n + 1) :: rat) \<le> of_int n'" "(of_int 0 :: rat) \<le> of_int n" "(of_int n' :: rat) \<le> of_int (10 ^ 9)"
    using assms(1-3) by (subst of_int_le_iff; linarith)+
  then have n: "(of_int n :: rat) + 1 \<le> of_int n'" "(0::rat) \<le> of_int n" "of_int n' \<le> (10 ^ 9 :: rat)"
    by simp_all
  have ab: "?a \<le> of_int ?m" "of_int ?m \<le> ?b" "\<bar>?a\<bar> < 2 ^ 64" "\<bar>?b\<bar> < 2 ^ 64"
    using n y ceiling_correct[of ?a] by (auto simp: abs_le_iff abs_less_iff)
  have "ldbl ?a \<le> ldbl ?b"
    using fl_le_of_int[OF ab(1,3)] fl_ge_of_int[OF ab(2,4)] by (auto intro: order_trans)
  then show ?thesis unfolding add_nsec_def by (rule trunc0_mono)
qed

lemma add_nsec_carry:
  assumes "0 \<le> n" and "n < 10 ^ 9" and "0 \<le> n'" and "n' < 10 ^ 9" and y: "\<bar>y\<bar> \<le> 10 ^ 9"
  shows "add_nsec n y \<le> add_nsec n' y + 10 ^ 9"
proof -
  let ?a = "of_int n + y" and ?b = "of_int n' + y"
  have "(of_int n :: rat) \<le> of_int (10 ^ 9 - 1)" "(of_int 0 :: rat) \<le> of_int n" "(of_int 0 :: rat) \<le> of_int n'"
    "(of_int n' :: rat) \<le> of_int (10 ^ 9)"
    using assms(1-4) by (subst of_int_le_iff; linarith)+
  then have n: "of_int n \<le> (10 ^ 9 - 1 :: rat)" "(0::rat) \<le> of_int n" "(0::rat) \<le> of_int n'" "of_int n' \<le> (10 ^ 9 :: rat)"
    by simp_all
  have c: "y \<le> of_int \<lceil>y\<rceil>" "of_int \<lfloor>y\<rfloor> \<le> y" by simp_all
  have ab: "?a \<le> of_int (10 ^ 9 - 1 + \<lceil>y\<rceil>)" "of_int \<lfloor>y\<rfloor> \<le> ?b"
    unfolding of_int_add of_int_diff of_int_power of_int_numeral of_int_1 using n c y by linarith+
  have "\<bar>?a\<bar> < 2 ^ 64" "\<bar>?b\<bar> < 2 ^ 64" using n y by (auto simp: abs_le_iff abs_less_iff)
  note ab = ab this
  have "trunc0 (ldbl ?a) \<le> 10 ^ 9 - 1 + \<lceil>y\<rceil>" "\<lfloor>y\<rfloor> \<le> trunc0 (ldbl ?b)"
    using trunc0_mono[OF fl_le_of_int[OF ab(1,3)]] trunc0_mono[OF fl_ge_of_int[OF ab(2,4)]]
    by (simp_all only: trunc0_of_int)
  moreover have "\<lceil>y\<rceil> \<le> \<lfloor>y\<rfloor> + 1" by linarith
  ultimately show ?thesis unfolding add_nsec_def by linarith
qed

lemma addSeconds_mono:
  assumes "addSeconds a d = Some r" and "addSeconds b d = Some s" and "ts_normal a" and "ts_normal b" and "a \<le> b"
  shows "r \<le> s"
proof -
  obtain x where d: "d = Fin x" using addSeconds_finite[OF assms(1)] by blast
  let ?y = "ldbl ((x - of_int (trunc0 x)) * 10 ^ 9)"
  have y: "\<bar>?y\<bar> \<le> 10 ^ 9" by (rule ldbl_product_bounds(1)) (rule trunc0_error)
  have na: "0 \<le> tv_nsec a" "tv_nsec a < 10 ^ 9" and nb: "0 \<le> tv_nsec b" "tv_nsec b < 10 ^ 9"
    using assms(3,4) by (auto simp: ts_normal_def)
  have eff: "ts_normal u" "ts_ns u = (tv_sec t + trunc0 x) * 10 ^ 9 + add_nsec (tv_nsec t) ?y"
    if "addSeconds t d = Some u" "0 \<le> tv_nsec t" "tv_nsec t < 10 ^ 9" for t u
  proof -
    have u: "u = normalize_high (normalize_low (Timespec (tv_sec t + trunc0 x) (add_nsec (tv_nsec t) ?y)))"
      using that(1) by (simp add: d addSeconds_def Let_def split: if_splits)
    note z = add_nsec_bounds(1,2)[OF that(2,3) trunc0_error[of x]]
    show "ts_normal u" "ts_ns u = (tv_sec t + trunc0 x) * 10 ^ 9 + add_nsec (tv_nsec t) ?y"
      unfolding u by (rule normalize_both(1,2)[OF z])+
  qed
  note ra = eff[OF assms(1) na] and sb = eff[OF assms(2) nb]
  have "ts_ns r \<le> ts_ns s"
  proof (cases "tv_sec a = tv_sec b")
    case True
    then have "tv_nsec a \<le> tv_nsec b" using assms(5) by (cases a; cases b) auto
    then have "add_nsec (tv_nsec a) ?y \<le> add_nsec (tv_nsec b) ?y"
      using add_nsec_mono[of "tv_nsec a" "tv_nsec b" ?y] na nb y by (cases "tv_nsec a = tv_nsec b") auto
    then show ?thesis using ra(2) sb(2) True by simp
  next
    case False
    then have "tv_sec a + 1 \<le> tv_sec b" using assms(5) by (cases a; cases b) auto
    then show ?thesis using ra(2) sb(2) add_nsec_carry[OF na nb y] by (simp add: algebra_simps)
  qed
  then show ?thesis using ts_ns_less_iff[OF sb(1) ra(1)] by simp
qed

text \<open>The delays the sources clamp to (\<open>3e10\<close> seconds) never leave the 64-bit range.\<close>

lemma addSeconds_defined:
  assumes "ts_normal ts" and "\<bar>tv_sec ts\<bar> \<le> 2 ^ 62" and "\<bar>x\<bar> \<le> 3 * 10 ^ 10"
  shows "\<exists>r. addSeconds ts (Fin x) = Some r"
proof -
  let ?z = "add_nsec (tv_nsec ts) (ldbl ((x - of_int (trunc0 x)) * 10 ^ 9))"
  have n: "0 \<le> tv_nsec ts" "tv_nsec ts < 10 ^ 9" using assms(1) by (auto simp: ts_normal_def)
  note z = normalize_both(3)[OF add_nsec_bounds(1,2)[OF n trunc0_error[of x]], of "tv_sec ts + trunc0 x"]
  have x: "x \<le> of_int (3 * 10 ^ 10)" "of_int (- (3 * 10 ^ 10)) \<le> x" using assms(3) by (simp_all add: abs_le_iff)
  have "trunc0 x \<le> 3 * 10 ^ 10" by (rule trunc0_le) (use x in linarith)+
  moreover have "- (3 * 10 ^ 10) \<le> trunc0 x" by (rule trunc0_ge) (use x in linarith)+
  ultimately have "int64 (trunc0 x)" "int64 (tv_sec ts + trunc0 x)"
    "int64 (tv_sec (normalize_high (normalize_low (Timespec (tv_sec ts + trunc0 x) ?z))))"
    using z assms(2) by (auto simp: int64_def abs_le_iff)
  then show ?thesis by (simp add: addSeconds_def Let_def)
qed

lemma addSeconds_zero: "int64 (tv_sec ts) \<Longrightarrow> ts_normal ts \<Longrightarrow> addSeconds ts (Fin 0) = Some ts"
  using normalize_eq[of "tv_nsec ts" "tv_sec ts"] add_nsec_int[of "tv_nsec ts" 0]
  by (cases ts) (simp add: addSeconds_def ts_normal_def int64_def trunc0_def Let_def
      del: normalize_low.simps normalize_high.simps)

lemma addSeconds_zeroD:
  assumes "addSeconds ts (Fin 0) = Some t" and "ts_normal ts"
  shows "t = ts"
proof -
  have "trunc0 0 = 0" by (simp add: trunc0_def)
  then have "int64 (tv_sec ts)" using assms(1) unfolding addSeconds_def double.case Let_def
    by (simp del: normalize_low.simps normalize_high.simps split: if_splits)
  then show ?thesis using addSeconds_zero[OF _ assms(2)] assms(1) by simp
qed

section \<open>Differences\<close>

text \<open>\<open>TimestampImplPosix::diff_secs\<close>: two roundings to double on the way.\<close>

definition diff_secs :: "timespec \<Rightarrow> timespec \<Rightarrow> rat" where
  "diff_secs a b =
     dbl (dbl (of_int (tv_sec a - tv_sec b)) + dbl (of_int (tv_nsec a - tv_nsec b) / 10 ^ 9))"

lemma diff_secs_pos:
  assumes "ts_normal a" "ts_normal b" "b < a"
  shows "0 < diff_secs a b"
proof -
  let ?s = "tv_sec a - tv_sec b" and ?n = "tv_nsec a - tv_nsec b"
  let ?A = "dbl (of_int ?s)" and ?B = "dbl (of_int ?n / 10 ^ 9)"
  have n: "\<bar>?n\<bar> \<le> 10 ^ 9 - 1" using assms(1,2) by (auto simp: ts_normal_def)
  have "0 < ?A + ?B"
  proof (cases "?s = 0")
    case True
    then have "0 < ?n" using assms(3) by (cases a; cases b) auto
    then show ?thesis using True fl_pos_iff(1)[of 53 "of_int ?n / 10 ^ 9"] by simp
  next
    case False
    then have s: "1 \<le> ?s" using assms(3) by (cases a; cases b) auto
    have A: "1 \<le> ?A"
    proof (cases "?s \<le> 2 ^ 53")
      case True
      then have "?A = of_int ?s" using s by (intro fl_of_int) auto
      then show ?thesis using s by (simp only: of_int_1_le_iff)
    next
      case big: False
      then have "(2::rat) \<le> of_int ?s" using of_int_le_iff[of 2 ?s, where ?'a = rat] by simp
      moreover have "of_int ?s - ?A \<le> of_int ?s / 2 ^ 53"
        using fl_rel_error[of 53 "of_int ?s"] s by (simp only: abs_le_iff abs_of_pos) simp
      moreover have "(of_int ?s :: rat) / 2 ^ 53 \<le> of_int ?s / 2" using s by (intro divide_left_mono) auto
      ultimately have "of_int ?s - ?A \<le> of_int ?s / 2" by (rule_tac order_trans)
      then show ?thesis using \<open>2 \<le> of_int ?s\<close> by (simp add: field_simps)
    qed
    have "\<bar>of_int ?n :: rat\<bar> \<le> of_int (10 ^ 9 - 1)" using n by (simp only: of_int_le_iff flip: of_int_abs)
    then have q: "\<bar>of_int ?n / 10 ^ 9 :: rat\<bar> \<le> 1 - 1 / 10 ^ 9" by (simp add: abs_divide divide_simps)
    then have "\<bar>of_int ?n / 10 ^ 9 :: rat\<bar> / 2 ^ 53 \<le> 1 / 2 ^ 53"
      using order_trans[OF q, of 1] by (intro divide_right_mono) simp_all
    moreover have "1 - 1 / 10 ^ 9 + 1 / 2 ^ 53 < (1::rat)" by simp
    ultimately have "\<bar>?B\<bar> < 1" using fl_rel_error[of 53 "of_int ?n / 10 ^ 9"] q by linarith
    then show ?thesis using A by linarith
  qed
  then show ?thesis unfolding diff_secs_def by (simp add: fl_pos_iff)
qed

lemma round_half_even_minus: "round_half_even (- x) = - round_half_even x"
proof (cases "x = of_int \<lfloor>x\<rfloor>")
  case True
  then show ?thesis by (metis of_int_minus round_half_even_of_int)
next
  case False
  then have "\<lfloor>- x\<rfloor> = - \<lfloor>x\<rfloor> - 1"
    using floor_correct[of x] by (intro floor_unique) (auto simp: order_less_le)
  then show ?thesis by (auto simp: round_half_even_def Let_def)
qed

lemma fl_minus: "fl p (- x) = - fl p x"
  by (simp add: fl_def fl_ulp_def fl_exp_def round_half_even_minus)

lemma diff_secs_swap: "diff_secs b a = - diff_secs a b"
proof -
  have "dbl (of_int (tv_sec b - tv_sec a)) = - dbl (of_int (tv_sec a - tv_sec b))"
    by (simp flip: fl_minus)
  moreover have "dbl (of_int (tv_nsec b - tv_nsec a) / 10 ^ 9) = - dbl (of_int (tv_nsec a - tv_nsec b) / 10 ^ 9)"
    by (simp flip: fl_minus add: diff_divide_distrib)
  ultimately show ?thesis unfolding diff_secs_def by (simp flip: fl_minus add: add.commute)
qed

text \<open>Rounding never makes the sign of a difference disagree with the order.\<close>

lemma diff_secs_pos_iff:
  "ts_normal a \<Longrightarrow> ts_normal b \<Longrightarrow> 0 < diff_secs a b \<longleftrightarrow> b < a"
  using diff_secs_pos[of a b] diff_secs_pos[of b a] diff_secs_swap[of a b]
  by (cases a b rule: linorder_cases) (auto simp: diff_secs_def)

end
