(* ===== verification/Callback.thy ===== *)
theory Callback
  imports StdContainers Timestamp
begin

text \<open>
  What can be scheduled (\<^verbatim>\<open>callback_registry.h\<close>, class \<^verbatim>\<open>Callback\<close> and its two subclasses),
  and the programs callbacks run. User code is not part of the sources: it is any program
  that calls the package's entry points, looks at what they return, and returns or throws.
\<close>

section \<open>Errors\<close>

text \<open>
  How a call can end other than by returning. \<open>UnwindException\<close> is
  \<^verbatim>\<open>cpp4r::unwind_exception\<close> (from \<^verbatim>\<open>cpp4r::stop\<close>, and from an R error under
  \<^verbatim>\<open>cpp4r::function\<close>), \<open>StdException\<close> a \<^verbatim>\<open>std::exception\<close>, \<open>UnknownException\<close> any other C++
  object; these run the destructors of the frames they leave. \<open>Longjmp\<close> is an R error or
  interrupt raised by a plain C call to R (\<^verbatim>\<open>Rf_error\<close>, \<^verbatim>\<open>R_CheckUserInterrupt\<close>): it leaves by
  \<^verbatim>\<open>longjmp\<close> and runs none. \<open>Undefined\<close> marks a step C++ gives no meaning to.
\<close>

datatype exn =
    UnwindException string
  | StdException string
  | UnknownException
  | Longjmp string
  | Undefined string

fun runs_destructors :: "exn \<Rightarrow> bool" where
  "runs_destructors (Longjmp _) = False"
| "runs_destructors (Undefined _) = False"
| "runs_destructors _ = True"

section \<open>User programs\<close>

text \<open>\<^verbatim>\<open>struct pollfd\<close>.\<close>

record pollfd =
  pfd_fd :: int
  pfd_events :: "16 word"
  pfd_revents :: "16 word"

text \<open>The entry points registered with R (\<^verbatim>\<open>[[cpp4r::register]]\<close>) and with C callers.\<close>

datatype 'p api =
    ExecLater 'p double int
  | ExecLaterNative2 'p double int
  | CancelCallback string int
  | ExecCallbacks double bool int
  | CreateCallbackRegistry int int
  | DeleteCallbackRegistry int
  | NotifyRRefDeleted int
  | ExistsCallbackRegistry int
  | SetCurrentRegistryId int
  | GetCurrentRegistryId
  | ListQueue int
  | Idle int
  | NextOpSecs int
  | ExecLaterFd "int list \<Rightarrow> 'p" "int list" "int list" "int list" double int
  | FdCancel nat
  | ExecLaterFdNative "int list \<Rightarrow> 'p" "pollfd list" double int
  | EnsureInitialized

text \<open>One row of \<^verbatim>\<open>list_queue_\<close>: id and time to go as R doubles, and the kind of callback.\<close>

type_synonym listing = "rat \<times> rat \<times> string"

datatype val =
    VUnit
  | VBool bool
  | VInt int
  | VString string
  | VReal double
  | VList "listing list"
  | VPtr nat

datatype prog =
    Done
  | Throw exn
  | Call "prog api" "exn + val \<Rightarrow> prog"

section \<open>Callbacks\<close>

text \<open>
  \<^verbatim>\<open>cpp4rFunctionCallback\<close> holds an R function, \<^verbatim>\<open>StdFunctionCallback\<close> a C function bound to
  its data: user code, or \<^verbatim>\<open>later_callback\<close> of \<^verbatim>\<open>fd.cpp\<close> bound to a \<^verbatim>\<open>ThreadArgs\<close> object.
\<close>

datatype cbfun =
    RFunction prog
  | NativeFunction prog
  | LaterCallback nat

record callback =
  cbWhen :: timespec
  callbackId :: "64 word"
  func :: cbfun

definition callback_less :: "callback \<Rightarrow> callback \<Rightarrow> bool" where
  "callback_less a b \<longleftrightarrow>
     ts_less (cbWhen a) (cbWhen b) \<or>
     (\<not> ts_greater (cbWhen a) (cbWhen b) \<and> callbackId a < callbackId b)"

definition callback_greater :: "callback \<Rightarrow> callback \<Rightarrow> bool" where
  "callback_greater a b \<longleftrightarrow> callback_less b a"

lemma callback_less_iff:
  "callback_less a b \<longleftrightarrow> cbWhen a < cbWhen b \<or> (cbWhen a = cbWhen b \<and> callbackId a < callbackId b)"
  by (auto simp: callback_less_def)

interpretation cb: comparator callback_less
  by unfold_locales (auto simp: callback_less_iff)

text \<open>The order only leaves apart what differs in time or id.\<close>

lemma callback_less_total:
  "callbackId a \<noteq> callbackId b \<Longrightarrow> callback_less a b \<or> callback_less b a"
  by (auto simp: callback_less_iff not_less_iff_gr_or_eq)

lemma callback_less_when: "callback_less a b \<Longrightarrow> cbWhen a \<le> cbWhen b"
  by (auto simp: callback_less_iff)

lemma queue_sorted_when:
  "sset_ok callback_less q \<Longrightarrow> sorted (map cbWhen q)"
  unfolding sset_ok_def by (induction q) (auto dest: callback_less_when)

lemma queue_head_when:
  "sset_ok callback_less (c # q) \<Longrightarrow> d \<in> set (c # q) \<Longrightarrow> cbWhen c \<le> cbWhen d"
  by (auto simp: cb.ok_Cons dest: callback_less_when)

end
