(* ===== verification/State.thy ===== *)
theory State
  imports Callback
begin

text \<open>
  The state of the package: every object and static variable of the sources that the
  modelled operations read or write, as one record, and what the outside world supplies
  (clock readings, what other threads do while the main thread waits). Shared pointers are
  references into stores, so that aliasing is visible; an object is never reused.
\<close>

section \<open>Objects\<close>

text \<open>\<^verbatim>\<open>CallbackRegistry\<close>. The mutex and condition variable are the table's, shared by all.\<close>

record registry =
  regId :: int
  queue :: "callback list"
  fd_waits :: int
  parent :: "nat option"
  children :: "nat list"

text \<open>\<^verbatim>\<open>CallbackRegistryTable::RegistryHandle\<close>.\<close>

record handle =
  h_registry :: nat
  r_ref_exists :: bool

text \<open>\<^verbatim>\<open>ThreadArgs\<close> of \<^verbatim>\<open>fd.cpp\<close>.\<close>

datatype fd_callback = FdFunction "int list \<Rightarrow> prog" | FdNative "int list \<Rightarrow> prog"

record thread_args =
  ta_timeout :: timespec
  ta_active :: nat
  ta_callback :: fd_callback
  ta_fds :: "pollfd list"
  ta_results :: "int list"
  ta_loop :: int
  ta_registry :: nat

text \<open>Where a wait thread stands; see the theory Fd.\<close>

datatype wait_pc =
    WStart
  | WPoll int
  | WCheck int
  | WSchedule int
  | WExit int

record wait_thread =
  wt_args :: nat
  wt_pc :: wait_pc

text \<open>\<^verbatim>\<open>Timer\<close> of \<^verbatim>\<open>timer_posix.h\<close>; its thread is at the head of its loop, in
  \<^verbatim>\<open>timedwait\<close>, or gone.\<close>

datatype timer_pc = TLoop | TTimedwait | TExit

record timer =
  bgthread :: "timer_pc option"
  wakeAt :: "timespec option"
  stopped :: bool

text \<open>
  The static variables of \<^verbatim>\<open>later_posix.cpp\<close>: the pipe that makes R call the input handler,
  the dummy pipe and the two handles, how many bytes wait in each pipe, and R's list of
  handlers (handle, descriptor, activity). \<open>os_pipes\<close> is what the next calls of
  \<^verbatim>\<open>pipe(2)\<close> answer.
\<close>

record posix =
  autorunner_initialized :: bool
  pipe_in :: int
  pipe_out :: int
  dummy_pipe_in :: int
  dummy_pipe_out :: int
  hot :: bool
  pipe_bytes :: nat
  dummy_bytes :: nat
  r_handlers :: "(nat \<times> int \<times> int) list"
  next_handle :: nat
  inputHandlerHandle :: nat
  dummyInputHandlerHandle :: nat
  os_pipes :: "(int \<times> int) option list"

section \<open>The world\<close>

text \<open>What another thread does in one atomic step.\<close>

datatype bg_event =
    BgNative prog double int
  | BgWaitThread nat int "16 word list"
  | BgTimer bool

text \<open>What happens during one \<^verbatim>\<open>timedwait\<close> of the main thread, and whether a user interrupt
  is pending when it returns.\<close>

record wake =
  wk_events :: "bg_event list"
  wk_interrupt :: bool

text \<open>
  Ghost record of what happened, in order: a callback was taken and called, or cancelled, and a
  function of \<^verbatim>\<open>fd.cpp\<close> was called. No operation reads it.
\<close>

datatype event =
    EvInvoke int "64 word"
  | EvCancel "64 word"
  | EvFdCallback nat "int list"

text \<open>The ids of the callbacks that have left their queue, in order.\<close>

fun retired_ids :: "event list \<Rightarrow> 64 word list" where
  "retired_ids [] = []"
| "retired_ids (EvInvoke l i # es) = i # retired_ids es"
| "retired_ids (EvCancel i # es) = i # retired_ids es"
| "retired_ids (EvFdCallback k rs # es) = retired_ids es"

lemma retired_ids_append [simp]: "retired_ids (es @ fs) = retired_ids es @ retired_ids fs"
  by (induction es rule: retired_ids.induct) simp_all

record world =
  heap :: "nat \<Rightarrow> registry"
  next_ref :: nat
  registries :: "(int \<times> handle) list"
  nextCallbackId :: "64 word"
  made :: nat  \<comment> \<open>ghost: how many ids have been given out\<close>
  lock_depth :: nat
  cv_signals :: nat
  exec_callbacks_reentrancy_count :: "64 word"
  current_registry :: int
  initialized :: bool
  thread_args_store :: "nat \<Rightarrow> thread_args option"
  next_args :: nat
  actives :: "nat \<Rightarrow> bool"
  next_active :: nat
  threads :: "wait_thread list"
  timer_state :: timer
  posix_state :: posix
  clock :: "nat \<Rightarrow> timespec"
  tick :: nat
  wakes :: "wake list"
  others :: "nat \<Rightarrow> bg_event list"
  turn :: nat
  spawn_ok :: "nat \<Rightarrow> bool"
  sys_frames :: "int option"
  trace :: "event list"
  stderr_log :: "string list"

text \<open>An operation that can fail returns the error or its value, with the new state; one
  that may not return at all is \<open>None\<close> when it does not.\<close>

type_synonym 'a res = "(exn + 'a) \<times> world"

definition upd_registry :: "nat \<Rightarrow> (registry \<Rightarrow> registry) \<Rightarrow> world \<Rightarrow> world" where
  "upd_registry r f w = w\<lparr>heap := (heap w)(r := f (heap w r))\<rparr>"

lemma heap_upd_registry [simp]:
  "heap (upd_registry r f w) s = (if s = r then f (heap w r) else heap w s)"
  by (simp add: upd_registry_def)

lemma upd_registry_frame [simp]:
  "next_ref (upd_registry r f w) = next_ref w"
  "registries (upd_registry r f w) = registries w"
  "nextCallbackId (upd_registry r f w) = nextCallbackId w"
  "made (upd_registry r f w) = made w"
  "lock_depth (upd_registry r f w) = lock_depth w"
  "cv_signals (upd_registry r f w) = cv_signals w"
  "exec_callbacks_reentrancy_count (upd_registry r f w) = exec_callbacks_reentrancy_count w"
  "current_registry (upd_registry r f w) = current_registry w"
  "initialized (upd_registry r f w) = initialized w"
  "thread_args_store (upd_registry r f w) = thread_args_store w"
  "next_args (upd_registry r f w) = next_args w"
  "actives (upd_registry r f w) = actives w"
  "next_active (upd_registry r f w) = next_active w"
  "threads (upd_registry r f w) = threads w"
  "timer_state (upd_registry r f w) = timer_state w"
  "posix_state (upd_registry r f w) = posix_state w"
  "clock (upd_registry r f w) = clock w"
  "tick (upd_registry r f w) = tick w"
  "wakes (upd_registry r f w) = wakes w"
  "others (upd_registry r f w) = others w"
  "turn (upd_registry r f w) = turn w"
  "spawn_ok (upd_registry r f w) = spawn_ok w"
  "sys_frames (upd_registry r f w) = sys_frames w"
  "trace (upd_registry r f w) = trace w"
  "stderr_log (upd_registry r f w) = stderr_log w"
  by (simp_all add: upd_registry_def)

text \<open>The part of the state the invariant of loops and queues depends on.\<close>

definition core ::
    "world \<Rightarrow> (nat \<Rightarrow> registry) \<times> nat \<times> (int \<times> handle) list \<times> (nat \<Rightarrow> timespec) \<times> 64 word \<times> nat \<times> 64 word list" where
  "core w = (heap w, next_ref w, registries w, clock w, nextCallbackId w, made w, retired_ids (trace w))"

lemma core_eqD:
  "core v = core w \<Longrightarrow> heap v = heap w \<and> next_ref v = next_ref w \<and> registries v = registries w \<and>
   clock v = clock w \<and> nextCallbackId v = nextCallbackId w \<and> made v = made w \<and>
   retired_ids (trace v) = retired_ids (trace w)"
  by (simp add: core_def)

definition shape :: "world \<Rightarrow> (nat \<Rightarrow> int \<times> nat option \<times> nat list) \<times> nat \<times> (int \<times> handle) list" where
  "shape w = (\<lambda>r. (regId (heap w r), parent (heap w r), children (heap w r)), next_ref w, registries w)"

lemma shape_eqD:
  "shape v = shape w \<Longrightarrow>
   (\<forall>r. regId (heap v r) = regId (heap w r) \<and> parent (heap v r) = parent (heap w r) \<and>
        children (heap v r) = children (heap w r)) \<and>
   next_ref v = next_ref w \<and> registries v = registries w"
  by (simp add: shape_def fun_eq_iff)

lemma core_shape: "core v = core w \<Longrightarrow> shape v = shape w"
  by (simp add: core_def shape_def)

lemma shape_upd_registry:
  "(\<And>g. regId (f g) = regId g \<and> parent (f g) = parent g \<and> children (f g) = children g) \<Longrightarrow>
   shape (upd_registry r f w) = shape w"
  by (simp add: shape_def fun_eq_iff)

section \<open>The clock\<close>

text \<open>\<^verbatim>\<open>get_current_time\<close>: one more reading of \<^verbatim>\<open>CLOCK_MONOTONIC\<close>.\<close>

definition get_current_time :: "world \<Rightarrow> timespec \<times> world" where
  "get_current_time w = (clock w (tick w), w\<lparr>tick := Suc (tick w)\<rparr>)"

text \<open>\<^verbatim>\<open>Timestamp()\<close> is a reading, \<^verbatim>\<open>Timestamp(secs)\<close> a reading moved by \<open>secs\<close>.\<close>

definition timestamp_now :: "world \<Rightarrow> timespec \<times> world" where
  "timestamp_now w = get_current_time w"

definition timestamp_in :: "double \<Rightarrow> world \<Rightarrow> timespec res" where
  "timestamp_in secs w =
     (let (now, w1) = get_current_time w
      in case addSeconds now secs of
           None \<Rightarrow> (Inl (Undefined ''addSeconds''), w1)
         | Some t \<Rightarrow> (Inr t, w1))"

text \<open>What \<^verbatim>\<open>CLOCK_MONOTONIC\<close> guarantees: normal values that never go back.\<close>

definition monotonic_clock :: "(nat \<Rightarrow> timespec) \<Rightarrow> bool" where
  "monotonic_clock c \<longleftrightarrow> (\<forall>i. ts_normal (c i)) \<and> (\<forall>i j. i \<le> j \<longrightarrow> c i \<le> c j)"

lemma monotonic_clockD: "monotonic_clock c \<Longrightarrow> ts_normal (c i)" "monotonic_clock c \<Longrightarrow> i \<le> j \<Longrightarrow> c i \<le> c j"
  by (simp_all add: monotonic_clock_def)

text \<open>\<open>future\<close> of \<^verbatim>\<open>TimestampImplPosix\<close>.\<close>

definition timestamp_future :: "timespec \<Rightarrow> world \<Rightarrow> bool \<times> world" where
  "timestamp_future t w =
     (let (now, w1) = get_current_time w
      in (tv_sec t > tv_sec now \<or> (tv_sec t = tv_sec now \<and> tv_nsec t > tv_nsec now), w1))"

lemma timestamp_future_iff: "fst (timestamp_future t w) \<longleftrightarrow> clock w (tick w) < t"
  by (cases t; cases "clock w (tick w)") (auto simp: timestamp_future_def get_current_time_def)

end
