(* ===== verification/Registry.thy ===== *)
theory Registry
  imports State
begin

text \<open>
  \<^verbatim>\<open>callback_registry.cpp\<close>: creation of callbacks and the operations of \<^verbatim>\<open>CallbackRegistry\<close>
  except \<^verbatim>\<open>wait\<close> (theory Wait). Every operation holds the one global lock from start to
  end, so it is one function of the state. A reference is the object a method runs on.
\<close>

section \<open>Callback objects\<close>

text \<open>
  The constructors: the id comes from the global atomic counter, which wraps. The ghost
  \<open>made\<close> counts without wrapping; nothing reads it.
\<close>

definition make_callback :: "timespec \<Rightarrow> cbfun \<Rightarrow> world \<Rightarrow> callback \<times> world" where
  "make_callback t f w =
     (\<lparr>cbWhen = t, callbackId = nextCallbackId w, func = f\<rparr>,
      w\<lparr>nextCallbackId := nextCallbackId w + 1, made := Suc (made w)\<rparr>)"

fun callback_kind :: "cbfun \<Rightarrow> string" where
  "callback_kind (RFunction p) = ''R function''"
| "callback_kind _ = ''C/C++ function''"

text \<open>Both \<open>rRepresentation\<close> methods: the id as an R double, the seconds to go.\<close>

definition rRepresentation :: "callback \<Rightarrow> world \<Rightarrow> listing \<times> world" where
  "rRepresentation cb w =
     (let (now, w1) = timestamp_now w
      in ((dbl (of_nat (unat (callbackId cb))), diff_secs (cbWhen cb) now, callback_kind (func cb)), w1))"

section \<open>CallbackRegistry\<close>

definition new_registry :: "int \<Rightarrow> registry" where
  "new_registry i = \<lparr>regId = i, queue = [], fd_waits = 0, parent = None, children = []\<rparr>"

definition getId :: "world \<Rightarrow> nat \<Rightarrow> int" where
  "getId w r = regId (heap w r)"

definition cond_signal :: "world \<Rightarrow> world" where
  "cond_signal w = w\<lparr>cv_signals := Suc (cv_signals w)\<rparr>"

definition queue_insert :: "callback \<Rightarrow> registry \<Rightarrow> registry" where
  "queue_insert cb g = g\<lparr>queue := sset_insert callback_less cb (queue g)\<rparr>"

text \<open>Both \<open>add\<close> methods: they differ in what they store.\<close>

definition add :: "nat \<Rightarrow> cbfun \<Rightarrow> double \<Rightarrow> world \<Rightarrow> (64 word) res" where
  "add r f secs w =
     (case timestamp_in secs w of
        (Inl e, w1) \<Rightarrow> (Inl e, w1)
      | (Inr t, w1) \<Rightarrow>
          let (cb, w2) = make_callback t f w1
          in (Inr (callbackId cb), cond_signal (upd_registry r (queue_insert cb) w2)))"

fun cancel_in :: "64 word \<Rightarrow> callback list \<Rightarrow> bool \<times> callback list" where
  "cancel_in i [] = (False, [])"
| "cancel_in i (cb # q) =
     (if callbackId cb = i then (True, q)
      else let (found, q') = cancel_in i q in (found, cb # q'))"

definition note_cancel :: "bool \<Rightarrow> 64 word \<Rightarrow> world \<Rightarrow> world" where  \<comment> \<open>ghost\<close>
  "note_cancel found i w = (if found then w\<lparr>trace := trace w @ [EvCancel i]\<rparr> else w)"

lemma note_cancel_frame [simp]:
  "heap (note_cancel found i w) = heap w" "next_ref (note_cancel found i w) = next_ref w"
  "registries (note_cancel found i w) = registries w" "clock (note_cancel found i w) = clock w"
  "tick (note_cancel found i w) = tick w" "nextCallbackId (note_cancel found i w) = nextCallbackId w"
  "made (note_cancel found i w) = made w" "thread_args_store (note_cancel found i w) = thread_args_store w"
  "next_args (note_cancel found i w) = next_args w" "threads (note_cancel found i w) = threads w"
  by (simp_all add: note_cancel_def)

definition cancel :: "nat \<Rightarrow> 64 word \<Rightarrow> world \<Rightarrow> bool \<times> world" where
  "cancel r i w =
     (let (found, q) = cancel_in i (queue (heap w r))
      in (found, note_cancel found i (upd_registry r (\<lambda>g. g\<lparr>queue := q\<rparr>) w)))"

text \<open>
  \<open>nextTimestamp\<close> and \<open>due\<close> recurse into the children. The recursion is bounded by the
  number of registries ever created: children are created after their parents, so no
  descent is longer (lemmas \<open>nextTimestamp_fuel_enough\<close> and \<open>due_fuel_enough\<close>).
\<close>

fun min_timestamp :: "timespec option \<Rightarrow> timespec option \<Rightarrow> timespec option" where
  "min_timestamp m None = m"
| "min_timestamp None (Some c) = Some c"
| "min_timestamp (Some m) (Some c) = (if ts_less c m then Some c else Some m)"

definition own_next :: "registry \<Rightarrow> timespec option" where
  "own_next g = (case queue g of [] \<Rightarrow> None | cb # _ \<Rightarrow> Some (cbWhen cb))"

fun nextTimestamp_fuel :: "nat \<Rightarrow> world \<Rightarrow> bool \<Rightarrow> nat \<Rightarrow> timespec option" where
  "nextTimestamp_fuel 0 w recur r = None"
| "nextTimestamp_fuel (Suc n) w recur r =
     (if recur
      then fold (\<lambda>c m. min_timestamp m (nextTimestamp_fuel n w recur c)) (children (heap w r))
             (own_next (heap w r))
      else own_next (heap w r))"

definition nextTimestamp :: "world \<Rightarrow> bool \<Rightarrow> nat \<Rightarrow> timespec option" where
  "nextTimestamp w recur r = nextTimestamp_fuel (Suc (next_ref w)) w recur r"

definition empty :: "world \<Rightarrow> nat \<Rightarrow> bool" where
  "empty w r = (if fd_waits (heap w r) > 0 then False else queue (heap w r) = [])"

definition own_due :: "timespec \<Rightarrow> registry \<Rightarrow> bool" where
  "own_due t g = (case queue g of [] \<Rightarrow> False | cb # _ \<Rightarrow> \<not> ts_greater (cbWhen cb) t)"

fun due_fuel :: "nat \<Rightarrow> world \<Rightarrow> timespec \<Rightarrow> bool \<Rightarrow> nat \<Rightarrow> bool" where
  "due_fuel 0 w t recur r = False"
| "due_fuel (Suc n) w t recur r =
     (if own_due t (heap w r) then True
      else recur \<and> list_ex (due_fuel n w t True) (children (heap w r)))"

definition due :: "world \<Rightarrow> timespec \<Rightarrow> bool \<Rightarrow> nat \<Rightarrow> bool" where
  "due w t recur r = due_fuel (Suc (next_ref w)) w t recur r"

definition pop :: "nat \<Rightarrow> timespec \<Rightarrow> world \<Rightarrow> callback option \<times> world" where
  "pop r t w =
     (if due w t False r
      then (Some (hd (queue (heap w r))), upd_registry r (\<lambda>g. g\<lparr>queue := tl (queue g)\<rparr>) w)
      else (None, w))"

definition note_invoke :: "nat \<Rightarrow> callback \<Rightarrow> world \<Rightarrow> world" where  \<comment> \<open>ghost\<close>
  "note_invoke r cb w = w\<lparr>trace := trace w @ [EvInvoke (getId w r) (callbackId cb)]\<rparr>"

fun list_loop :: "callback list \<Rightarrow> world \<Rightarrow> listing list \<times> world" where
  "list_loop [] w = ([], w)"
| "list_loop (cb # cbs) w =
     (let (item, w1) = rRepresentation cb w; (items, w2) = list_loop cbs w1
      in (item # items, w2))"

definition list_queue :: "nat \<Rightarrow> world \<Rightarrow> listing list \<times> world" where
  "list_queue r w = list_loop (queue (heap w r)) w"

definition fd_waits_incr :: "nat \<Rightarrow> world \<Rightarrow> world" where
  "fd_waits_incr r = upd_registry r (\<lambda>g. g\<lparr>fd_waits := fd_waits g + 1\<rparr>)"

definition fd_waits_decr :: "nat \<Rightarrow> world \<Rightarrow> world" where
  "fd_waits_decr r = upd_registry r (\<lambda>g. g\<lparr>fd_waits := fd_waits g - 1\<rparr>)"

section \<open>The tree below a registry\<close>

definition heap_acyclic :: "world \<Rightarrow> bool" where
  "heap_acyclic w \<longleftrightarrow> (\<forall>r < next_ref w. \<forall>c \<in> set (children (heap w r)). r < c \<and> c < next_ref w)"

inductive subtree :: "world \<Rightarrow> nat \<Rightarrow> nat \<Rightarrow> bool" for w where
  self: "subtree w r r"
| child: "c \<in> set (children (heap w r)) \<Longrightarrow> subtree w c s \<Longrightarrow> subtree w r s"

inductive_cases subtreeE: "subtree w r s"

text \<open>The times of everything scheduled in a registry and below it.\<close>

definition pending_times :: "world \<Rightarrow> nat \<Rightarrow> timespec set" where
  "pending_times w r = {cbWhen cb | cb s. subtree w r s \<and> cb \<in> set (queue (heap w s))}"

text \<open>A queue is in order and its times are normal, as the clock's are.\<close>

definition queue_ok :: "callback list \<Rightarrow> bool" where
  "queue_ok q \<longleftrightarrow> sset_ok callback_less q \<and> (\<forall>cb \<in> set q. ts_normal (cbWhen cb))"

definition queues_ok :: "world \<Rightarrow> bool" where
  "queues_ok w \<longleftrightarrow> monotonic_clock (clock w) \<and> (\<forall>r. queue_ok (queue (heap w r)))"

lemma queue_ok_erase: "queue_ok q \<Longrightarrow> queue_ok (erase_first P q)"
  using set_erase_first_subset[of P q] by (auto simp: queue_ok_def cb.erase_ok)

lemma queue_ok_insert: "queue_ok q \<Longrightarrow> ts_normal (cbWhen cb) \<Longrightarrow> queue_ok (sset_insert callback_less cb q)"
  using cb.set_insert_subset[of cb q] by (auto simp: queue_ok_def cb.insert_ok)

lemma queue_ok_Cons: "queue_ok (cb # q) \<Longrightarrow> queue_ok q"
  by (simp add: queue_ok_def cb.ok_Cons)

lemma queue_ok_Nil [simp]: "queue_ok []"
  by (simp add: queue_ok_def sset_ok_def)

lemma heap_acyclicD:
  "heap_acyclic w \<Longrightarrow> r < next_ref w \<Longrightarrow> c \<in> set (children (heap w r)) \<Longrightarrow> r < c \<and> c < next_ref w"
  unfolding heap_acyclic_def by blast

lemma subtree_ge: "subtree w r s \<Longrightarrow> heap_acyclic w \<Longrightarrow> r < next_ref w \<Longrightarrow> r \<le> s \<and> s < next_ref w"
proof (induction rule: subtree.induct)
  case (child c r s)
  from heap_acyclicD[OF child.prems child.hyps(1)] child.IH[OF child.prems(1)] show ?case by auto
qed simp

lemma subtree_unfold: "subtree w r s \<longleftrightarrow> s = r \<or> (\<exists>c \<in> set (children (heap w r)). subtree w c s)"
  by (blast intro: subtree.intros elim: subtreeE)

lemma pending_times_unfold:
  "pending_times w r =
     cbWhen ` set (queue (heap w r)) \<union> (\<Union>c \<in> set (children (heap w r)). pending_times w c)"
  (is "?L = ?R")
proof
  show "?L \<subseteq> ?R" by (auto simp: pending_times_def elim: subtreeE)
  show "?R \<subseteq> ?L" by (auto simp: pending_times_def intro: subtree.intros)
qed

text \<open>They read the heap only.\<close>

lemma subtree_heap_imp:
  assumes "subtree v r s" and "heap v = heap w"
  shows "subtree w r s"
  using assms(1)
proof (induction rule: subtree.induct)
  case (self r)
  show ?case by (rule subtree.self)
next
  case (child c r s)
  from child.hyps(1) have "c \<in> set (children (heap w r))" by (simp only: assms(2))
  then show ?case using child.IH by (rule subtree.child)
qed

lemma subtree_heap:
  assumes "heap v = heap w"
  shows "subtree v r s = subtree w r s"
  using subtree_heap_imp[OF _ assms] subtree_heap_imp[OF _ assms[symmetric]] by (rule iffI)

lemma pending_times_heap:
  assumes "heap v = heap w"
  shows "pending_times v r = pending_times w r"
  unfolding pending_times_def subtree_heap[OF assms] assms by (rule refl)

lemma nextTimestamp_heap:
  assumes "heap v = heap w" and "next_ref v = next_ref w"
  shows "nextTimestamp v recur r = nextTimestamp w recur r"
proof -
  have "nextTimestamp_fuel n v recur r = nextTimestamp_fuel n w recur r" for n
    by (induction n arbitrary: r recur) (simp_all add: assms)
  then show ?thesis by (simp add: nextTimestamp_def assms(2))
qed

text \<open>Fuel: the descent from \<open>r\<close> meets only larger references.\<close>

lemma nextTimestamp_fuel_enough:
  assumes "heap_acyclic w" and "r < next_ref w"
    and "next_ref w - r \<le> n" and "next_ref w - r \<le> m"
  shows "nextTimestamp_fuel n w recur r = nextTimestamp_fuel m w recur r"
  using assms(2-)
proof (induction n arbitrary: r m)
  case 0
  then show ?case by simp
next
  case (Suc n)
  then obtain m' where m: "m = Suc m'" by (cases m) auto
  have "nextTimestamp_fuel n w recur c = nextTimestamp_fuel m' w recur c"
    if "c \<in> set (children (heap w r))" for c
    using heap_acyclicD[OF assms(1) Suc.prems(1) that] Suc.prems m by (intro Suc.IH) auto
  then show ?case unfolding m nextTimestamp_fuel.simps
    by (cases recur) (auto intro!: fold_cong)
qed

lemma due_fuel_enough:
  assumes "heap_acyclic w" and "r < next_ref w"
    and "next_ref w - r \<le> n" and "next_ref w - r \<le> m"
  shows "due_fuel n w t recur r = due_fuel m w t recur r"
  using assms(2-)
proof (induction n arbitrary: r m recur)
  case 0
  then show ?case by simp
next
  case (Suc n)
  then obtain m' where m: "m = Suc m'" by (cases m) auto
  have "due_fuel n w t True c = due_fuel m' w t True c"
    if "c \<in> set (children (heap w r))" for c
    using heap_acyclicD[OF assms(1) Suc.prems(1) that] Suc.prems m by (intro Suc.IH) auto
  then show ?case by (simp add: m list_ex_iff)
qed

text \<open>The recursion equations of the sources.\<close>

lemma nextTimestamp_unfold:
  assumes "heap_acyclic w" and "r < next_ref w"
  shows "nextTimestamp w recur r =
    (if recur then fold (\<lambda>c m. min_timestamp m (nextTimestamp w recur c)) (children (heap w r))
       (own_next (heap w r)) else own_next (heap w r))"
proof -
  have "nextTimestamp_fuel (next_ref w) w recur c = nextTimestamp w recur c"
    if "c \<in> set (children (heap w r))" for c
    unfolding nextTimestamp_def
    using heap_acyclicD[OF assms that] by (intro nextTimestamp_fuel_enough[OF assms(1)]) auto
  then show ?thesis unfolding nextTimestamp_def[of w recur r] nextTimestamp_fuel.simps
    by (cases recur) (auto intro!: fold_cong)
qed

lemma due_unfold:
  assumes "heap_acyclic w" and "r < next_ref w"
  shows "due w t recur r =
    (own_due t (heap w r) \<or> recur \<and> list_ex (due w t True) (children (heap w r)))"
proof -
  have "due_fuel (next_ref w) w t True c = due w t True c"
    if "c \<in> set (children (heap w r))" for c
    unfolding due_def
    using heap_acyclicD[OF assms that] by (intro due_fuel_enough[OF assms(1)]) auto
  then show ?thesis by (auto simp: due_def[of w t recur r] list_ex_iff)
qed

lemma due_False [simp]: "due w t False r = own_due t (heap w r)"
  by (simp add: due_def)

section \<open>What the queries answer\<close>

lemma own_due_iff:
  "sset_ok callback_less (queue g) \<Longrightarrow> own_due t g \<longleftrightarrow> (\<exists>cb \<in> set (queue g). cbWhen cb \<le> t)"
  by (cases "queue g") (auto simp: own_due_def not_less dest: queue_head_when intro: order_trans)

lemma own_next_iff:
  "sset_ok callback_less (queue g) \<Longrightarrow>
   own_next g = (if queue g = [] then None else Some (Min (cbWhen ` set (queue g))))"
  by (cases "queue g") (auto simp: own_next_def intro!: Min_eqI[symmetric] dest: queue_head_when)

lemma queues_okD: "queues_ok w \<Longrightarrow> sset_ok callback_less (queue (heap w r))"
  by (simp add: queues_ok_def queue_ok_def)

lemma queues_ok_normal: "queues_ok w \<Longrightarrow> cb \<in> set (queue (heap w r)) \<Longrightarrow> ts_normal (cbWhen cb)"
  by (simp add: queues_ok_def queue_ok_def)

lemma queues_ok_clock: "queues_ok w \<Longrightarrow> monotonic_clock (clock w)"
  by (simp add: queues_ok_def)

lemma due_pending:
  assumes "heap_acyclic w" and "queues_ok w" and "r < next_ref w"
  shows "due w t True r \<longleftrightarrow> (\<exists>x \<in> pending_times w r. x \<le> t)"
  using assms(3)
proof (induction "next_ref w - r" arbitrary: r rule: less_induct)
  case less
  have IH: "due w t True c \<longleftrightarrow> (\<exists>x \<in> pending_times w c. x \<le> t)"
    if "c \<in> set (children (heap w r))" for c
    using heap_acyclicD[OF assms(1) less.prems that] by (intro less.hyps) auto
  show ?case
    unfolding due_unfold[OF assms(1) less.prems] pending_times_unfold[of w r]
      own_due_iff[OF queues_okD[OF assms(2)]]
    by (auto simp: list_ex_iff IH)
qed

text \<open>A time is the least of a set, or there is none.\<close>

definition least_of :: "timespec option \<Rightarrow> timespec set \<Rightarrow> bool" where
  "least_of m A \<longleftrightarrow> (case m of None \<Rightarrow> A = {} | Some t \<Rightarrow> t \<in> A \<and> (\<forall>x \<in> A. t \<le> x))"

lemma least_of_min: "least_of m A \<Longrightarrow> least_of c B \<Longrightarrow> least_of (min_timestamp m c) (A \<union> B)"
  by (cases "(m, c)" rule: min_timestamp.cases) (force simp: least_of_def)+

lemma least_of_fold:
  assumes "\<forall>c \<in> set cs. least_of (f c) (B c)" and "least_of m A"
  shows "least_of (fold (\<lambda>c m. min_timestamp m (f c)) cs m) (A \<union> (\<Union>c \<in> set cs. B c))"
  using assms
proof (induction cs arbitrary: m A)
  case (Cons c cs)
  have "least_of (min_timestamp m (f c)) (A \<union> B c)" using Cons.prems by (simp add: least_of_min)
  from Cons.IH[OF _ this] Cons.prems(1) show ?case by (simp add: Un_assoc)
qed simp

lemma least_of_own:
  "sset_ok callback_less (queue g) \<Longrightarrow> least_of (own_next g) (cbWhen ` set (queue g))"
  by (cases "queue g") (auto simp: least_of_def own_next_def dest: queue_head_when)

lemma nextTimestamp_least:
  assumes "heap_acyclic w" and "queues_ok w" and "r < next_ref w"
  shows "least_of (nextTimestamp w True r) (pending_times w r)"
  using assms(3)
proof (induction "next_ref w - r" arbitrary: r rule: less_induct)
  case less
  have "least_of (nextTimestamp w True c) (pending_times w c)"
    if "c \<in> set (children (heap w r))" for c
    using heap_acyclicD[OF assms(1) less.prems that] by (intro less.hyps) auto
  then show ?case
    unfolding nextTimestamp_unfold[OF assms(1) less.prems] pending_times_unfold[of w r]
    using least_of_own[OF queues_okD[OF assms(2)]] by (simp add: least_of_fold)
qed

lemma least_of_due: "least_of m A \<Longrightarrow> (\<exists>x \<in> A. x \<le> t) \<longleftrightarrow> (\<exists>u. m = Some u \<and> u \<le> t)"
  by (cases m) (auto simp: least_of_def intro: order_trans)

text \<open>The two queries agree: something is due exactly when the next time is not in the future.\<close>

lemma due_nextTimestamp:
  assumes "heap_acyclic w" and "queues_ok w" and "r < next_ref w"
  shows "due w t True r \<longleftrightarrow> (\<exists>u. nextTimestamp w True r = Some u \<and> u \<le> t)"
  using due_pending[OF assms] least_of_due[OF nextTimestamp_least[OF assms]] by simp

section \<open>What the updates do\<close>

lemma cancel_in_eq:
  "cancel_in i q = (\<exists>cb \<in> set q. callbackId cb = i, erase_first (\<lambda>cb. callbackId cb = i) q)"
  by (induction q) (auto simp: Let_def)

lemma make_callback_simps [simp]:
  "fst (make_callback t f w) = \<lparr>cbWhen = t, callbackId = nextCallbackId w, func = f\<rparr>"
  "snd (make_callback t f w) = w\<lparr>nextCallbackId := nextCallbackId w + 1, made := Suc (made w)\<rparr>"
  by (simp_all add: make_callback_def)

lemma timestamp_in_cases:
  obtains e where "timestamp_in secs w = (Inl e, w\<lparr>tick := Suc (tick w)\<rparr>)"
      and "addSeconds (clock w (tick w)) secs = None" and "\<not> runs_destructors e"
    | t where "timestamp_in secs w = (Inr t, w\<lparr>tick := Suc (tick w)\<rparr>)"
      and "addSeconds (clock w (tick w)) secs = Some t"
  by (cases "addSeconds (clock w (tick w)) secs")
     (auto simp: timestamp_in_def get_current_time_def)

lemma add_Inr:
  assumes "addSeconds (clock w (tick w)) secs = Some t"
  shows "add r f secs w =
    (Inr (nextCallbackId w),
     cond_signal (upd_registry r (queue_insert \<lparr>cbWhen = t, callbackId = nextCallbackId w, func = f\<rparr>)
       (w\<lparr>tick := Suc (tick w), nextCallbackId := nextCallbackId w + 1, made := Suc (made w)\<rparr>)))"
  using assms by (simp add: add_def timestamp_in_def get_current_time_def make_callback_def)

lemma add_Inl:
  assumes "addSeconds (clock w (tick w)) secs = None"
  shows "add r f secs w = (Inl (Undefined ''addSeconds''), w\<lparr>tick := Suc (tick w)\<rparr>)"
  using assms by (simp add: add_def timestamp_in_def get_current_time_def)

lemma pop_cases:
  obtains "pop r t w = (None, w)" and "\<not> own_due t (heap w r)"
    | cb q where "queue (heap w r) = cb # q" and "cbWhen cb \<le> t"
      and "pop r t w = (Some cb, upd_registry r (\<lambda>g. g\<lparr>queue := q\<rparr>) w)"
proof (cases "own_due t (heap w r)")
  case False
  then show thesis by (intro that(1)) (simp_all add: pop_def)
next
  case True
  then obtain cb q where q: "queue (heap w r) = cb # q" "cbWhen cb \<le> t"
    by (auto simp: own_due_def not_less split: list.splits)
  show thesis
  proof (rule that(2)[OF q])
    show "pop r t w = (Some cb, upd_registry r (\<lambda>g. g\<lparr>queue := q\<rparr>) w)"
      using True q by (simp add: pop_def upd_registry_def)
  qed
qed

end
