(* ===== verification/Tickets.thy ===== *)
theory Tickets
  imports Registry
begin

text \<open>
  The ids of callbacks are tickets: until the 64-bit counter of \<^verbatim>\<open>callback_registry.cpp\<close> has
  gone through all its values, each id given out belongs to exactly one callback, which either
  waits in exactly one queue or has left it once, taken to be called or cancelled. The ghost
  count of ids and the ghost record of events say this.
\<close>

section \<open>Ids in a queue\<close>

definition ids_below :: "64 word \<Rightarrow> callback list \<Rightarrow> bool" where
  "ids_below n q \<longleftrightarrow> distinct (map callbackId q) \<and> (\<forall>cb \<in> set q. callbackId cb < n)"

definition ids_ok :: "world \<Rightarrow> bool" where
  "ids_ok w \<longleftrightarrow> (\<forall>r. ids_below (nextCallbackId w) (queue (heap w r)))"

text \<open>The counter starts at \<open>1\<close> and has not wrapped while fewer than \<open>2 ^ 64 - 1\<close> ids are out.\<close>

definition nth_id :: "nat \<Rightarrow> 64 word" where
  "nth_id n = of_nat (Suc n)"

definition no_wrap_yet :: "nat \<Rightarrow> bool" where
  "no_wrap_yet n \<longleftrightarrow> Suc n < 2 ^ 64"

lemma nth_id_0 [simp]: "nth_id 0 = 1"
  by (simp add: nth_id_def)

lemma nth_id_Suc [simp]: "nth_id (Suc n) = nth_id n + 1"
  by (simp add: nth_id_def add.commute)

lemma no_wrap_yet_Suc: "no_wrap_yet (Suc n) \<Longrightarrow> no_wrap_yet n"
  by (simp add: no_wrap_yet_def)

lemma unat_nth_id: "no_wrap_yet n \<Longrightarrow> unat (nth_id n) = Suc n"
  unfolding nth_id_def no_wrap_yet_def by (simp only: unat_of_nat) simp

lemma no_wrap_yet_less: "no_wrap_yet n \<Longrightarrow> k \<le> n \<Longrightarrow> no_wrap_yet k"
  by (simp add: no_wrap_yet_def)

lemma nth_id_less: "no_wrap_yet n \<Longrightarrow> k < n \<Longrightarrow> nth_id k < nth_id n"
  using no_wrap_yet_less[of n k] by (simp add: word_less_nat_alt unat_nth_id)

lemma callback_ids_insert:
  assumes "distinct (map callbackId q)" and "\<forall>c \<in> set q. callbackId c < callbackId cb"
  shows "set (sset_insert callback_less cb q) = insert cb (set q)"
    and "distinct (map callbackId (sset_insert callback_less cb q))"
    and "erase_first (\<lambda>c. callbackId c = callbackId cb) (sset_insert callback_less cb q) = q"
proof -
  have ne: "callbackId c \<noteq> callbackId cb" if "c \<in> set q" for c using assms(2) that by fastforce
  then have sep: "\<forall>c \<in> set q. callback_less cb c \<or> callback_less c cb"
    using callback_less_total by metis
  show "set (sset_insert callback_less cb q) = insert cb (set q)"
    by (rule cb.insert_new(1)[OF sep])
  show "distinct (map callbackId (sset_insert callback_less cb q))" using assms(1) ne sep
  proof (induction q)
    case (Cons c q)
    then have "set (sset_insert callback_less cb q) \<subseteq> insert cb (set q)" using cb.set_insert_subset by blast
    then show ?case using Cons by fastforce
  qed simp
  show "erase_first (\<lambda>c. callbackId c = callbackId cb) (sset_insert callback_less cb q) = q" using ne sep
    by (induction q) auto
qed

lemma ids_ok_queues:
  assumes "ids_ok w" and "\<And>r. queue (heap v r) = queue (heap w r) \<or> queue (heap v r) = []"
    and "nextCallbackId v = nextCallbackId w"
  shows "ids_ok v"
  unfolding ids_ok_def
proof
  fix r
  show "ids_below (nextCallbackId v) (queue (heap v r))"
    using assms(2)[of r] assms(1,3) by (auto simp: ids_ok_def ids_below_def)
qed

section \<open>Conservation\<close>

text \<open>
  The ids in each queue \<open>q r\<close>, the ids \<open>ret\<close> that have left, the objects and ids there are: every
  id is in exactly one place. Ids move in two ways: a new one into a queue, one out of a queue.
\<close>

definition conserved :: "(nat \<Rightarrow> 64 word list) \<Rightarrow> 64 word list \<Rightarrow> nat \<Rightarrow> nat \<Rightarrow> bool" where
  "conserved q ret refs n \<longleftrightarrow>
     (\<forall>r. distinct (q r)) \<and> (\<forall>r s. r \<noteq> s \<longrightarrow> set (q r) \<inter> set (q s) = {}) \<and>
     distinct ret \<and> (\<forall>r. set (q r) \<inter> set ret = {}) \<and>
     (\<Union>r. set (q r)) \<union> set ret = nth_id ` {..<n} \<and> (\<forall>r \<ge> refs. q r = [])"

lemma conservedD:
  assumes "conserved q ret refs n"
  shows "distinct (q r)" and "r \<noteq> s \<Longrightarrow> set (q r) \<inter> set (q s) = {}" and "distinct ret" and "set (q r) \<inter> set ret = {}"
    and "(\<Union>r. set (q r)) \<union> set ret = nth_id ` {..<n}" and "refs \<le> r \<Longrightarrow> q r = []"
proof -
  note c = assms[unfolded conserved_def]
  show "distinct (q r)" "distinct ret" "set (q r) \<inter> set ret = {}"
    "(\<Union>r. set (q r)) \<union> set ret = nth_id ` {..<n}"
    using c by (elim conjE; simp only: simp_thms)+
  show "r \<noteq> s \<Longrightarrow> set (q r) \<inter> set (q s) = {}" "refs \<le> r \<Longrightarrow> q r = []"
    using c by (elim conjE; simp only: simp_thms)+
qed

lemma conserved_known:
  assumes "conserved q ret refs n" and "i \<in> set (q r) \<or> i \<in> set ret"
  shows "\<exists>k < n. i = nth_id k"
proof -
  have "i \<in> (\<Union>r. set (q r)) \<union> set ret" using assms(2) by auto
  then show ?thesis unfolding conservedD(5)[OF assms(1)] by auto
qed

lemma conserved_out:
  assumes "conserved q ret refs n" and "i \<in> set (q r)" and "distinct xs" and "set xs = set (q r) - {i}"
  shows "conserved (q(r := xs)) (ret @ [i]) refs n"
proof -
  note d = conservedD[OF assms(1)]
  have i: "i \<notin> set ret" "s \<noteq> r \<Longrightarrow> i \<notin> set (q s)" for s using d(2)[of r s] d(4)[of r] assms(2) by blast+
  have "(\<Union>s. set ((q(r := xs)) s)) \<union> set (ret @ [i]) = (\<Union>s. set (q s)) \<union> set ret"
    using assms(2,4) by (auto split: if_splits)
  moreover have "(q(r := xs)) s = []" if "refs \<le> s" for s using d(6)[OF that] assms(2) by (auto simp: fun_upd_def)
  moreover have "set ((q(r := xs)) s) \<inter> set (ret @ [i]) = {}" for s using i d(4)[of s] d(4)[of r] assms(4) by auto
  moreover have "set ((q(r := xs)) s) \<inter> set ((q(r := xs)) t) = {}" if "s \<noteq> t" for s t
    using d(2)[OF that] assms(4) by auto
  ultimately show ?thesis unfolding conserved_def using d(1,3,5) i(1) assms(3) by simp
qed

lemma conserved_in:
  assumes "conserved q ret refs n" and "no_wrap_yet n" and "r < refs" and "distinct xs"
    and "set xs = insert (nth_id n) (set (q r))"
  shows "conserved (q(r := xs)) ret refs (Suc n)"
proof -
  note d = conservedD[OF assms(1)]
  have new: "nth_id n \<notin> set (q s)" "nth_id n \<notin> set ret" for s
    using conserved_known[OF assms(1), of "nth_id n"] nth_id_less[OF assms(2)] by (metis less_irrefl)+
  have "(\<Union>s. set ((q(r := xs)) s)) = insert (nth_id n) (\<Union>s. set (q s))"
    using assms(5) by (auto split: if_splits)
  then have "(\<Union>s. set ((q(r := xs)) s)) \<union> set ret = nth_id ` {..<Suc n}"
    using d(5) by (simp add: lessThan_Suc)
  moreover have "(q(r := xs)) s = []" if "refs \<le> s" for s using d(6)[OF that] assms(3) that by simp
  moreover have "set ((q(r := xs)) s) \<inter> set ret = {}" for s using new(2) d(4)[of s] assms(5) by auto
  moreover have "set ((q(r := xs)) s) \<inter> set ((q(r := xs)) t) = {}" if "s \<noteq> t" for s t
    using d(2)[OF that] new(1)[of s] new(1)[of t] assms(5) that by auto
  ultimately show ?thesis unfolding conserved_def using d(1,3) assms(4) by simp
qed

text \<open>If each has left once, a cancelled one has not been called.\<close>

lemma in_retired_ids:
  "EvCancel i \<in> set es \<Longrightarrow> i \<in> set (retired_ids es)" "EvInvoke l i \<in> set es \<Longrightarrow> i \<in> set (retired_ids es)"
  by (induction es rule: retired_ids.induct) auto

lemma retired_once:
  assumes "distinct (retired_ids es)" and "EvCancel i \<in> set es"
  shows "EvInvoke l i \<notin> set es"
  using assms by (induction es rule: retired_ids.induct) (auto dest: in_retired_ids)

section \<open>Of the process\<close>

definition ids_counted :: "world \<Rightarrow> bool" where
  "ids_counted w \<longleftrightarrow>
     nextCallbackId w = nth_id (made w) \<and>
     (no_wrap_yet (made w) \<longrightarrow>
        conserved (\<lambda>r. map callbackId (queue (heap w r))) (retired_ids (trace w)) (next_ref w) (made w))"

lemma ids_countedD:
  assumes "ids_counted w"
  shows "nextCallbackId w = nth_id (made w)"
    and "no_wrap_yet (made w) \<Longrightarrow>
      conserved (\<lambda>r. map callbackId (queue (heap w r))) (retired_ids (trace w)) (next_ref w) (made w)"
  using assms by (simp_all add: ids_counted_def)

lemma ids_counted_ok:
  assumes "ids_counted w" and "no_wrap_yet (made w)"
  shows "ids_ok w"
  unfolding ids_ok_def ids_below_def
proof (intro allI conjI ballI)
  note c = ids_countedD(2)[OF assms]
  show "distinct (map callbackId (queue (heap w r)))" for r using conservedD(1)[OF c] .
  show "callbackId cb < nextCallbackId w" if "cb \<in> set (queue (heap w r))" for r cb
    using conserved_known[OF c, of "callbackId cb" r] that nth_id_less[OF assms(2)] ids_countedD(1)[OF assms(1)] by auto
qed

lemma ids_counted_core: "core v = core w \<Longrightarrow> ids_counted v = ids_counted w"
  by (drule core_eqD) (simp add: ids_counted_def)

text \<open>What does not touch the queues; a new object starts with an empty one.\<close>

lemma ids_counted_queues:
  assumes "ids_counted w" and "\<And>r. queue (heap v r) = queue (heap w r) \<or> (next_ref w \<le> r \<and> queue (heap v r) = [])"
    and "nextCallbackId v = nextCallbackId w" and "made v = made w" and "trace v = trace w" and "next_ref w \<le> next_ref v"
  shows "ids_counted v"
  unfolding ids_counted_def assms(3-5)
proof (intro conjI impI)
  show "nextCallbackId w = nth_id (made w)" using ids_countedD(1)[OF assms(1)] .
  assume "no_wrap_yet (made w)"
  note c = ids_countedD(2)[OF assms(1) this]
  have q: "queue (heap v r) = queue (heap w r)" for r using assms(2)[of r] conservedD(6)[OF c, of r] by auto
  show "conserved (\<lambda>r. map callbackId (queue (heap v r))) (retired_ids (trace w)) (next_ref v) (made w)"
    using c assms(6) unfolding q conserved_def by simp
qed

lemma ids_counted_upd:
  "ids_counted w \<Longrightarrow> queue (f (heap w r)) = queue (heap w r) \<Longrightarrow> ids_counted (upd_registry r f w)"
  by (rule ids_counted_queues[of w]) auto

lemma ids_counted_add:
  assumes "ids_counted w" and "r < next_ref w"
  shows "ids_counted (upd_registry r (queue_insert \<lparr>cbWhen = t, callbackId = nextCallbackId w, func = f\<rparr>)
    (w\<lparr>tick := n, nextCallbackId := nextCallbackId w + 1, made := Suc (made w)\<rparr>))" (is "ids_counted ?v")
  unfolding ids_counted_def
proof (intro conjI impI)
  let ?cb = "\<lparr>cbWhen = t, callbackId = nextCallbackId w, func = f\<rparr>"
  let ?q = "\<lambda>w r. map callbackId (queue (heap w r))"
  have n: "nextCallbackId w = nth_id (made w)" using ids_countedD(1)[OF assms(1)] .
  then show "nextCallbackId ?v = nth_id (made ?v)" by simp
  assume "no_wrap_yet (made ?v)"
  then have small: "no_wrap_yet (made w)" using no_wrap_yet_Suc by simp
  note c = ids_countedD(2)[OF assms(1) small] and ids = ids_counted_ok[OF assms(1) small]
  note ins = callback_ids_insert[of "queue (heap w r)" ?cb]
  have "conserved ((?q w)(r := map callbackId (sset_insert callback_less ?cb (queue (heap w r)))))
      (retired_ids (trace w)) (next_ref w) (Suc (made w))"
    using conserved_in[OF c small assms(2)] ins(1,2) ids n by (simp add: ids_ok_def ids_below_def)
  moreover have "?q ?v = (?q w)(r := map callbackId (sset_insert callback_less ?cb (queue (heap w r))))"
    by (simp add: fun_eq_iff queue_insert_def)
  ultimately show "conserved (?q ?v) (retired_ids (trace ?v)) (next_ref ?v) (made ?v)" by simp
qed

lemma ids_counted_out:
  assumes "ids_counted w" and "cb \<in> set (queue (heap w r))"
    and "q = erase_first (\<lambda>c. callbackId c = callbackId cb) (queue (heap w r))"
    and "e = EvCancel (callbackId cb) \<or> e = EvInvoke l (callbackId cb)"
  shows "ids_counted ((upd_registry r (\<lambda>g. g\<lparr>queue := q\<rparr>) w)\<lparr>trace := trace w @ [e]\<rparr>)" (is "ids_counted ?v")
  unfolding ids_counted_def
proof (intro conjI impI)
  let ?q = "\<lambda>w r. map callbackId (queue (heap w r))"
  show "nextCallbackId ?v = nth_id (made ?v)" using ids_countedD(1)[OF assms(1)] by simp
  assume "no_wrap_yet (made ?v)"
  then have small: "no_wrap_yet (made w)" by simp
  note c = ids_countedD(2)[OF assms(1) small]
  note d = conservedD(1)[OF c, of r]
  have q: "q = filter (\<lambda>c. callbackId c \<noteq> callbackId cb) (queue (heap w r))"
    unfolding assms(3) by (rule erase_first_unique[OF d])
  have "conserved ((?q w)(r := map callbackId q)) (retired_ids (trace w) @ [callbackId cb]) (next_ref w) (made w)"
  proof (rule conserved_out[OF c])
    show "distinct (map callbackId q)" unfolding q by (rule distinct_map_filter[OF d])
    show "set (map callbackId q) = set (?q w r) - {callbackId cb}" unfolding q by auto
  qed (use assms(2) in auto)
  moreover have "?q ?v = (?q w)(r := map callbackId q)" by (simp add: fun_eq_iff)
  ultimately show "conserved (?q ?v) (retired_ids (trace ?v)) (next_ref ?v) (made ?v)"
    using assms(4) by auto
qed

section \<open>History\<close>

text \<open>
  What can have happened to the queues between two moments: what is in a queue was there before
  or is new, the counter has been counted up for each new one, and what had left has left. This
  holds of every operation, whatever order they run in.
\<close>

type_synonym ticket_view = "(nat \<Rightarrow> callback list) \<times> 64 word \<times> nat \<times> 64 word list"

definition ticket_view :: "world \<Rightarrow> ticket_view" where
  "ticket_view w = (\<lambda>r. queue (heap w r), nextCallbackId w, made w, retired_ids (trace w))"

fun moved_on :: "ticket_view \<Rightarrow> ticket_view \<Rightarrow> bool" where
  "moved_on (q', n', k', ret') (q, n, k, ret) \<longleftrightarrow>
     (\<exists>m. k' = k + m \<and> n' = n + of_nat m \<and>
        (\<forall>r. \<forall>cb \<in> set (q' r). cb \<in> set (q r) \<or> (\<exists>j < m. callbackId cb = n + of_nat j))) \<and>
     (\<exists>is. ret' = ret @ is)"

lemma moved_on_refl [simp]: "moved_on v v"
  by (cases v) auto

lemma moved_on_trans:
  assumes "moved_on v w" and "moved_on u v"
  shows "moved_on u w"
proof -
  obtain q n k ret where w: "w = (q, n, k, ret)" by (cases w)
  obtain q1 n1 k1 ret1 where v: "v = (q1, n1, k1, ret1)" by (cases v)
  obtain q2 n2 k2 ret2 where u: "u = (q2, n2, k2, ret2)" by (cases u)
  obtain m1 is1 where m1: "k1 = k + m1" "n1 = n + of_nat m1" "ret1 = ret @ is1"
    "\<And>r cb. cb \<in> set (q1 r) \<Longrightarrow> cb \<in> set (q r) \<or> (\<exists>j < m1. callbackId cb = n + of_nat j)"
    using assms(1) unfolding w v moved_on.simps by blast
  obtain m2 is2 where m2: "k2 = k1 + m2" "n2 = n1 + of_nat m2" "ret2 = ret1 @ is2"
    "\<And>r cb. cb \<in> set (q2 r) \<Longrightarrow> cb \<in> set (q1 r) \<or> (\<exists>j < m2. callbackId cb = n1 + of_nat j)"
    using assms(2) unfolding u v moved_on.simps by blast
  have "cb \<in> set (q r) \<or> (\<exists>j < m1 + m2. callbackId cb = n + of_nat j)" if "cb \<in> set (q2 r)" for r cb
    using m2(4)[OF that]
  proof (elim disjE exE conjE)
    assume "cb \<in> set (q1 r)"
    from m1(4)[OF this] show ?thesis by (meson trans_less_add1)
  next
    fix j assume "j < m2" "callbackId cb = n1 + of_nat j"
    then have "m1 + j < m1 + m2 \<and> callbackId cb = n + of_nat (m1 + j)" using m1(2) by simp
    then show ?thesis by blast
  qed
  then show ?thesis unfolding u w moved_on.simps using m1(1-3) m2(1-3)
    by (intro conjI exI[of _ "m1 + m2"] exI[of _ "is1 @ is2"]) simp_all
qed

lemma moved_on_subset:
  assumes "\<And>r. set (queue (heap v r)) \<subseteq> set (queue (heap w r))" and "nextCallbackId v = nextCallbackId w"
    and "made v = made w" and "retired_ids (trace v) = retired_ids (trace w) @ xs"
  shows "moved_on (ticket_view v) (ticket_view w)"
  unfolding ticket_view_def moved_on.simps
  using assms by (intro conjI exI[of _ 0] exI[of _ xs]) auto

lemma ticket_view_simps [simp]:
  "ticket_view (w\<lparr>tick := a\<rparr>) = ticket_view w" "ticket_view (w\<lparr>lock_depth := b\<rparr>) = ticket_view w"
  "ticket_view (w\<lparr>cv_signals := c\<rparr>) = ticket_view w" "ticket_view (w\<lparr>current_registry := d\<rparr>) = ticket_view w"
  "ticket_view (w\<lparr>exec_callbacks_reentrancy_count := e\<rparr>) = ticket_view w"
  "ticket_view (w\<lparr>initialized := f\<rparr>) = ticket_view w" "ticket_view (w\<lparr>thread_args_store := g\<rparr>) = ticket_view w"
  "ticket_view (w\<lparr>next_args := h\<rparr>) = ticket_view w" "ticket_view (w\<lparr>actives := i\<rparr>) = ticket_view w"
  "ticket_view (w\<lparr>next_active := j\<rparr>) = ticket_view w" "ticket_view (w\<lparr>threads := k\<rparr>) = ticket_view w"
  "ticket_view (w\<lparr>timer_state := l\<rparr>) = ticket_view w" "ticket_view (w\<lparr>posix_state := m\<rparr>) = ticket_view w"
  "ticket_view (w\<lparr>wakes := n\<rparr>) = ticket_view w" "ticket_view (w\<lparr>turn := o'\<rparr>) = ticket_view w"
  "ticket_view (w\<lparr>stderr_log := p\<rparr>) = ticket_view w" "ticket_view (w\<lparr>registries := q\<rparr>) = ticket_view w"
  "ticket_view (w\<lparr>next_ref := s\<rparr>) = ticket_view w" "ticket_view (w\<lparr>sys_frames := t\<rparr>) = ticket_view w"
  by (simp_all add: ticket_view_def)

lemma ticket_view_upd [simp]:
  "queue (f (heap w r)) = queue (heap w r) \<Longrightarrow> ticket_view (upd_registry r f w) = ticket_view w"
  by (auto simp: ticket_view_def)

lemma ticket_view_core: "core v = core w \<Longrightarrow> ticket_view v = ticket_view w"
  by (drule core_eqD) (simp add: ticket_view_def)

lemma moved_on_add:
  "moved_on (ticket_view (cond_signal (upd_registry r (queue_insert \<lparr>cbWhen = t, callbackId = nextCallbackId w, func = f\<rparr>)
     (w\<lparr>tick := n, nextCallbackId := nextCallbackId w + 1, made := Suc (made w)\<rparr>)))) (ticket_view w)"
  unfolding cond_signal_def ticket_view_simps ticket_view_def moved_on.simps
  using cb.set_insert_subset[of "\<lparr>cbWhen = t, callbackId = nextCallbackId w, func = f\<rparr>" "queue (heap w r)"]
  by (intro conjI exI[of _ 1] exI[of _ "[]"]) (auto simp: queue_insert_def)

lemma moved_on_cancel: "moved_on (ticket_view (snd (cancel r i w))) (ticket_view w)"
proof -
  have "set (queue (heap (snd (cancel r i w)) s)) \<subseteq> set (queue (heap w s))" for s
    using set_erase_first_subset[of "\<lambda>cb. callbackId cb = i" "queue (heap w r)"]
    by (simp add: cancel_def case_prod_unfold Let_def cancel_in_eq)
  moreover have "retired_ids (trace (snd (cancel r i w))) =
      retired_ids (trace w) @ (if fst (cancel_in i (queue (heap w r))) then [i] else [])"
    by (simp add: cancel_def note_cancel_def case_prod_unfold Let_def)
  ultimately show ?thesis by (intro moved_on_subset) (simp_all add: cancel_def case_prod_unfold Let_def)
qed

text \<open>What has not left still waits where it was.\<close>

lemma still_waits:
  assumes "ids_counted w" and "ids_counted v" and "no_wrap_yet (made v)" and "moved_on (ticket_view v) (ticket_view w)"
    and "cb \<in> set (queue (heap w r))" and "callbackId cb \<notin> set (retired_ids (trace v))"
  shows "cb \<in> set (queue (heap v r))"
proof -
  obtain m where m: "made v = made w + m" "nextCallbackId v = nextCallbackId w + of_nat m"
    and old: "\<And>s c. c \<in> set (queue (heap v s)) \<Longrightarrow>
      c \<in> set (queue (heap w s)) \<or> (\<exists>j < m. callbackId c = nextCallbackId w + of_nat j)"
    using assms(4) by (auto simp: ticket_view_def)
  have "no_wrap_yet (made w)" using no_wrap_yet_less[OF assms(3), of "made w"] m(1) by simp
  note cw = ids_countedD(2)[OF assms(1) this] and cv = ids_countedD(2)[OF assms(2,3)]
  obtain k where k: "k < made w" "callbackId cb = nth_id k"
    using conserved_known[OF cw, of "callbackId cb" r] assms(5) by auto
  have "callbackId cb \<in> (\<Union>s. set (map callbackId (queue (heap v s)))) \<union> set (retired_ids (trace v))"
    unfolding conservedD(5)[OF cv] using k m(1) by auto
  then obtain s c where c: "c \<in> set (queue (heap v s))" "callbackId c = callbackId cb" using assms(6) by auto
  have "nth_id k \<noteq> nextCallbackId w + of_nat j" if "j < m" for j
  proof -
    have "nextCallbackId w + of_nat j = nth_id (made w + j)"
      using ids_countedD(1)[OF assms(1)] by (simp add: nth_id_def)
    moreover have "nth_id k < nth_id (made w + j)"
      using nth_id_less[OF no_wrap_yet_less[OF assms(3), of "made w + j"], of k] k(1) m(1) that by simp
    ultimately show ?thesis by simp
  qed
  with old[OF c(1)] c(2) k(2) have cs: "c \<in> set (queue (heap w s))" by force
  have "s = r" using conservedD(2)[OF cw, of s r] cs c(2) assms(5) by force
  moreover from this have "c = cb"
    using conservedD(1)[OF cw, of r] cs c(2) assms(5) by (auto simp: distinct_map dest: inj_onD)
  ultimately show ?thesis using c(1) by simp
qed

end
