(* ===== verification/Timer.thy ===== *)
theory Timer
  imports Tickets
begin

text \<open>
  \<^verbatim>\<open>timer_posix.cpp\<close> and the pipe of \<^verbatim>\<open>later_posix.cpp\<close>: how a scheduled callback gets R to
  call the input handler. \<open>set\<close> stores the wake time; the timer's thread waits for it and
  then makes the pipe readable. The thread is a state machine; one step is one stretch
  during which it holds the timer's mutex.
\<close>

section \<open>The pipe\<close>

definition upd_posix :: "(posix \<Rightarrow> posix) \<Rightarrow> world \<Rightarrow> world" where
  "upd_posix f w = w\<lparr>posix_state := f (posix_state w)\<rparr>"

definition upd_timer :: "(timer \<Rightarrow> timer) \<Rightarrow> world \<Rightarrow> world" where
  "upd_timer f w = w\<lparr>timer_state := f (timer_state w)\<rparr>"

text \<open>
  \<open>set_fd\<close>: a write of one byte (without effect when the pipe is closed), or a read of up
  to \<open>BUF_SIZE\<close> bytes (with a warning when it fails).
\<close>

definition BUF_SIZE :: nat where
  "BUF_SIZE = 256"

definition pipe_write :: "posix \<Rightarrow> posix" where
  "pipe_write p = (if pipe_in p < 0 then p else p\<lparr>pipe_bytes := Suc (pipe_bytes p)\<rparr>)"

definition pipe_read :: "posix \<Rightarrow> posix" where
  "pipe_read p = p\<lparr>pipe_bytes := pipe_bytes p - BUF_SIZE\<rparr>"

definition set_fd :: "bool \<Rightarrow> world \<Rightarrow> world" where
  "set_fd ready w =
     (let p = posix_state w
      in if ready \<noteq> hot p
         then if ready
              then w\<lparr>posix_state := (pipe_write p)\<lparr>hot := True\<rparr>\<rparr>
              else if pipe_out p < 0
              then w\<lparr>posix_state := p\<lparr>hot := False\<rparr>,
                     stderr_log := stderr_log w @ [''Failed to read out of pipe for later2 package'']\<rparr>
              else w\<lparr>posix_state := (pipe_read p)\<lparr>hot := False\<rparr>\<rparr>
         else w)"

definition fd_on :: "world \<Rightarrow> world" where
  "fd_on w = set_fd True w"

section \<open>The timer\<close>

definition initial_timer :: timer where
  "initial_timer = \<lparr>bgthread = None, wakeAt = None, stopped = False\<rparr>"

definition timer_set :: "timespec \<Rightarrow> world \<Rightarrow> world" where
  "timer_set t w =
     upd_timer (\<lambda>m. m\<lparr>bgthread := (case bgthread m of None \<Rightarrow> Some TLoop | Some pc \<Rightarrow> Some pc),
                      wakeAt := Some t\<rparr>) w"

text \<open>The destructor: stop the thread, if there is one.\<close>

definition timer_destroy :: "world \<Rightarrow> world" where
  "timer_destroy w =
     upd_timer (\<lambda>m. if bgthread m = None then m else m\<lparr>stopped := True\<rparr>) w"

definition timer_fire :: "world \<Rightarrow> world" where
  "timer_fire w = fd_on (upd_timer (\<lambda>m. m\<lparr>wakeAt := None, bgthread := Some TLoop\<rparr>) w)"

text \<open>
  One step of \<open>bg_main\<close>. At the head of the loop it blocks while there is nothing to wait
  for; \<open>signalled\<close> is what \<^verbatim>\<open>timedwait\<close> returned.
\<close>

definition timer_step :: "bool \<Rightarrow> world \<Rightarrow> world" where
  "timer_step signalled w =
     (let m = timer_state w
      in case bgthread m of
           Some TLoop \<Rightarrow>
             (if stopped m then upd_timer (\<lambda>m. m\<lparr>bgthread := Some TExit\<rparr>) w
              else case wakeAt m of
                     None \<Rightarrow> w
                   | Some t \<Rightarrow>
                       (let (now, w1) = timestamp_now w
                        in if diff_secs t now > 0
                           then upd_timer (\<lambda>m. m\<lparr>bgthread := Some TTimedwait\<rparr>) w1
                           else timer_fire w1))
         | Some TTimedwait \<Rightarrow>
             (if stopped m then upd_timer (\<lambda>m. m\<lparr>bgthread := Some TExit\<rparr>) w
              else if signalled then upd_timer (\<lambda>m. m\<lparr>bgthread := Some TLoop\<rparr>) w
              else timer_fire w)
         | _ \<Rightarrow> w)"

section \<open>Facts\<close>

text \<open>What these operations cannot touch.\<close>

lemma upd_frames [simp]:
  "heap (upd_posix f w) = heap w" "heap (upd_timer g w) = heap w"
  "next_ref (upd_posix f w) = next_ref w" "next_ref (upd_timer g w) = next_ref w"
  "registries (upd_posix f w) = registries w" "registries (upd_timer g w) = registries w"
  "timer_state (upd_posix f w) = timer_state w" "posix_state (upd_timer g w) = posix_state w"
  "timer_state (upd_timer g w) = g (timer_state w)" "posix_state (upd_posix f w) = f (posix_state w)"
  "current_registry (upd_timer g w) = current_registry w" "current_registry (upd_posix f w) = current_registry w"
  "lock_depth (upd_timer g w) = lock_depth w" "lock_depth (upd_posix f w) = lock_depth w"
  "exec_callbacks_reentrancy_count (upd_timer g w) = exec_callbacks_reentrancy_count w"
  "exec_callbacks_reentrancy_count (upd_posix f w) = exec_callbacks_reentrancy_count w"
  "clock (upd_timer g w) = clock w" "clock (upd_posix f w) = clock w"
  "tick (upd_timer g w) = tick w" "tick (upd_posix f w) = tick w"
  "trace (upd_timer g w) = trace w" "trace (upd_posix f w) = trace w"
  "nextCallbackId (upd_timer g w) = nextCallbackId w" "nextCallbackId (upd_posix f w) = nextCallbackId w"
  "made (upd_timer g w) = made w" "made (upd_posix f w) = made w"
  by (simp_all add: upd_posix_def upd_timer_def)

lemma set_fd_core [frame_simps]: "core (set_fd b w) = core w"
  by (simp add: set_fd_def core_def Let_def)

lemma timer_set_core [frame_simps]: "core (timer_set t w) = core w"
  by (simp add: timer_set_def core_def)

lemma timer_step_core [frame_simps]: "core (timer_step b w) = core w"
proof -
  have fire: "core (timer_fire v) = core v" for v
    by (simp add: timer_fire_def fd_on_def set_fd_core) (simp add: core_def)
  show ?thesis
    by (auto simp: timer_step_def Let_def timestamp_now_def get_current_time_def fire
        split: option.splits timer_pc.splits) (simp_all add: core_def)
qed

text \<open>The pipe holds a byte exactly while the flag says so, as long as it is open.\<close>

definition pipe_ok :: "posix \<Rightarrow> bool" where
  "pipe_ok p \<longleftrightarrow> 0 \<le> pipe_in p \<and> 0 \<le> pipe_out p \<longrightarrow> pipe_bytes p = (if hot p then 1 else 0)"

lemma set_fd_posix:
  assumes "0 \<le> pipe_in (posix_state w)" "0 \<le> pipe_out (posix_state w)" "pipe_ok (posix_state w)"
  shows "posix_state (set_fd b w) = (posix_state w)\<lparr>hot := b, pipe_bytes := if b then 1 else 0\<rparr>"
    and "stderr_log (set_fd b w) = stderr_log w"
  using assms by (auto simp: set_fd_def pipe_ok_def pipe_write_def pipe_read_def BUF_SIZE_def Let_def)

lemma timer_set_wakeAt [simp]: "wakeAt (timer_state (timer_set t w)) = Some t"
  by (simp add: timer_set_def)

end
