(* ===== verification/Table.thy ===== *)
theory Table
  imports Timer
begin

text \<open>
  \<^verbatim>\<open>callback_registry_table.h\<close>: the table from loop ids to registries, the tree the
  registries form, and \<open>doExecLater\<close> of \<^verbatim>\<open>later_posix.cpp\<close>, which the table calls. The
  invariant \<open>forest_ok\<close> says that the parent pointers and the child lists of the registries
  in the table describe one forest.
\<close>

section \<open>Scheduling into a registry\<close>

text \<open>
  Both \<open>doExecLater\<close> functions. Dereferencing an empty \<^verbatim>\<open>Optional<Timestamp>\<close> would give the
  default timestamp, the current time.
\<close>

definition deref_timestamp :: "timespec option \<Rightarrow> world \<Rightarrow> timespec \<times> world" where
  "deref_timestamp m w = (case m of Some t \<Rightarrow> (t, w) | None \<Rightarrow> timestamp_now w)"

definition doExecLater :: "nat \<Rightarrow> cbfun \<Rightarrow> double \<Rightarrow> bool \<Rightarrow> world \<Rightarrow> (64 word) res" where
  "doExecLater r f delaySecs resetTimer w =
     (case add r f delaySecs w of
        (Inl e, w1) \<Rightarrow> (Inl e, w1)
      | (Inr i, w1) \<Rightarrow>
          if resetTimer
          then let (t, w2) = deref_timestamp (nextTimestamp w1 True r) w1 in (Inr i, timer_set t w2)
          else (Inr i, w1))"

section \<open>CallbackRegistryTable\<close>

definition exists_loop :: "int \<Rightarrow> world \<Rightarrow> bool" where
  "exists_loop i w \<longleftrightarrow> smap_find (registries w) i \<noteq> None"

definition getRegistry :: "world \<Rightarrow> int \<Rightarrow> nat option" where
  "getRegistry w i = (if exists_loop i w then map_option h_registry (smap_find (registries w) i) else None)"

text \<open>The new object is made before the parent is looked up.\<close>

definition new_object :: "int \<Rightarrow> world \<Rightarrow> nat \<times> world" where
  "new_object i w =
     (next_ref w, w\<lparr>heap := (heap w)(next_ref w := new_registry i), next_ref := Suc (next_ref w)\<rparr>)"

definition table_put :: "int \<Rightarrow> handle \<Rightarrow> world \<Rightarrow> world" where
  "table_put i h w = w\<lparr>registries := smap_put i h (registries w)\<rparr>"

definition create :: "int \<Rightarrow> int \<Rightarrow> world \<Rightarrow> unit res" where
  "create i parent_id w =
     (if exists_loop i w
      then (Inl (UnwindException ''Can't create event loop because it already exists.''), w)
      else let (r, w1) = new_object i w
           in if parent_id \<noteq> -1
              then case getRegistry w1 parent_id of
                     None \<Rightarrow>
                       (Inl (UnwindException ''Can't create registry. Parent does not exist.''), w1)
                   | Some p \<Rightarrow>
                       (Inr (), table_put i \<lparr>h_registry = r, r_ref_exists = True\<rparr>
                          (upd_registry p (\<lambda>g. g\<lparr>children := children g @ [r]\<rparr>)
                            (upd_registry r (\<lambda>g. g\<lparr>parent := Some p\<rparr>) w1)))
              else (Inr (), table_put i \<lparr>h_registry = r, r_ref_exists = True\<rparr> w1))"

definition scheduleCallback :: "cbfun \<Rightarrow> double \<Rightarrow> int \<Rightarrow> world \<Rightarrow> (64 word) res" where
  "scheduleCallback f delaySecs loop_id w =
     (case getRegistry w loop_id of
        None \<Rightarrow> (Inr 0, w)
      | Some r \<Rightarrow> doExecLater r f delaySecs True w)"

definition orphan :: "nat \<Rightarrow> world \<Rightarrow> world" where  \<comment> \<open>\<^verbatim>\<open>parent.reset()\<close>\<close>
  "orphan c = upd_registry c (\<lambda>g. g\<lparr>parent := None\<rparr>)"

definition remove :: "int \<Rightarrow> world \<Rightarrow> bool \<times> world" where
  "remove i w =
     (case getRegistry w i of
        None \<Rightarrow> (False, w)
      | Some r \<Rightarrow>
          let w1 = (case parent (heap w r) of
                      None \<Rightarrow> w
                    | Some p \<Rightarrow>
                        upd_registry p (\<lambda>g. g\<lparr>children := erase_first (\<lambda>c. c = r) (children g)\<rparr>) w);
              w2 = fold orphan (children (heap w1 r)) w1
          in (True, w2\<lparr>registries := smap_erase i (registries w2)\<rparr>))"

text \<open>
  \<open>pruneRegistries\<close> walks the map in key order, moving on before it erases, so it visits
  the keys that were there at the start.
\<close>

definition prunable :: "handle \<Rightarrow> world \<Rightarrow> bool" where
  "prunable h w \<longleftrightarrow>
     \<not> r_ref_exists h \<and> (empty w (h_registry h) \<or> parent (heap w (h_registry h)) = None)"

definition prune_step :: "int \<Rightarrow> world \<Rightarrow> world" where
  "prune_step i w =
     (case smap_find (registries w) i of
        None \<Rightarrow> w
      | Some h \<Rightarrow> if prunable h w then snd (remove i w) else w)"

definition pruneRegistries :: "world \<Rightarrow> world" where
  "pruneRegistries w = fold prune_step (map fst (registries w)) w"

definition notifyRRefDeleted :: "int \<Rightarrow> world \<Rightarrow> bool \<times> world" where
  "notifyRRefDeleted i w =
     (case smap_find (registries w) i of
        None \<Rightarrow> (False, w)
      | Some h \<Rightarrow>
          if r_ref_exists h
          then (True, pruneRegistries (table_put i (h\<lparr>r_ref_exists := False\<rparr>) w))
          else (False, w))"

section \<open>The forest\<close>

definition live :: "world \<Rightarrow> nat \<Rightarrow> bool" where
  "live w r \<longleftrightarrow> (\<exists>i. getRegistry w i = Some r)"

definition forest_ok :: "world \<Rightarrow> bool" where
  "forest_ok w \<longleftrightarrow>
     smap_ok (registries w) \<and>
     (\<forall>i r. getRegistry w i = Some r \<longrightarrow> r < next_ref w \<and> regId (heap w r) = i) \<and>
     heap_acyclic w \<and>
     (\<forall>r. distinct (children (heap w r))) \<and>
     (\<forall>c p. live w c \<and> parent (heap w c) = Some p \<longrightarrow> live w p \<and> c \<in> set (children (heap w p))) \<and>
     (\<forall>p c. live w p \<and> c \<in> set (children (heap w p)) \<longrightarrow> live w c \<and> parent (heap w c) = Some p)"

definition world_ok :: "world \<Rightarrow> bool" where
  "world_ok w \<longleftrightarrow> forest_ok w \<and> queues_ok w \<and> ids_counted w"

lemma getRegistry_eq: "getRegistry w i = map_option h_registry (smap_find (registries w) i)"
  by (simp add: getRegistry_def exists_loop_def)

lemma exists_loop_iff: "exists_loop i w \<longleftrightarrow> (\<exists>r. getRegistry w i = Some r)"
  by (auto simp: getRegistry_eq exists_loop_def)

text \<open>The invariant in the form the proofs use: introduction and one fact per clause.\<close>

lemma forest_okI:
  assumes "smap_ok (registries w)"
    and "\<And>i r. getRegistry w i = Some r \<Longrightarrow> r < next_ref w"
    and "\<And>i r. getRegistry w i = Some r \<Longrightarrow> regId (heap w r) = i"
    and "\<And>r c. r < next_ref w \<Longrightarrow> c \<in> set (children (heap w r)) \<Longrightarrow> r < c \<and> c < next_ref w"
    and "\<And>r. distinct (children (heap w r))"
    and "\<And>c p. live w c \<Longrightarrow> parent (heap w c) = Some p \<Longrightarrow> live w p \<and> c \<in> set (children (heap w p))"
    and "\<And>p c. live w p \<Longrightarrow> c \<in> set (children (heap w p)) \<Longrightarrow> live w c \<and> parent (heap w c) = Some p"
  shows "forest_ok w"
  unfolding forest_ok_def heap_acyclic_def
proof (intro conjI)
  show "\<forall>c p. live w c \<and> parent (heap w c) = Some p \<longrightarrow> live w p \<and> c \<in> set (children (heap w p))"
    by (intro allI impI, elim conjE, rule assms(6))
  show "\<forall>p c. live w p \<and> c \<in> set (children (heap w p)) \<longrightarrow> live w c \<and> parent (heap w c) = Some p"
    by (intro allI impI, elim conjE, rule assms(7))
  show "\<forall>i r. getRegistry w i = Some r \<longrightarrow> r < next_ref w \<and> regId (heap w r) = i"
    using assms(2,3) by simp
  show "\<forall>r<next_ref w. \<forall>c \<in> set (children (heap w r)). r < c \<and> c < next_ref w"
    using assms(4) by blast
qed (use assms(1,5) in simp_all)

lemma forest_okD:
  assumes "forest_ok w"
  shows "smap_ok (registries w)"
    and "\<And>i r. getRegistry w i = Some r \<Longrightarrow> r < next_ref w"
    and "\<And>i r. getRegistry w i = Some r \<Longrightarrow> regId (heap w r) = i"
    and "heap_acyclic w"
    and "\<And>r. distinct (children (heap w r))"
    and "\<And>c p. live w c \<Longrightarrow> parent (heap w c) = Some p \<Longrightarrow> live w p"
    and "\<And>c p. live w c \<Longrightarrow> parent (heap w c) = Some p \<Longrightarrow> c \<in> set (children (heap w p))"
    and "\<And>p c. live w p \<Longrightarrow> c \<in> set (children (heap w p)) \<Longrightarrow> live w c"
    and "\<And>p c. live w p \<Longrightarrow> c \<in> set (children (heap w p)) \<Longrightarrow> parent (heap w c) = Some p"
    and "\<And>r. live w r \<Longrightarrow> r < next_ref w"
proof -
  note f = assms [unfolded forest_ok_def]
  have a: "\<forall>i r. getRegistry w i = Some r \<longrightarrow> r < next_ref w \<and> regId (heap w r) = i"
    using f by (elim conjE)
  have b: "\<forall>c p. live w c \<and> parent (heap w c) = Some p \<longrightarrow> live w p \<and> c \<in> set (children (heap w p))"
    using f by (elim conjE)
  have c: "\<forall>p c. live w p \<and> c \<in> set (children (heap w p)) \<longrightarrow> live w c \<and> parent (heap w c) = Some p"
    using f by (elim conjE)
  show "smap_ok (registries w)" "heap_acyclic w" "\<And>r. distinct (children (heap w r))"
    using f by blast+
  show "\<And>i r. getRegistry w i = Some r \<Longrightarrow> r < next_ref w"
    and "\<And>i r. getRegistry w i = Some r \<Longrightarrow> regId (heap w r) = i"
    and "\<And>r. live w r \<Longrightarrow> r < next_ref w"
    using a by (auto simp: live_def)
  show "live w p" "c \<in> set (children (heap w p))" if "live w c" "parent (heap w c) = Some p" for c p
    using b [rule_format, OF conjI [OF that]] by (rule conjunct1, rule conjunct2)
  show "live w c" "parent (heap w c) = Some p" if "live w p" "c \<in> set (children (heap w p))" for p c
    using c [rule_format, OF conjI [OF that]] by (rule conjunct1, rule conjunct2)
qed

lemma live_regId: "forest_ok w \<Longrightarrow> live w r \<Longrightarrow> getRegistry w (regId (heap w r)) = Some r"
  using forest_okD(3)[of w] unfolding live_def by blast

text \<open>The forest depends on the shape of the heap only.\<close>

lemma getRegistry_shape: "shape v = shape w \<Longrightarrow> getRegistry v = getRegistry w"
  by (drule shape_eqD) (simp add: getRegistry_eq fun_eq_iff)

lemma live_shape: "shape v = shape w \<Longrightarrow> live v = live w"
  by (drule getRegistry_shape) (simp add: live_def fun_eq_iff)

lemma forest_ok_shape:
  assumes "shape v = shape w"
  shows "forest_ok v = forest_ok w"
proof -
  have e: "regId (heap v r) = regId (heap w r)" "parent (heap v r) = parent (heap w r)"
    "children (heap v r) = children (heap w r)" "next_ref v = next_ref w" "registries v = registries w" for r
    using shape_eqD[OF assms] by blast+
  show ?thesis
    unfolding forest_ok_def heap_acyclic_def getRegistry_shape[OF assms] live_shape[OF assms] e
    by (rule refl)
qed

lemma queues_ok_core: "core v = core w \<Longrightarrow> queues_ok v = queues_ok w"
  by (drule core_eqD) (simp add: queues_ok_def)

lemma world_ok_core: "core v = core w \<Longrightarrow> world_ok v = world_ok w"
  unfolding world_ok_def using forest_ok_shape[OF core_shape, of v w] queues_ok_core[of v w] ids_counted_core[of v w] by blast

section \<open>Operations on one registry keep the invariant\<close>

lemma world_ok_upd:
  assumes "world_ok w"
    and "\<And>g. regId (f g) = regId g \<and> parent (f g) = parent g \<and> children (f g) = children g \<and> queue (f g) = queue g"
  shows "world_ok (upd_registry r f w)"
proof -
  have "forest_ok (upd_registry r f w)"
    using assms(1) forest_ok_shape[OF shape_upd_registry[of f]] assms(2) by (simp add: world_ok_def)
  moreover have "queues_ok (upd_registry r f w)"
    using assms by (auto simp: world_ok_def queues_ok_def)
  ultimately show ?thesis using assms by (simp add: world_ok_def ids_counted_upd)
qed

text \<open>A change of one queue, with what goes along with it.\<close>

lemma world_ok_queue:
  assumes "world_ok w" and "heap v = (heap w)(r := (heap w r)\<lparr>queue := q\<rparr>)" and "next_ref v = next_ref w"
    and "registries v = registries w" and "clock v = clock w" and "queue_ok q" and "ids_counted v"
  shows "world_ok v"
proof -
  have "shape v = shape w" using assms(2-4) by (simp add: shape_def fun_eq_iff)
  then show ?thesis using assms forest_ok_shape[of v w] by (auto simp: world_ok_def queues_ok_def)
qed

lemma tick_core: "core (w\<lparr>tick := n\<rparr>) = core w" "core (w\<lparr>cv_signals := m\<rparr>) = core w"
  by (simp_all add: core_def)

lemma world_ok_cond_signal: "world_ok (cond_signal w) = world_ok w"
  by (rule world_ok_core) (simp add: cond_signal_def core_def)

lemma fd_waits_world_ok [wf_intros]:
  "world_ok w \<Longrightarrow> world_ok (fd_waits_incr r w)" "world_ok w \<Longrightarrow> world_ok (fd_waits_decr r w)"
  unfolding fd_waits_incr_def fd_waits_decr_def by (simp_all add: world_ok_upd)

lemma timer_set_world_ok: "world_ok (timer_set t w) = world_ok w"
  by (rule world_ok_core) (rule timer_set_core)

lemma deref_timestamp_core: "core (snd (deref_timestamp m w)) = core w"
  by (auto simp: deref_timestamp_def timestamp_now_def get_current_time_def core_def split: option.splits)

section \<open>create\<close>

lemma exists_table: "exists_loop i (table_put j h w) \<longleftrightarrow> i = j \<or> exists_loop i w" if "smap_ok (registries w)"
  by (simp add: exists_loop_def table_put_def smap.lookup_put[OF that])

lemma getRegistry_table_put:
  "smap_ok (registries w) \<Longrightarrow>
   getRegistry (table_put j h w) i = (if i = j then Some (h_registry h) else getRegistry w i)"
  by (simp add: getRegistry_eq table_put_def smap.lookup_put)

lemma table_put_frame [simp]:
  "heap (table_put i h w) = heap w" "next_ref (table_put i h w) = next_ref w"
  "registries (table_put i h w) = smap_put i h (registries w)" "clock (table_put i h w) = clock w"
  "nextCallbackId (table_put i h w) = nextCallbackId w" "made (table_put i h w) = made w"
  "trace (table_put i h w) = trace w"
  by (simp_all add: table_put_def)

lemma getRegistry_upd [simp]: "getRegistry (upd_registry r f w) = getRegistry w"
  by (simp add: getRegistry_eq fun_eq_iff)

lemma new_object_simps [simp]:
  "fst (new_object i w) = next_ref w"
  "heap (snd (new_object i w)) = (heap w)(next_ref w := new_registry i)"
  "next_ref (snd (new_object i w)) = Suc (next_ref w)"
  "registries (snd (new_object i w)) = registries w" "clock (snd (new_object i w)) = clock w"
  by (simp_all add: new_object_def)

lemma getRegistry_new_object [simp]: "getRegistry (snd (new_object i w)) = getRegistry w"
  by (simp add: getRegistry_eq fun_eq_iff)

lemma new_registry_simps [simp]:
  "regId (new_registry i) = i" "queue (new_registry i) = []" "fd_waits (new_registry i) = 0"
  "parent (new_registry i) = None" "children (new_registry i) = []"
  by (simp_all add: new_registry_def)

text \<open>A loop linked below \<open>p\<close>, or standing alone.\<close>

definition link :: "nat option \<Rightarrow> nat \<Rightarrow> world \<Rightarrow> world" where
  "link p r w =
     (case p of
        None \<Rightarrow> w
      | Some p \<Rightarrow> upd_registry p (\<lambda>g. g\<lparr>children := children g @ [r]\<rparr>)
                    (upd_registry r (\<lambda>g. g\<lparr>parent := Some p\<rparr>) w))"

lemma create_cases:
  obtains "exists_loop i w" "create i pid w = (Inl (UnwindException ''Can't create event loop because it already exists.''), w)"
    | "\<not> exists_loop i w" "pid \<noteq> -1" "getRegistry w pid = None"
      "create i pid w = (Inl (UnwindException ''Can't create registry. Parent does not exist.''), snd (new_object i w))"
    | po where "\<not> exists_loop i w" "(pid = -1 \<and> po = None) \<or> (pid \<noteq> -1 \<and> po \<noteq> None \<and> getRegistry w pid = po)"
      "create i pid w = (Inr (), table_put i \<lparr>h_registry = next_ref w, r_ref_exists = True\<rparr>
          (link po (next_ref w) (snd (new_object i w))))"
proof (cases "exists_loop i w")
  case True
  then show thesis by (rule that(1)) (simp add: create_def True)
next
  case False
  show thesis
  proof (cases "pid = -1")
    case True
    with False show thesis
      by (intro that(3)[of None]) (auto simp: create_def link_def case_prod_unfold)
  next
    case p: False
    show thesis
    proof (cases "getRegistry w pid")
      case None
      with False p show thesis by (intro that(2)) (auto simp: create_def case_prod_unfold)
    next
      case (Some q)
      with False p show thesis
        by (intro that(3)[of "Some q"]) (auto simp: create_def link_def case_prod_unfold)
    qed
  qed
qed

lemma new_object_world_ok:
  assumes "world_ok w"
  shows "world_ok (snd (new_object i w))" (is "world_ok ?v")
proof -
  have f: "forest_ok w" and q: "queues_ok w" using assms by (simp_all add: world_ok_def)
  note d = forest_okD[OF f]
  have live: "live ?v = live w" by (simp add: live_def fun_eq_iff)
  have old: "heap ?v r = heap w r" if "live w r" for r using d(10)[OF that] by simp
  have "forest_ok ?v"
  proof (rule forest_okI)
    show "r < next_ref ?v" "regId (heap ?v r) = j" if "getRegistry ?v j = Some r" for j r
      using that d(2)[of j r] d(3)[of j r] by auto
    show "r < c \<and> c < next_ref ?v" if "r < next_ref ?v" "c \<in> set (children (heap ?v r))" for r c
      using that heap_acyclicD[OF d(4), of r c] by (auto split: if_splits)
    show "live ?v p \<and> c \<in> set (children (heap ?v p))" if "live ?v c" "parent (heap ?v c) = Some p" for c p
      using that unfolding live by (metis d(6,7) old)
    show "live ?v c \<and> parent (heap ?v c) = Some p" if "live ?v p" "c \<in> set (children (heap ?v p))" for p c
      using that unfolding live by (metis d(8,9) old)
  qed (use d(1,5) in auto)
  moreover have "queues_ok ?v" using q by (auto simp: queues_ok_def)
  moreover have "ids_counted ?v"
  proof (rule ids_counted_queues)
    show "ids_counted w" using assms by (simp add: world_ok_def)
    show "nextCallbackId ?v = nextCallbackId w" "made ?v = made w" "trace ?v = trace w" "next_ref w \<le> next_ref ?v"
      by (simp_all add: new_object_def)
  qed (simp add: new_object_def new_registry_def)
  ultimately show ?thesis by (simp add: world_ok_def)
qed

lemma link_world_ok:
  assumes ok: "world_ok w" and new: "r < next_ref w" "\<not> live w r" "children (heap w r) = []"
      "parent (heap w r) = None" "\<not> exists_loop (regId (heap w r)) w"
    and p: "\<And>p. po = Some p \<Longrightarrow> live w p \<and> p < r" and fresh: "\<And>s. s < next_ref w \<Longrightarrow> r \<notin> set (children (heap w s))"
    and i: "i = regId (heap w r)"
  shows "world_ok (table_put i \<lparr>h_registry = r, r_ref_exists = b\<rparr> (link po r w))" (is "world_ok ?v")
proof -
  have f: "forest_ok w" and q: "queues_ok w" using ok by (simp_all add: world_ok_def)
  note d = forest_okD[OF f]
  have regs: "registries (link po r w) = registries w" "next_ref (link po r w) = next_ref w"
      "clock (link po r w) = clock w"
    by (simp_all add: link_def split: option.split)
  have get: "getRegistry ?v j = (if j = i then Some r else getRegistry w j)" for j
    using d(1) regs by (subst getRegistry_table_put) (auto simp: getRegistry_eq)
  have live: "live ?v s \<longleftrightarrow> s = r \<or> live w s" for s
    using new(5) i unfolding live_def get exists_loop_iff by auto (metis option.distinct(1))
  have ch: "children (heap (link po r w) s) = (if po = Some s then children (heap w s) @ [r] else children (heap w s))"
    and pa: "parent (heap (link po r w) s) = (if s = r then po else parent (heap w s))"
    and id: "regId (heap (link po r w) s) = regId (heap w s)" and qu: "queue (heap (link po r w) s) = queue (heap w s)" for s
    using new(4) by (auto simp: link_def split: option.split)
  have "forest_ok ?v"
  proof (rule forest_okI)
    show "smap_ok (registries ?v)" using d(1) regs by (simp add: smap.ok_put)
    show "s < next_ref ?v" "regId (heap ?v s) = j" if "getRegistry ?v j = Some s" for j s
    proof -
      from that have "getRegistry w j = Some s \<or> j = i \<and> s = r" by (auto simp only: get split: if_splits)
      then show "s < next_ref ?v" "regId (heap ?v s) = j"
        using d(2)[of j s] d(3)[of j s] new(1) i by (auto simp: id regs)
    qed
    show "s < c \<and> c < next_ref ?v" if "s < next_ref ?v" "c \<in> set (children (heap ?v s))" for s c
      using that heap_acyclicD[OF d(4), of s c] new(1) p by (auto simp: ch regs split: if_splits)
    show "distinct (children (heap ?v s))" for s
      using d(5) fresh[of s] p[of s] new(1) by (auto simp: ch)
    show "live ?v p \<and> c \<in> set (children (heap ?v p))" if "live ?v c" "parent (heap ?v c) = Some p" for c p
    proof (cases "c = r")
      case True
      with that(2) have q: "po = Some p" by (simp add: pa)
      have "r \<in> set (children (heap (link po r w) p))" unfolding ch by (simp add: q)
      then show ?thesis using p[OF q] True by (simp add: live)
    next
      case False
      then have "live w p \<and> c \<in> set (children (heap w p))"
        using that d(6,7)[of c p] by (simp add: live pa)
      then show ?thesis by (simp add: live ch)
    qed
    show "live ?v c \<and> parent (heap ?v c) = Some p" if "live ?v p" "c \<in> set (children (heap ?v p))" for p c
    proof (cases "c = r")
      case True
      moreover have "p < next_ref w" using that(1) new(1) d(10) by (auto simp: live)
      ultimately show ?thesis using that(2) fresh[of p] by (simp add: live pa ch split: if_splits)
    next
      case False
      with that(2) have "c \<in> set (children (heap w p))" by (simp add: ch split: if_splits)
      moreover from this new(3) that(1) have "live w p" by (auto simp: live)
      ultimately show ?thesis using d(8,9)[of p c] False by (simp add: live pa)
    qed
  qed
  moreover have "queues_ok ?v" using q by (simp add: queues_ok_def qu regs)
  moreover have "ids_counted ?v"
  proof (rule ids_counted_queues)
    show "ids_counted w" using ok by (simp add: world_ok_def)
    show "nextCallbackId ?v = nextCallbackId w" "made ?v = made w" "trace ?v = trace w" "next_ref w \<le> next_ref ?v"
      by (simp_all add: link_def split: option.split)
  qed (simp add: qu)
  ultimately show ?thesis by (simp add: world_ok_def)
qed

lemma create_world_ok [wf_intros]:
  assumes "world_ok w" and "create i pid w = (x, w')"
  shows "world_ok w'"
proof (cases rule: create_cases[of i w pid])
  case 1
  then show ?thesis using assms by simp
next
  case 2
  then show ?thesis using assms new_object_world_ok[of w i] by simp
next
  case (3 po)
  let ?v = "snd (new_object i w)"
  have d: "\<And>r. live w r \<Longrightarrow> r < next_ref w" "heap_acyclic w"
    using assms(1) forest_okD(4,10) by (auto simp: world_ok_def)
  have live: "live ?v = live w" by (simp add: live_def fun_eq_iff)
  have "world_ok (table_put i \<lparr>h_registry = next_ref w, r_ref_exists = True\<rparr> (link po (next_ref w) ?v))"
  proof (rule link_world_ok[OF new_object_world_ok[OF assms(1)]])
    show "\<not> live ?v (next_ref w)" using d(1) unfolding live by blast
    show "\<not> exists_loop (regId (heap ?v (next_ref w))) ?v" using 3(1) by (simp add: exists_loop_def)
    show "live ?v p \<and> p < next_ref w" if "po = Some p" for p
      using that 3(2) d(1)[of p] unfolding live by (auto simp: live_def)
    show "next_ref w \<notin> set (children (heap ?v s))" if "s < next_ref ?v" for s
      using that heap_acyclicD[OF d(2), of s "next_ref w"] by (cases "s = next_ref w") auto
  qed simp_all
  then show ?thesis using assms(2) 3(3) by simp
qed

section \<open>remove\<close>

lemma heap_fold_orphan:
  "heap (fold orphan cs w) s = (if s \<in> set cs then (heap w s)\<lparr>parent := None\<rparr> else heap w s)"
  by (induction cs arbitrary: w) (auto simp: orphan_def)

lemma fold_orphan_frame [simp]:
  "next_ref (fold orphan cs w) = next_ref w" "registries (fold orphan cs w) = registries w"
  "clock (fold orphan cs w) = clock w"
  "nextCallbackId (fold orphan cs w) = nextCallbackId w" "made (fold orphan cs w) = made w"
  "trace (fold orphan cs w) = trace w"
  by (induction cs arbitrary: w) (simp_all add: orphan_def)

lemma remove_None: "getRegistry w i = None \<Longrightarrow> remove i w = (False, w)"
  by (simp add: remove_def)

text \<open>What removal leaves: every field of every object.\<close>

lemma remove_effect:
  assumes "getRegistry w i = Some r" and "parent (heap w r) \<noteq> Some r"
  defines "v \<equiv> snd (remove i w)"
  shows "fst (remove i w)"
    and "registries v = smap_erase i (registries w)" and "next_ref v = next_ref w" and "clock v = clock w"
    and "regId (heap v s) = regId (heap w s)" and "queue (heap v s) = queue (heap w s)"
    and "fd_waits (heap v s) = fd_waits (heap w s)"
    and "parent (heap v s) = (if s \<in> set (children (heap w r)) then None else parent (heap w s))"
    and "children (heap v s) =
      (if parent (heap w r) = Some s then remove1 r (children (heap w s)) else children (heap w s))"
    and "nextCallbackId v = nextCallbackId w" and "made v = made w" and "trace v = trace w"
  using assms(2)
  by (auto simp: v_def remove_def assms(1) Let_def heap_fold_orphan erase_first_remove1 split: option.splits)

lemma getRegistry_remove:
  "getRegistry (snd (remove i w)) j = (if j = i then None else getRegistry w j)"
  by (cases "getRegistry w i")
     (auto simp: remove_def Let_def getRegistry_eq smap.lookup_erase split: option.splits)

lemma live_not_own_parent: "forest_ok w \<Longrightarrow> live w r \<Longrightarrow> parent (heap w r) \<noteq> Some r"
  using forest_okD(7)[of w r r] heap_acyclicD[OF forest_okD(4), of w r r] forest_okD(10)[of w r] by blast

lemma remove_world_ok [wf_intros]:
  assumes ok: "world_ok w"
  shows "world_ok (snd (remove i w))"
proof (cases "getRegistry w i")
  case None
  then show ?thesis using ok by (simp add: remove_None)
next
  case (Some r)
  let ?v = "snd (remove i w)"
  have f: "forest_ok w" and q: "queues_ok w" using ok by (simp_all add: world_ok_def)
  note d = forest_okD[OF f]
  have r: "live w r" using Some by (auto simp: live_def)
  note e = remove_effect[OF Some live_not_own_parent[OF f r]]
  have live: "live ?v s \<longleftrightarrow> live w s \<and> s \<noteq> r" for s
    using d(3) Some unfolding live_def getRegistry_remove by (auto, metis option.inject)
  have ch: "set (children (heap ?v s)) = set (children (heap w s)) - (if parent (heap w r) = Some s then {r} else {})" for s
    using d(5)[of s] by (simp add: e)
  have "forest_ok ?v"
  proof (rule forest_okI)
    show "smap_ok (registries ?v)" using d(1) by (simp add: e smap.ok_erase)
    show "s < next_ref ?v" "regId (heap ?v s) = j" if "getRegistry ?v j = Some s" for j s
      using that d(2,3)[of j s] by (auto simp: getRegistry_remove e split: if_splits)
    show "s < c \<and> c < next_ref ?v" if "s < next_ref ?v" "c \<in> set (children (heap ?v s))" for s c
    proof -
      have "c \<in> set (children (heap w s))" "s < next_ref w"
        using that(2) by (simp_all only: ch) (use that(1) e(3) in auto)
      then show ?thesis using heap_acyclicD[OF d(4), of s c] e(3) by simp
    qed
    show "distinct (children (heap ?v s))" for s using d(5) by (simp add: e)
    show "live ?v p \<and> c \<in> set (children (heap ?v p))" if "live ?v c" "parent (heap ?v c) = Some p" for c p
    proof -
      have c: "live w c" "c \<noteq> r" "c \<notin> set (children (heap w r))" "parent (heap w c) = Some p"
        using that by (auto simp: live e split: if_splits)
      then show ?thesis using d(6,7)[OF c(1,4)] by (auto simp: live ch)
    qed
    show "live ?v c \<and> parent (heap ?v c) = Some p" if "live ?v p" "c \<in> set (children (heap ?v p))" for p c
    proof -
      have p: "live w p" "p \<noteq> r" "c \<in> set (children (heap w p))" using that by (auto simp: live ch)
      have c: "live w c" "parent (heap w c) = Some p" using d(8,9)[OF p(1,3)] .
      moreover have "c \<noteq> r" using that(2) c(2) by (auto simp: ch)
      moreover have "c \<notin> set (children (heap w r))" using d(9)[OF r, of c] c(2) p(2) by auto
      ultimately show ?thesis by (simp add: live e)
    qed
  qed
  moreover have "queues_ok ?v" using q unfolding queues_ok_def e .
  moreover have "ids_counted ?v"
  proof (rule ids_counted_queues)
    show "ids_counted w" using ok by (simp add: world_ok_def)
  qed (simp_all only: e simp_thms order_refl)
  ultimately show ?thesis by (simp add: world_ok_def)
qed

end
