(* ===== verification/Pruning.thy ===== *)
theory Pruning
  imports Table
begin

text \<open>
  Which loops \<open>pruneRegistries\<close> of \<^verbatim>\<open>callback_registry_table.h\<close> removes. \<open>kept\<close> says which
  loops can still matter; one pass over the map in key order removes exactly the others,
  provided children have larger ids than their parents.
\<close>

section \<open>The invariant\<close>

lemma prune_step_world_ok [wf_intros]: "world_ok w \<Longrightarrow> world_ok (prune_step i w)"
  by (auto simp: prune_step_def remove_world_ok split: option.split)

lemma pruneRegistries_world_ok [wf_intros]:
  assumes "world_ok w"
  shows "world_ok (pruneRegistries w)"
proof -
  have "world_ok (fold prune_step ks w)" for ks
    using assms by (induction ks arbitrary: w) (auto intro: wf_intros)
  then show ?thesis by (simp add: pruneRegistries_def)
qed

text \<open>Replacing the flag of an entry keeps every registry where it was.\<close>

lemma table_put_same:
  fixes b :: bool
  assumes "world_ok w" and "smap_find (registries w) i = Some h"
  defines "v \<equiv> table_put i (h\<lparr>r_ref_exists := b\<rparr>) w"
  shows "world_ok v" and "getRegistry v = getRegistry w" and "heap v = heap w" and "next_ref v = next_ref w"
    and "smap_find (registries v) j = (if j = i then Some (h\<lparr>r_ref_exists := b\<rparr>) else smap_find (registries w) j)"
proof -
  have ok: "smap_ok (registries w)" using assms(1) forest_okD(1) by (simp add: world_ok_def)
  show get: "getRegistry v = getRegistry w"
    using assms(2) by (auto simp: v_def fun_eq_iff getRegistry_eq smap.lookup_put[OF ok])
  show hp: "heap v = heap w" "next_ref v = next_ref w" by (simp_all add: v_def)
  show "smap_find (registries v) j = (if j = i then Some (h\<lparr>r_ref_exists := b\<rparr>) else smap_find (registries w) j)"
    by (simp add: v_def smap.lookup_put[OF ok])
  have live: "live v = live w" by (simp add: live_def get fun_eq_iff)
  have f: "forest_ok w" "queues_ok w" "ids_counted w" using assms(1) by (simp_all add: world_ok_def)
  note d = forest_okD[OF f(1)]
  have "forest_ok v"
  proof (rule forest_okI)
    show "r < c \<and> c < next_ref v" if "r < next_ref v" "c \<in> set (children (heap v r))" for r c
      using that heap_acyclicD[OF d(4), of r c] by (simp add: hp)
    show "live v p \<and> c \<in> set (children (heap v p))" if "live v c" "parent (heap v c) = Some p" for c p
      using that d(6,7)[of c p] by (simp add: hp live)
    show "live v c \<and> parent (heap v c) = Some p" if "live v p" "c \<in> set (children (heap v p))" for p c
      using that d(8,9)[of p c] by (simp add: hp live)
    show "smap_ok (registries v)" using d(1) by (simp add: v_def smap.ok_put)
  qed (use d(2,3,5) in \<open>simp_all add: get hp\<close>)
  moreover have "ids_counted v" using f(3) by (rule ids_counted_queues) (simp_all add: v_def)
  ultimately show "world_ok v" using f(2) by (simp add: world_ok_def queues_ok_def hp) (simp add: v_def)
qed

lemma notifyRRefDeleted_world_ok [wf_intros]:
  "world_ok w \<Longrightarrow> world_ok (snd (notifyRRefDeleted i w))"
  by (auto simp: notifyRRefDeleted_def split: option.split intro!: pruneRegistries_world_ok table_put_same(1))

section \<open>Which loops survive\<close>

definition referenced :: "world \<Rightarrow> nat \<Rightarrow> bool" where
  "referenced w r \<longleftrightarrow>
     (case smap_find (registries w) (regId (heap w r)) of None \<Rightarrow> False | Some h \<Rightarrow> r_ref_exists h)"

text \<open>
  A loop is kept when an R object refers to it, or when it has something to do and its
  parent, which would run it, is kept.
\<close>

inductive kept :: "world \<Rightarrow> nat \<Rightarrow> bool" for w where
  by_ref: "referenced w r \<Longrightarrow> kept w r"
| by_parent: "\<not> empty w r \<Longrightarrow> parent (heap w r) = Some p \<Longrightarrow> kept w p \<Longrightarrow> kept w r"

inductive_simps kept_iff: "kept w r"

definition ids_ordered :: "world \<Rightarrow> bool" where
  "ids_ordered w \<longleftrightarrow>
     (\<forall>c p. live w c \<and> parent (heap w c) = Some p \<longrightarrow> regId (heap w p) < regId (heap w c))"

lemma ids_orderedD:
  "ids_ordered w \<Longrightarrow> live w c \<Longrightarrow> parent (heap w c) = Some p \<Longrightarrow> regId (heap w p) < regId (heap w c)"
  unfolding ids_ordered_def by blast

text \<open>The pass after the keys \<open>done\<close>: the entries left, and the parent pointers.\<close>

definition pruned :: "world \<Rightarrow> int set \<Rightarrow> world \<Rightarrow> bool" where
  "pruned w D v \<longleftrightarrow>
     (\<forall>k. smap_find (registries v) k =
        (case getRegistry w k of
           None \<Rightarrow> None
         | Some r \<Rightarrow> if k \<in> D \<and> \<not> kept w r then None else smap_find (registries w) k)) \<and>
     (\<forall>r. regId (heap v r) = regId (heap w r) \<and> empty v r = empty w r) \<and>
     (\<forall>r. live v r \<longrightarrow> parent (heap v r) =
        (case parent (heap w r) of
           None \<Rightarrow> None
         | Some p \<Rightarrow> if regId (heap w p) \<in> D \<and> \<not> kept w p then None else Some p))"

lemma prunedD:
  assumes "pruned w D v"
  shows "smap_find (registries v) k =
      (case getRegistry w k of
         None \<Rightarrow> None
       | Some r \<Rightarrow> if k \<in> D \<and> \<not> kept w r then None else smap_find (registries w) k)"
    and "regId (heap v r) = regId (heap w r)" and "empty v r = empty w r"
    and "live v r \<Longrightarrow> parent (heap v r) =
      (case parent (heap w r) of
         None \<Rightarrow> None
       | Some p \<Rightarrow> if regId (heap w p) \<in> D \<and> \<not> kept w p then None else Some p)"
  using assms unfolding pruned_def by blast+

lemma pruned_start: "pruned w {} w"
  by (auto simp: pruned_def getRegistry_eq split: option.split)

lemma pruned_live:
  assumes "pruned w D v" and "live v r"
  shows "live w r"
proof -
  from assms(2) obtain k h where h: "smap_find (registries v) k = Some h" "h_registry h = r"
    by (auto simp: live_def getRegistry_eq)
  then have "smap_find (registries w) k = Some h"
    using prunedD(1)[OF assms(1), of k] by (simp split: option.splits if_splits)
  with h have "getRegistry w k = Some r" by (simp add: getRegistry_eq)
  then show ?thesis by (auto simp: live_def)
qed

text \<open>At its turn, a loop is prunable exactly when it is not kept.\<close>

lemma prunable_iff:
  assumes w: "world_ok w" "ids_ordered w" and v: "pruned w D v" "live v r"
    and r: "getRegistry w k = Some r" and h: "smap_find (registries w) k = Some h"
    and D: "\<And>j. exists_loop j w \<Longrightarrow> j < k \<Longrightarrow> j \<in> D"
  shows "prunable h v \<longleftrightarrow> \<not> kept w r"
proof -
  have f: "forest_ok w" using w by (simp add: world_ok_def)
  note d = forest_okD[OF f]
  have live: "live w r" and id: "regId (heap w r) = k" using r d(3) by (auto simp: live_def)
  have reg: "h_registry h = r" using r h by (simp add: getRegistry_eq)
  have "parent (heap v r) = None \<longleftrightarrow> (\<forall>p. parent (heap w r) = Some p \<longrightarrow> \<not> kept w p)"
  proof (cases "parent (heap w r)")
    case None
    then show ?thesis by (simp add: prunedD(4)[OF v])
  next
    case (Some p)
    have "live w p" "regId (heap w p) < k"
      using d(6)[OF live Some] ids_orderedD[OF w(2) live Some] id by simp_all
    then have "regId (heap w p) \<in> D"
      using D[of "regId (heap w p)"] live_regId[OF f, of p] by (auto simp: exists_loop_iff)
    then show ?thesis using Some by (simp add: prunedD(4)[OF v])
  qed
  moreover have "referenced w r = r_ref_exists h" by (simp add: referenced_def id h)
  ultimately show ?thesis
    unfolding prunable_def reg prunedD(3)[OF v(1)] by (subst kept_iff) auto
qed

lemma prune_step_pruned:
  assumes w: "world_ok w" "ids_ordered w" and v: "pruned w D v" "world_ok v" and k: "k \<notin> D"
    and D: "\<And>j. exists_loop j w \<Longrightarrow> j < k \<Longrightarrow> j \<in> D"
  shows "pruned w (insert k D) (prune_step k v)"
proof (cases "getRegistry w k")
  case None
  have "smap_find (registries v) k = None" by (simp add: prunedD(1)[OF v(1)] None)
  moreover have lw: "live w r" if "live v r" for r
    using v(1) that by (rule pruned_live)
  moreover have ne: "regId (heap w p) \<noteq> k" if "live v r" "parent (heap w r) = Some p" for r p
    using lw[OF that(1)] that(2) w(1) None by (metis forest_okD(6) live_regId option.distinct(1) world_ok_def)
  ultimately have step: "prune_step k v = v" by (simp add: prune_step_def)
  show ?thesis unfolding pruned_def step
  proof (intro conjI allI impI)
    show "smap_find (registries v) j =
        (case getRegistry w j of None \<Rightarrow> None
         | Some r \<Rightarrow> if j \<in> insert k D \<and> \<not> kept w r then None else smap_find (registries w) j)" for j
      using None by (auto simp: prunedD(1)[OF v(1), of j] split: option.split)
    show "parent (heap v s) =
        (case parent (heap w s) of None \<Rightarrow> None
         | Some p \<Rightarrow> if regId (heap w p) \<in> insert k D \<and> \<not> kept w p then None else Some p)"
      if "live v s" for s
      using ne[OF that] by (auto simp: prunedD(4)[OF v(1) that] split: option.split)
  qed (simp_all add: prunedD(2,3)[OF v(1)])
next
  case (Some r)
  then obtain h where h: "smap_find (registries w) k = Some h" "h_registry h = r"
    by (auto simp: getRegistry_eq)
  have fw: "forest_ok w" and fv: "forest_ok v" using w v by (simp_all add: world_ok_def)
  have find: "smap_find (registries v) k = Some h" by (simp add: prunedD(1)[OF v(1)] Some k h)
  then have getv: "getRegistry v k = Some r" by (simp add: getRegistry_eq h)
  then have lv: "live v r" by (auto simp: live_def)
  have idr: "regId (heap w r) = k" using forest_okD(3)[OF fw Some] .
  have livew: "live w s" if "live v s" for s
    using v(1) that by (rule pruned_live)
  have key: "regId (heap w p) = k \<longleftrightarrow> p = r" if "live w p" for p
    using live_regId[OF fw that] Some idr by (metis option.inject)
  note pr = prunable_iff[OF w v(1) lv Some h(1) D]
  show ?thesis
  proof (cases "kept w r")
    case True
    then have step: "prune_step k v = v" using pr find by (simp add: prune_step_def)
    have same: "regId (heap w p) \<in> insert k D \<and> \<not> kept w p \<longleftrightarrow> regId (heap w p) \<in> D \<and> \<not> kept w p"
      if "live w s" "parent (heap w s) = Some p" for s p
      using key[OF forest_okD(6)[OF fw that]] True by auto
    show ?thesis unfolding pruned_def step
    proof (intro conjI allI impI)
      show "smap_find (registries v) j =
          (case getRegistry w j of None \<Rightarrow> None
           | Some r \<Rightarrow> if j \<in> insert k D \<and> \<not> kept w r then None else smap_find (registries w) j)" for j
        using True Some by (auto simp: prunedD(1)[OF v(1), of j] split: option.split)
      show "parent (heap v s) =
          (case parent (heap w s) of None \<Rightarrow> None
           | Some p \<Rightarrow> if regId (heap w p) \<in> insert k D \<and> \<not> kept w p then None else Some p)"
        if "live v s" for s
        unfolding prunedD(4)[OF v(1) that] using same[OF livew[OF that]] by (auto split: option.split)
    qed (simp_all add: prunedD(2,3)[OF v(1)])
  next
    case False
    then have step: "prune_step k v = snd (remove k v)" using pr find by (simp add: prune_step_def)
    note e = remove_effect[OF getv live_not_own_parent[OF fv lv]]
    have live': "live (snd (remove k v)) s \<longleftrightarrow> live v s \<and> s \<noteq> r" for s
      using forest_okD(3)[OF fv] getv unfolding live_def getRegistry_remove by (auto, metis option.inject)
    have child: "s \<in> set (children (heap v r)) \<longleftrightarrow> parent (heap v s) = Some r" if "live v s" for s
      using forest_okD(7)[OF fv that] forest_okD(9)[OF fv lv] by blast
    show ?thesis unfolding pruned_def step
    proof (intro conjI allI impI)
      show "smap_find (registries (snd (remove k v))) j =
          (case getRegistry w j of None \<Rightarrow> None
           | Some r \<Rightarrow> if j \<in> insert k D \<and> \<not> kept w r then None else smap_find (registries w) j)" for j
        using False Some by (auto simp: e(2) smap.lookup_erase prunedD(1)[OF v(1), of j] split: option.split)
      show "regId (heap (snd (remove k v)) s) = regId (heap w s)" for s
        by (simp add: e(5) prunedD(2)[OF v(1)])
      show "empty (snd (remove k v)) s = empty w s" for s
        unfolding prunedD(3)[OF v(1), symmetric] by (simp add: empty_def e)
      show "parent (heap (snd (remove k v)) s) =
          (case parent (heap w s) of None \<Rightarrow> None
           | Some p \<Rightarrow> if regId (heap w p) \<in> insert k D \<and> \<not> kept w p then None else Some p)"
        if "live (snd (remove k v)) s" for s
      proof -
        have s: "live v s" using that live' by simp
        have "regId (heap w p) = k \<longleftrightarrow> p = r" if "parent (heap w s) = Some p" for p
          by (rule key[OF forest_okD(6)[OF fw livew[OF s] that]])
        then show ?thesis unfolding e(8) child[OF s] prunedD(4)[OF v(1) s]
          using False by (auto split: option.split)
      qed
    qed
  qed
qed

lemma prune_fold_pruned:
  assumes w: "world_ok w" "ids_ordered w" and v: "pruned w D v" "world_ok v"
    and ks: "sorted_wrt (<) ks" "\<forall>k \<in> set ks. k \<notin> D"
    and D: "\<And>j. exists_loop j w \<Longrightarrow> j \<in> D \<or> j \<in> set ks"
    and le: "\<forall>k \<in> set ks. \<forall>j \<in> D. j < k"
  shows "pruned w (D \<union> set ks) (fold prune_step ks v)"
  using v ks D le
proof (induction ks arbitrary: D v)
  case (Cons k ks)
  have "pruned w (insert k D) (prune_step k v)"
    using Cons.prems by (intro prune_step_pruned[OF w]) (auto, metis less_asym)
  moreover have "world_ok (prune_step k v)" using Cons.prems(2) by (rule prune_step_world_ok)
  moreover have "j \<in> insert k D \<or> j \<in> set ks" if "exists_loop j w" for j
    using Cons.prems(5)[OF that] by auto
  ultimately have "pruned w (insert k D \<union> set ks) (fold prune_step ks (prune_step k v))"
    using Cons.prems(3,4,6) by (intro Cons.IH) auto
  then show ?case by simp
qed simp

theorem prune_all:
  assumes "world_ok w" and "ids_ordered w"
  shows "pruned w (fst ` set (registries w)) (pruneRegistries w)"
proof -
  have ok: "smap_ok (registries w)" using assms(1) forest_okD(1) by (simp add: world_ok_def)
  have "pruned w ({} \<union> set (map fst (registries w))) (fold prune_step (map fst (registries w)) w)"
  proof (rule prune_fold_pruned[OF assms pruned_start assms(1)])
    show "sorted_wrt (<) (map fst (registries w))"
      using ok by (simp add: smap_ok_def sorted_wrt_map)
    show "j \<in> {} \<or> j \<in> set (map fst (registries w))" if "exists_loop j w" for j
      using that smap_find_None_iff[of "registries w" j] by (auto simp: exists_loop_def)
  qed auto
  then show ?thesis by (simp add: pruneRegistries_def)
qed

lemma prune_exists_iff:
  assumes "world_ok w" and "ids_ordered w"
  shows "exists_loop k (pruneRegistries w) \<longleftrightarrow> (\<exists>r. getRegistry w k = Some r \<and> kept w r)"
  using prunedD(1)[OF prune_all[OF assms], of k] smap_find_None_iff[of "registries w" k]
  by (auto simp: exists_loop_def getRegistry_eq split: option.splits if_splits)

text \<open>A new loop with a larger id than its parent keeps the ids ordered; removal does too.\<close>

lemma remove_ids_ordered:
  assumes "world_ok w" and "ids_ordered w"
  shows "ids_ordered (snd (remove i w))"
proof (cases "getRegistry w i")
  case None
  then show ?thesis using assms by (simp add: remove_None)
next
  case (Some r)
  have f: "forest_ok w" using assms by (simp add: world_ok_def)
  have r: "live w r" using Some by (auto simp: live_def)
  note e = remove_effect[OF Some live_not_own_parent[OF f r]]
  have "live w s" if "live (snd (remove i w)) s" for s
    using that by (auto simp: live_def getRegistry_remove split: if_splits)
  then show ?thesis unfolding ids_ordered_def
    by (auto simp: e split: if_splits intro: ids_orderedD[OF assms(2)])
qed

end
