(* ===== verification/Posix.thy ===== *)
theory Posix
  imports Timer
begin

text \<open>
  The part of \<^verbatim>\<open>later_posix.cpp\<close> that opens and closes the two pipes and registers the input
  handlers with R.
\<close>

section \<open>Operating system calls\<close>

text \<open>\<^verbatim>\<open>pipe(2)\<close> answers the two descriptors (read end, write end) or fails.\<close>

definition os_pipe :: "posix \<Rightarrow> (int \<times> int) option \<times> posix" where
  "os_pipe p = (case os_pipes p of [] \<Rightarrow> (None, p) | x # xs \<Rightarrow> (x, p\<lparr>os_pipes := xs\<rparr>))"

text \<open>\<^verbatim>\<open>if (fd > 0) close\<close>, for the ends of each pipe.\<close>

definition close_pipe :: "posix \<Rightarrow> posix" where
  "close_pipe p =
     (let p1 = (if pipe_in p > 0 then p\<lparr>pipe_in := -1\<rparr> else p)
      in if pipe_out p1 > 0 then p1\<lparr>pipe_out := -1\<rparr> else p1)"

definition close_dummy_pipe :: "posix \<Rightarrow> posix" where
  "close_dummy_pipe p =
     (let p1 = (if dummy_pipe_in p > 0 then p\<lparr>dummy_pipe_in := -1\<rparr> else p)
      in if dummy_pipe_out p1 > 0 then p1\<lparr>dummy_pipe_out := -1\<rparr> else p1)"

section \<open>The handlers\<close>

definition LATER2_ACTIVITY :: int where
  "LATER2_ACTIVITY = 20"

definition LATER2_DUMMY_ACTIVITY :: int where
  "LATER2_DUMMY_ACTIVITY = 21"

text \<open>R's list of handlers: a new one goes to the end, a removed one is looked up by handle.\<close>

definition addInputHandler :: "int \<Rightarrow> int \<Rightarrow> posix \<Rightarrow> nat \<times> posix" where
  "addInputHandler fd activity p =
     (next_handle p,
      p\<lparr>r_handlers := r_handlers p @ [(next_handle p, fd, activity)], next_handle := Suc (next_handle p)\<rparr>)"

definition removeInputHandler :: "nat \<Rightarrow> posix \<Rightarrow> posix" where
  "removeInputHandler h p = p\<lparr>r_handlers := erase_first (\<lambda>e. fst e = h) (r_handlers p)\<rparr>"

definition remove_dummy_handler :: "posix \<Rightarrow> posix" where
  "remove_dummy_handler p = close_dummy_pipe (removeInputHandler (dummyInputHandlerHandle p) p)"

definition child_proc_after_fork :: "posix \<Rightarrow> posix" where
  "child_proc_after_fork p =
     (if autorunner_initialized p
      then let p1 = close_pipe (removeInputHandler (inputHandlerHandle p) p);
               p2 = close_dummy_pipe (removeInputHandler (dummyInputHandlerHandle p1) p1)
           in p2\<lparr>autorunner_initialized := False\<rparr>
      else p)"

text \<open>
  \<open>ensureAutorunnerInitialized\<close>: the second \<^verbatim>\<open>pipe\<close> may fail after the first one and its
  handler are in place.
\<close>

definition ensureAutorunnerInitialized :: "posix \<Rightarrow> (exn + unit) \<times> posix" where
  "ensureAutorunnerInitialized p =
     (if autorunner_initialized p then (Inr (), p)
      else case os_pipe p of
             (None, p1) \<Rightarrow> (Inl (UnwindException ''Failed to create pipe''), p1)
           | (Some (rd, wr), p1) \<Rightarrow>
               let (h, p2) = addInputHandler rd LATER2_ACTIVITY
                     (p1\<lparr>pipe_out := rd, pipe_in := wr, pipe_bytes := 0\<rparr>);
                   p3 = p2\<lparr>inputHandlerHandle := h\<rparr>
               in case os_pipe p3 of
                    (None, p4) \<Rightarrow> (Inl (UnwindException ''Failed to create pipe''), p4)
                  | (Some (drd, dwr), p4) \<Rightarrow>
                      let (dh, p5) = addInputHandler drd LATER2_DUMMY_ACTIVITY
                            (p4\<lparr>dummy_pipe_out := drd, dummy_pipe_in := dwr, dummy_bytes := 0\<rparr>)
                      in (Inr (), p5\<lparr>dummyInputHandlerHandle := dh, autorunner_initialized := True\<rparr>))"

definition deInitialize :: "posix \<Rightarrow> posix" where
  "deInitialize p =
     (if autorunner_initialized p
      then let p1 = close_pipe (removeInputHandler (inputHandlerHandle p) p);
               p2 = p1\<lparr>autorunner_initialized := False\<rparr>
           in if dummy_pipe_in p2 < 0 then p2 else p2\<lparr>dummy_bytes := Suc (dummy_bytes p2)\<rparr>
      else p)"

definition initial_posix :: "(int \<times> int) option list \<Rightarrow> posix" where
  "initial_posix ps =
     \<lparr>autorunner_initialized = False, pipe_in = -1, pipe_out = -1, dummy_pipe_in = -1,
      dummy_pipe_out = -1, hot = False, pipe_bytes = 0, dummy_bytes = 0, r_handlers = [],
      next_handle = 1, inputHandlerHandle = 0, dummyInputHandlerHandle = 0, os_pipes = ps\<rparr>"

section \<open>What they do\<close>

text \<open>Handles are given out once.\<close>

definition handles_ok :: "posix \<Rightarrow> bool" where
  "handles_ok p \<longleftrightarrow>
     distinct (map fst (r_handlers p)) \<and> (\<forall>e \<in> set (r_handlers p). fst e < next_handle p)"

lemma erase_first_append_last:
  "\<forall>x \<in> set xs. \<not> P x \<Longrightarrow> P y \<Longrightarrow> erase_first P (xs @ y # ys) = xs @ ys"
  by (induction xs) auto

lemma ensureAutorunner_success:
  assumes "\<not> autorunner_initialized p" and "os_pipes p = Some (rd, wr) # Some (drd, dwr) # ps"
  shows "ensureAutorunnerInitialized p =
    (Inr (), p\<lparr>autorunner_initialized := True, pipe_out := rd, pipe_in := wr, pipe_bytes := 0,
       dummy_pipe_out := drd, dummy_pipe_in := dwr, dummy_bytes := 0, os_pipes := ps,
       r_handlers := r_handlers p @ [(next_handle p, rd, 20), (Suc (next_handle p), drd, 21)],
       inputHandlerHandle := next_handle p, dummyInputHandlerHandle := Suc (next_handle p),
       next_handle := Suc (Suc (next_handle p))\<rparr>)"
  using assms by (simp add: ensureAutorunnerInitialized_def os_pipe_def addInputHandler_def
      LATER2_ACTIVITY_def LATER2_DUMMY_ACTIVITY_def)

text \<open>
  Closing down takes two steps: \<open>deInitialize\<close> removes the real handler and makes the dummy
  pipe readable, and R then runs the dummy handler, which removes itself.
\<close>

lemma deInitialize_undo:
  assumes "handles_ok p" and "\<not> autorunner_initialized p"
    and "os_pipes p = Some (rd, wr) # Some (drd, dwr) # ps"
    and "0 < rd" "0 < wr" "0 < drd" "0 < dwr"
  defines "q \<equiv> remove_dummy_handler (deInitialize (snd (ensureAutorunnerInitialized p)))"
  shows "r_handlers q = r_handlers p" and "\<not> autorunner_initialized q"
    and "pipe_in q = -1" "pipe_out q = -1" "dummy_pipe_in q = -1" "dummy_pipe_out q = -1"
    and "dummy_bytes (deInitialize (snd (ensureAutorunnerInitialized p))) = 1"
proof -
  have lt: "\<forall>e \<in> set (r_handlers p). fst e \<noteq> next_handle p"
    and lt': "\<forall>e \<in> set (r_handlers p). fst e \<noteq> Suc (next_handle p)"
    using assms(1) by (auto simp: handles_ok_def)
  note e = erase_first_append_last[of "r_handlers p" "\<lambda>e. fst e = next_handle p" "(next_handle p, rd, 20)"]
  note f = erase_first_append_last[of "r_handlers p" "\<lambda>e. fst e = Suc (next_handle p)" "(Suc (next_handle p), drd, 21)" "[]"]
  show "r_handlers q = r_handlers p" and "\<not> autorunner_initialized q"
    and "pipe_in q = -1" "pipe_out q = -1" "dummy_pipe_in q = -1" "dummy_pipe_out q = -1"
    and "dummy_bytes (deInitialize (snd (ensureAutorunnerInitialized p))) = 1"
    unfolding q_def ensureAutorunner_success[OF assms(2,3)] using assms(4-7) lt lt'
    by (simp_all add: remove_dummy_handler_def deInitialize_def close_pipe_def close_dummy_pipe_def
        removeInputHandler_def Let_def e f)
qed

text \<open>After a fork the child has neither handler nor pipe.\<close>

lemma child_after_fork:
  assumes "handles_ok p" and "\<not> autorunner_initialized p"
    and "os_pipes p = Some (rd, wr) # Some (drd, dwr) # ps"
    and "0 < rd" "0 < wr" "0 < drd" "0 < dwr"
  defines "q \<equiv> child_proc_after_fork (snd (ensureAutorunnerInitialized p))"
  shows "r_handlers q = r_handlers p" and "\<not> autorunner_initialized q"
    and "pipe_in q = -1" "pipe_out q = -1" "dummy_pipe_in q = -1" "dummy_pipe_out q = -1"
proof -
  have lt: "\<forall>e \<in> set (r_handlers p). fst e \<noteq> next_handle p"
    and lt': "\<forall>e \<in> set (r_handlers p). fst e \<noteq> Suc (next_handle p)"
    using assms(1) by (auto simp: handles_ok_def)
  note e = erase_first_append_last[of "r_handlers p" "\<lambda>e. fst e = next_handle p" "(next_handle p, rd, 20)"]
  note f = erase_first_append_last[of "r_handlers p" "\<lambda>e. fst e = Suc (next_handle p)" "(Suc (next_handle p), drd, 21)" "[]"]
  show "r_handlers q = r_handlers p" and "\<not> autorunner_initialized q"
    and "pipe_in q = -1" "pipe_out q = -1" "dummy_pipe_in q = -1" "dummy_pipe_out q = -1"
    unfolding q_def ensureAutorunner_success[OF assms(2,3)] using assms(4-7) lt lt'
    by (simp_all add: child_proc_after_fork_def close_pipe_def close_dummy_pipe_def
        removeInputHandler_def Let_def e f)
qed

end
