(* ===== verification/Fd.thy ===== *)
theory Fd
  imports Pruning Posix
begin

text \<open>
  \<^verbatim>\<open>fd.cpp\<close>: waiting for file descriptors. A \<^verbatim>\<open>ThreadArgs\<close> object belongs to its wait
  thread until the thread schedules \<open>later_callback\<close>, which then owns and deletes it. While
  it lives, its registry counts it. The wait thread is a state machine: one step is what it
  does between two points where other threads can be observed.
\<close>

section \<open>ThreadArgs\<close>

definition createTimestamp :: "double \<Rightarrow> world \<Rightarrow> timespec res" where
  "createTimestamp timeout w =
     timestamp_in
       (if double_gt timeout 30000000000 then Fin 30000000000
        else if double_neg timeout then Fin 1 else timeout) w"

text \<open>The constructors, in the order of the member initialisers, and the destructor.\<close>

definition new_thread_args :: "fd_callback \<Rightarrow> pollfd list \<Rightarrow> double \<Rightarrow> int \<Rightarrow> world \<Rightarrow> nat res" where
  "new_thread_args f fds timeout loop w =
     (case createTimestamp timeout w of
        (Inl e, w1) \<Rightarrow> (Inl e, w1)
      | (Inr t, w1) \<Rightarrow>
          let a = next_active w1;
              w2 = w1\<lparr>actives := (actives w1)(a := True), next_active := Suc a\<rparr>
          in case getRegistry w2 loop of
               None \<Rightarrow> (Inl (StdException ''CallbackRegistry does not exist.''), w2)
             | Some r \<Rightarrow>
                 let w3 = fd_waits_incr r w2; k = next_args w3
                 in (Inr k, w3\<lparr>thread_args_store := (thread_args_store w3)(k \<mapsto>
                       \<lparr>ta_timeout = t, ta_active = a, ta_callback = f, ta_fds = fds,
                        ta_results = replicate (length fds) 0, ta_loop = loop, ta_registry = r\<rparr>),
                      next_args := Suc k\<rparr>))"

definition delete_args :: "nat \<Rightarrow> world \<Rightarrow> world" where
  "delete_args k w =
     (case thread_args_store w k of
        None \<Rightarrow> w
      | Some a \<Rightarrow>
          (fd_waits_decr (ta_registry a) w)
            \<lparr>thread_args_store := (thread_args_store w)(k := None)\<rparr>)"

section \<open>The callback\<close>

text \<open>
  \<open>compare_exchange_strong\<close> on a flag: the new content, and the value left in the variable
  holding the expected one.
\<close>

definition compare_exchange :: "nat \<Rightarrow> bool \<Rightarrow> bool \<Rightarrow> world \<Rightarrow> bool \<times> world" where
  "compare_exchange a expected desired w =
     (if actives w a = expected then (expected, w\<lparr>actives := (actives w)(a := desired)\<rparr>)
      else (actives w a, w))"

text \<open>
  How an error leaves \<^verbatim>\<open>cpp4r::function\<close>: R code can only end in a \<^verbatim>\<open>longjmp\<close>, and that
  becomes a C++ exception.
\<close>

fun exn_message :: "exn \<Rightarrow> string" where
  "exn_message (UnwindException m) = m"
| "exn_message (StdException m) = m"
| "exn_message UnknownException = ''C++ error (unknown cause)''"
| "exn_message (Longjmp m) = m"
| "exn_message (Undefined m) = m"

fun unwind_protect :: "exn + 'a \<Rightarrow> exn + 'a" where
  "unwind_protect (Inl (Undefined m)) = Inl (Undefined m)"
| "unwind_protect (Inl e) = Inl (UnwindException (exn_message e))"
| "unwind_protect (Inr x) = Inr x"

text \<open>A \<^verbatim>\<open>unique_ptr\<close> frees its object unless the frame is left by \<^verbatim>\<open>longjmp\<close>.\<close>

definition leaves_frame :: "exn + 'a \<Rightarrow> bool" where
  "leaves_frame x = (case x of Inl e \<Rightarrow> runs_destructors e | Inr _ \<Rightarrow> True)"

definition later_callback ::
    "(prog \<Rightarrow> world \<Rightarrow> unit res option) \<Rightarrow> nat \<Rightarrow> world \<Rightarrow> unit res option" where
  "later_callback run k w =
     (case thread_args_store w k of
        None \<Rightarrow> Some (Inl (Undefined ''freed ThreadArgs''), w)
      | Some args \<Rightarrow>
          let (still_active, w1) = compare_exchange (ta_active args) True False w
          in if \<not> still_active then Some (Inr (), delete_args k w1)
             else let w2 = w1\<lparr>trace := trace w1 @ [EvFdCallback k (ta_results args)]\<rparr>
                  in case (case ta_callback args of
                             FdFunction f \<Rightarrow>
                               map_option (apfst unwind_protect) (run (f (ta_results args)) w2)
                           | FdNative f \<Rightarrow> run (f (ta_results args)) w2) of
                       None \<Rightarrow> None
                     | Some (x, w3) \<Rightarrow> Some (x, if leaves_frame x then delete_args k w3 else w3))"

section \<open>The wait thread\<close>

definition POLLIN :: "16 word" where
  "POLLIN = 1"

definition POLLOUT :: "16 word" where
  "POLLOUT = 4"

definition NA_INTEGER :: int where
  "NA_INTEGER = - 2147483648"

definition max_wait :: rat where  \<comment> \<open>\<^verbatim>\<open>1.024\<close> as a double\<close>
  "max_wait = dbl (1024 / 1000)"

text \<open>The thread calls \<^verbatim>\<open>poll\<close> with a timeout in milliseconds, never more than about a second.\<close>

definition enter_poll :: "rat \<Rightarrow> wait_pc" where
  "enter_poll waitFor = (let waitFor = min waitFor max_wait in WPoll (trunc0 (dbl (waitFor * 1000))))"

text \<open>What \<^verbatim>\<open>poll\<close> writes into the array.\<close>

definition set_revents :: "16 word list \<Rightarrow> pollfd list \<Rightarrow> pollfd list" where
  "set_revents rs fds =
     map (\<lambda>(p, i). p\<lparr>pfd_revents := (if i < length rs then rs ! i else 0)\<rparr>) (zip fds [0..<length fds])"

definition result_of :: "pollfd \<Rightarrow> int" where
  "result_of p =
     (if pfd_revents p = 0 then 0
      else if and (pfd_revents p) (or POLLIN POLLOUT) \<noteq> 0 then 1
      else NA_INTEGER)"

definition wait_results :: "int \<Rightarrow> pollfd list \<Rightarrow> int list \<Rightarrow> int list" where
  "wait_results ready fds results =
     (if ready > 0 then map result_of fds
      else if ready < 0 then map (\<lambda>_. NA_INTEGER) results
      else results)"

definition set_pc :: "nat \<Rightarrow> wait_pc \<Rightarrow> world \<Rightarrow> world" where
  "set_pc i pc w = w\<lparr>threads := (threads w)[i := (threads w ! i)\<lparr>wt_pc := pc\<rparr>]\<rparr>"

text \<open>
  One step of thread \<open>i\<close>; \<open>ready\<close> and \<open>revents\<close> are what \<^verbatim>\<open>poll\<close> answers if the step is
  the return from it. A step on a deleted object has no meaning; \<open>None\<close> marks it.
\<close>

definition wait_step :: "nat \<Rightarrow> int \<Rightarrow> 16 word list \<Rightarrow> world \<Rightarrow> world option" where
  "wait_step i ready revents w =
     (let k = wt_args (threads w ! i)
      in case wt_pc (threads w ! i) of
           WExit c \<Rightarrow> Some w
         | pc \<Rightarrow>
             (case thread_args_store w k of
                None \<Rightarrow> None
              | Some args \<Rightarrow>
                  (case pc of
                     WStart \<Rightarrow>
                       (let (now, w1) = timestamp_now w
                        in Some (set_pc i (enter_poll (max (diff_secs (ta_timeout args) now) 0)) w1))
                   | WPoll ms \<Rightarrow>
                       Some (set_pc i (WCheck ready)
                         (w\<lparr>thread_args_store := (thread_args_store w)(k \<mapsto>
                             args\<lparr>ta_fds := set_revents revents (ta_fds args)\<rparr>)\<rparr>))
                   | WCheck rdy \<Rightarrow>
                       (if \<not> actives w (ta_active args)
                        then Some (delete_args k (set_pc i (WExit 1) w))
                        else if rdy \<noteq> 0 then Some (set_pc i (WSchedule rdy) w)
                        else let (now, w1) = timestamp_now w;
                                 waitFor = diff_secs (ta_timeout args) now
                             in if waitFor > 0 then Some (set_pc i (enter_poll waitFor) w1)
                                else Some (set_pc i (WSchedule rdy) w1))
                   | WSchedule rdy \<Rightarrow>
                       (let args' = args\<lparr>ta_results := wait_results rdy (ta_fds args) (ta_results args)\<rparr>;
                            w1 = w\<lparr>thread_args_store := (thread_args_store w)(k \<mapsto> args')\<rparr>
                        in Some (snd (scheduleCallback (LaterCallback k) (Fin 0) (ta_loop args)
                             (set_pc i (WExit 0) w1))))
                   | WExit c \<Rightarrow> Some w)))"

section \<open>Starting and cancelling\<close>

definition start_thread :: "nat \<Rightarrow> world \<Rightarrow> bool \<times> world" where  \<comment> \<open>\<^verbatim>\<open>tct_thrd_create\<close>\<close>
  "start_thread k w =
     (if spawn_ok w k then (True, w\<lparr>threads := threads w @ [\<lparr>wt_args = k, wt_pc = WStart\<rparr>]\<rparr>)
      else (False, w))"

definition execLater_fd_impl :: "fd_callback \<Rightarrow> pollfd list \<Rightarrow> double \<Rightarrow> int \<Rightarrow> world \<Rightarrow> nat res" where
  "execLater_fd_impl f fds timeout loop w =
     (case new_thread_args f fds timeout loop w of
        (Inl e, w1) \<Rightarrow> (Inl e, w1)
      | (Inr k, w1) \<Rightarrow>
          let (ok, w2) = start_thread k w1
          in if \<not> ok then (Inl (UnwindException ''Thread creation failed''), w2)
             else (Inr (case thread_args_store w1 k of Some a \<Rightarrow> ta_active a | None \<Rightarrow> 0), w2))"

definition execLater_fd_native :: "fd_callback \<Rightarrow> pollfd list \<Rightarrow> double \<Rightarrow> int \<Rightarrow> world \<Rightarrow> int res" where
  "execLater_fd_native f fds timeout loop w =
     (case new_thread_args f fds timeout loop w of
        (Inl e, w1) \<Rightarrow> (Inl e, w1)
      | (Inr k, w1) \<Rightarrow>
          let (ok, w2) = start_thread k w1 in (Inr (if ok then 0 else 1), w2))"

definition make_pollfds :: "int list \<Rightarrow> int list \<Rightarrow> int list \<Rightarrow> pollfd list" where
  "make_pollfds readfds writefds exceptfds =
     map (\<lambda>d. \<lparr>pfd_fd = d, pfd_events = POLLIN, pfd_revents = 0\<rparr>) readfds @
     map (\<lambda>d. \<lparr>pfd_fd = d, pfd_events = POLLOUT, pfd_revents = 0\<rparr>) writefds @
     map (\<lambda>d. \<lparr>pfd_fd = d, pfd_events = 0, pfd_revents = 0\<rparr>) exceptfds"

definition execLater_fd ::
    "(int list \<Rightarrow> prog) \<Rightarrow> int list \<Rightarrow> int list \<Rightarrow> int list \<Rightarrow> double \<Rightarrow> int \<Rightarrow> world \<Rightarrow> nat res" where
  "execLater_fd callback readfds writefds exceptfds timeoutSecs loop w =
     (let num_fds = length readfds + length writefds + length exceptfds;
          timeout = (if num_fds \<noteq> 0 then timeoutSecs else Fin 0)
      in execLater_fd_impl (FdFunction callback) (make_pollfds readfds writefds exceptfds) timeout loop w)"

definition fd_cancel :: "nat \<Rightarrow> world \<Rightarrow> bool \<times> world" where
  "fd_cancel a w = compare_exchange a True False w"

section \<open>Facts\<close>

lemma compare_exchange_eq [simp]:
  "compare_exchange a True False w = (actives w a, w\<lparr>actives := (actives w)(a := False)\<rparr>)"
  by (auto simp: compare_exchange_def fun_upd_idem)

end
