(* ===== verification/FdFacts.thy ===== *)
theory FdFacts
  imports Fd "HOL-Library.Multiset"
begin

text \<open>
  Memory safety of \<^verbatim>\<open>fd.cpp\<close>: every \<^verbatim>\<open>ThreadArgs\<close> object has at most one owner (a running
  wait thread, a queued \<open>later_callback\<close>, or a frame of a running one), an owner's object
  has not been deleted, and a registry's \<open>fd_waits\<close> is the number of objects that count it.
\<close>

section \<open>Owners\<close>

definition running :: "wait_thread \<Rightarrow> bool" where
  "running t \<longleftrightarrow> (case wt_pc t of WExit c \<Rightarrow> False | _ \<Rightarrow> True)"

definition thread_owns :: "wait_thread list \<Rightarrow> nat multiset" where
  "thread_owns ts = sum_list (map (\<lambda>t. if running t then {#wt_args t#} else {#}) ts)"

fun later_arg :: "cbfun \<Rightarrow> nat multiset" where
  "later_arg (LaterCallback k) = {#k#}"
| "later_arg _ = {#}"

definition queue_owns :: "callback list \<Rightarrow> nat multiset" where
  "queue_owns q = sum_list (map (\<lambda>cb. later_arg (func cb)) q)"

definition heap_owns :: "world \<Rightarrow> nat multiset" where
  "heap_owns w = (\<Sum>r < next_ref w. queue_owns (queue (heap w r)))"

text \<open>\<open>S\<close> is what frames on the stack own.\<close>

definition owned :: "nat multiset \<Rightarrow> world \<Rightarrow> bool" where
  "owned S w \<longleftrightarrow>
     (\<forall>k. count (S + thread_owns (threads w) + heap_owns w) k
          \<le> (if thread_args_store w k = None then 0 else 1))"

definition waiting :: "world \<Rightarrow> nat \<Rightarrow> nat set" where
  "waiting w r = {k. \<exists>a. thread_args_store w k = Some a \<and> ta_registry a = r}"

definition fd_ok :: "world \<Rightarrow> bool" where
  "fd_ok w \<longleftrightarrow>
     (\<forall>k a. thread_args_store w k = Some a \<longrightarrow> k < next_args w \<and> ta_registry a < next_ref w) \<and>
     (\<forall>r. fd_waits (heap w r) = int (card (waiting w r)) \<or> next_ref w \<le> r)"

definition sys_ok :: "nat multiset \<Rightarrow> world \<Rightarrow> bool" where
  "sys_ok S w \<longleftrightarrow> world_ok w \<and> fd_ok w \<and> owned S w"

lemma fd_okD:
  assumes "fd_ok w"
  shows "thread_args_store w k = Some a \<Longrightarrow> k < next_args w"
    and "thread_args_store w k = Some a \<Longrightarrow> ta_registry a < next_ref w"
    and "r < next_ref w \<Longrightarrow> fd_waits (heap w r) = int (card (waiting w r))"
  using assms unfolding fd_ok_def by (meson leD)+

text \<open>The part of the state these depend on besides the heap.\<close>

definition fd_core :: "world \<Rightarrow> (nat \<Rightarrow> thread_args option) \<times> nat \<times> wait_thread list" where
  "fd_core w = (thread_args_store w, next_args w, threads w)"

lemma queue_owns_simps [simp]:
  "queue_owns [] = {#}" "queue_owns (cb # q) = later_arg (func cb) + queue_owns q"
  by (simp_all add: queue_owns_def)

lemma queue_owns_insert: "queue_owns (sset_insert lt cb q) \<subseteq># later_arg (func cb) + queue_owns q"
  by (induction q) (auto simp: subset_mset.add_increasing add_ac)

lemma queue_owns_erase: "queue_owns (erase_first P q) \<subseteq># queue_owns q"
  by (induction q) (auto simp: subset_mset.add_increasing)

lemma sum_upd:
  fixes f g :: "nat \<Rightarrow> nat multiset"
  assumes "\<And>s. s \<noteq> r \<Longrightarrow> g s = f s" and "B + g r \<subseteq># A + f r" and "r < n \<or> B = {#}"
  shows "B + (\<Sum>s < n. g s) \<subseteq># A + (\<Sum>s < n. f s)"
proof (cases "r < n")
  case True
  have "(\<Sum>s < n. h s) = h r + (\<Sum>s \<in> {..<n} - {r}. h s)" for h :: "nat \<Rightarrow> nat multiset"
    using True by (simp add: sum.remove)
  moreover have "(\<Sum>s \<in> {..<n} - {r}. g s) = (\<Sum>s \<in> {..<n} - {r}. f s)"
    using assms(1) by (intro sum.cong) auto
  moreover have "B + (g r + X) \<subseteq># A + (f r + X)" for X
    using assms(2) by (simp only: add.assoc[symmetric] mset_subset_eq_mono_add_right_cancel)
  ultimately show ?thesis by simp
next
  case False
  then have "(\<Sum>s < n. g s) = (\<Sum>s < n. f s)" using assms(1) by (intro sum.cong) auto
  then show ?thesis using assms(3) False by simp
qed

lemma heap_owns_upd:
  assumes "B + queue_owns (queue (f (heap w r))) \<subseteq># A + queue_owns (queue (heap w r))"
    and "r < next_ref w \<or> B = {#}"
  shows "B + heap_owns (upd_registry r f w) \<subseteq># A + heap_owns w"
  unfolding heap_owns_def upd_registry_frame(1) by (rule sum_upd[where r = r]) (use assms in simp_all)

lemma owned_mono:
  assumes "owned S w" and "thread_args_store v = thread_args_store w"
    and "T + thread_owns (threads v) + heap_owns v \<subseteq># S + thread_owns (threads w) + heap_owns w"
  shows "owned T v"
  using assms mset_subset_eq_count[OF assms(3)] unfolding owned_def by (metis order_trans)

lemma sys_ok_frame:
  assumes "core v = core w" and "fd_core v = fd_core w"
  shows "sys_ok S v = sys_ok S w"
  using core_eqD[OF assms(1)] assms(2) world_ok_core[OF assms(1)]
  by (simp add: sys_ok_def fd_ok_def owned_def heap_owns_def waiting_def fd_core_def)

section \<open>Operations on queues\<close>

text \<open>
  An update of one registry that leaves its place in the forest and its counter: \<open>A\<close> goes
  from the stack into the queue, \<open>B\<close> from the queue onto the stack.
\<close>

lemma sys_ok_queue:
  assumes "sys_ok (A + S) w" and v: "heap v = (heap w)(r := (heap w r)\<lparr>queue := q\<rparr>)" "next_ref v = next_ref w"
      "registries v = registries w" "clock v = clock w" "fd_core v = fd_core w"
    and "queue_ok q" and "ids_counted v" and "B + queue_owns q \<subseteq># A + queue_owns (queue (heap w r))"
    and "r < next_ref w \<or> B = {#}"
  shows "sys_ok (B + S) v"
proof -
  have "world_ok v" using assms(1,7,8) v by (intro world_ok_queue[of w v r q]) (simp_all add: sys_ok_def)
  moreover have "fd_ok v" using assms(1) v by (auto simp: sys_ok_def fd_ok_def waiting_def fd_core_def)
  moreover have "owned (B + S) v"
  proof (rule owned_mono)
    show "owned (A + S) w" using assms(1) by (simp add: sys_ok_def)
    have "B + heap_owns (upd_registry r (\<lambda>g. g\<lparr>queue := q\<rparr>) w) \<subseteq># A + heap_owns w"
      by (rule heap_owns_upd) (use assms(9,10) in simp_all)
    moreover have "heap_owns (upd_registry r (\<lambda>g. g\<lparr>queue := q\<rparr>) w) = heap_owns v"
      using v by (simp add: heap_owns_def upd_registry_def)
    ultimately have "(B + heap_owns v) + (S + thread_owns (threads w)) \<subseteq># (A + heap_owns w) + (S + thread_owns (threads w))"
      by simp
    then show "B + S + thread_owns (threads v) + heap_owns v \<subseteq># A + S + thread_owns (threads w) + heap_owns w"
      using v(5) by (simp add: ac_simps fd_core_def)
    show "thread_args_store v = thread_args_store w" using v(5) by (simp add: fd_core_def)
  qed
  ultimately show ?thesis by (simp add: sys_ok_def)
qed

lemma timestamp_in_frame:
  "core (snd (timestamp_in s w)) = core w" "fd_core (snd (timestamp_in s w)) = fd_core w"
  by (auto simp: timestamp_in_def get_current_time_def core_def fd_core_def split: option.split)

lemma add_sys_ok:
  assumes "sys_ok (later_arg f + S) w" and "r < next_ref w" and "add r f secs w = (x, w')"
  shows "sys_ok S w'"
proof (cases "addSeconds (clock w (tick w)) secs")
  case None
  have "sys_ok (later_arg f + S) (w\<lparr>tick := Suc (tick w)\<rparr>)"
    using assms(1) sys_ok_frame[of "w\<lparr>tick := Suc (tick w)\<rparr>" w] by (simp add: core_def fd_core_def)
  then have "sys_ok S (w\<lparr>tick := Suc (tick w)\<rparr>)"
    by (auto simp: sys_ok_def intro: owned_mono)
  then show ?thesis using assms(3) by (auto simp: add_Inl[OF None])
next
  case (Some t)
  let ?w = "w\<lparr>tick := Suc (tick w), nextCallbackId := nextCallbackId w + 1, made := Suc (made w)\<rparr>"
  let ?cb = "\<lparr>cbWhen = t, callbackId = nextCallbackId w, func = f\<rparr>"
  let ?q = "sset_insert callback_less ?cb (queue (heap w r))"
  let ?v = "upd_registry r (queue_insert ?cb) ?w"
  have ok: "queues_ok w" "ids_counted w" using assms(1) by (simp_all add: sys_ok_def world_ok_def)
  have "ts_normal (clock w (tick w))" using monotonic_clockD(1)[OF queues_ok_clock[OF ok(1)]] .
  then have nt: "ts_normal t" using Some by (rule_tac addSeconds_normal)
  have "sys_ok ({#} + S) ?v" using assms(1)
  proof (rule sys_ok_queue)
    show "heap ?v = (heap w)(r := (heap w r)\<lparr>queue := ?q\<rparr>)" by (simp add: upd_registry_def queue_insert_def)
    show "queue_ok ?q" using ok(1) nt by (simp add: queues_ok_def queue_ok_insert)
    show "ids_counted ?v" by (rule ids_counted_add[OF ok(2) assms(2)])
    show "{#} + queue_owns ?q \<subseteq># later_arg f + queue_owns (queue (heap w r))"
      using queue_owns_insert[of callback_less ?cb] by simp
  qed (simp_all add: fd_core_def)
  moreover have "w' = cond_signal ?v" using assms(3) by (simp add: add_Inr[OF Some])
  ultimately show ?thesis 
    using sys_ok_frame[of "cond_signal ?v" ?v S] by (simp add: cond_signal_def core_def fd_core_def)
qed

lemma cancel_sys_ok:
  assumes "sys_ok S w"
  shows "sys_ok S (snd (cancel r i w))"
proof -
  let ?q = "erase_first (\<lambda>cb. callbackId cb = i) (queue (heap w r))"
  let ?u = "upd_registry r (\<lambda>g. g\<lparr>queue := ?q\<rparr>) w"
  have c: "snd (cancel r i w) = note_cancel (\<exists>cb \<in> set (queue (heap w r)). callbackId cb = i) i ?u"
    by (simp add: cancel_def cancel_in_eq Let_def)
  have ok: "queues_ok w" "ids_counted w" using assms by (simp_all add: sys_ok_def world_ok_def)
  have "sys_ok ({#} + S) (snd (cancel r i w))" unfolding c
  proof (rule sys_ok_queue[where A = "{#}"])
    show "sys_ok ({#} + S) w" using assms by simp
    show "queue_ok ?q" using ok(1) by (simp add: queues_ok_def queue_ok_erase)
    show "ids_counted (note_cancel (\<exists>cb \<in> set (queue (heap w r)). callbackId cb = i) i ?u)"
    proof (cases "\<exists>cb \<in> set (queue (heap w r)). callbackId cb = i")
      case True
      then obtain cb where "cb \<in> set (queue (heap w r))" "callbackId cb = i" by blast
      then have "ids_counted (?u\<lparr>trace := trace w @ [EvCancel i]\<rparr>)"
        using ids_counted_out[OF ok(2), of cb r ?q "EvCancel i"] by simp
      then show ?thesis using True by (simp only: note_cancel_def if_True upd_registry_frame)
    next
      case False
      then have "?q = queue (heap w r)" by (intro erase_first_id) blast
      then show ?thesis using False ok(2) by (simp add: note_cancel_def ids_counted_upd)
    qed
  qed (auto simp: note_cancel_def upd_registry_def fd_core_def queue_owns_erase)
  then show ?thesis by simp
qed

text \<open>Taking a callback hands its object to the caller, and retires its id.\<close>

lemma pop_sys_ok:
  assumes "sys_ok S w" and "r < next_ref w"
  shows "case pop r t w of
      (None, w') \<Rightarrow> w' = w
    | (Some cb, w') \<Rightarrow> sys_ok (later_arg (func cb) + S) (note_invoke r cb w')"
proof (cases rule: pop_cases[of r t w])
  case 1
  then show ?thesis by simp
next
  case (2 cb q)
  let ?u = "upd_registry r (\<lambda>g. g\<lparr>queue := q\<rparr>) w"
  have ok: "queue_ok (queue (heap w r))" "ids_counted w"
    using assms(1) by (simp_all add: sys_ok_def world_ok_def queues_ok_def)
  have "sys_ok (later_arg (func cb) + S) (note_invoke r cb ?u)"
  proof (rule sys_ok_queue[where A = "{#}"])
    show "sys_ok ({#} + S) w" using assms(1) by simp
    show "queue_ok q" using ok(1) 2(1) queue_ok_Cons[of cb q] by simp
    show "ids_counted (note_invoke r cb ?u)"
    proof -
      have "cb \<in> set (queue (heap w r))" "q = erase_first (\<lambda>c. callbackId c = callbackId cb) (queue (heap w r))"
        using 2(1) by simp_all
      from ids_counted_out[OF ok(2) this disjI2[OF refl], of "getId ?u r"] show ?thesis
        by (simp only: note_invoke_def upd_registry_frame)
    qed
    show "later_arg (func cb) + queue_owns q \<subseteq># {#} + queue_owns (queue (heap w r))" using 2(1) by simp
    show "heap (note_invoke r cb ?u) = (heap w)(r := (heap w r)\<lparr>queue := q\<rparr>)"
      by (simp add: note_invoke_def upd_registry_def)
  qed (simp_all add: note_invoke_def fd_core_def assms(2))
  then show ?thesis using 2(3) by simp
qed

lemma timer_set_frame: "fd_core (timer_set t w) = fd_core w"
  by (simp add: timer_set_def upd_timer_def fd_core_def)

lemma timer_set_sys_ok: "sys_ok S (timer_set t w) = sys_ok S w"
  by (rule sys_ok_frame) (rule timer_set_core timer_set_frame)+

lemma deref_timestamp_sys_ok: "sys_ok S (snd (deref_timestamp m w)) = sys_ok S w"
  by (rule sys_ok_frame)
     (auto simp: deref_timestamp_def timestamp_now_def get_current_time_def core_def fd_core_def split: option.splits)

lemma doExecLater_sys_ok:
  assumes "sys_ok (later_arg f + S) w" and "r < next_ref w" and "doExecLater r f secs b w = (x, w')"
  shows "sys_ok S w'"
proof -
  obtain y w1 where a: "add r f secs w = (y, w1)" by (cases "add r f secs w")
  note w1 = add_sys_ok[OF assms(1,2) a]
  show ?thesis using assms(3) a w1 deref_timestamp_sys_ok[of S]
    by (auto simp: doExecLater_def timer_set_sys_ok split: prod.splits sum.splits if_splits) (metis snd_conv)
qed

lemma sys_ok_weaken: "sys_ok (A + S) w \<Longrightarrow> sys_ok S w"
  by (auto simp: sys_ok_def intro: owned_mono)

lemma getRegistry_lt: "sys_ok S w \<Longrightarrow> getRegistry w i = Some r \<Longrightarrow> r < next_ref w"
  using forest_okD(2)[of w i r] by (simp add: sys_ok_def world_ok_def)

lemma scheduleCallback_sys_ok:
  assumes "sys_ok (later_arg f + S) w" and "scheduleCallback f secs i w = (x, w')"
  shows "sys_ok S w'"
  using assms doExecLater_sys_ok[OF assms(1) getRegistry_lt[OF assms(1)]] sys_ok_weaken[OF assms(1)]
  by (auto simp: scheduleCallback_def split: option.splits)

section \<open>Operations on the table\<close>

text \<open>They touch no queue and no counter of an existing registry.\<close>

lemma sys_ok_table:
  assumes "sys_ok S w" and "world_ok v" and "next_ref w \<le> next_ref v"
    and "\<And>r. r < next_ref w \<Longrightarrow> queue (heap v r) = queue (heap w r) \<and> fd_waits (heap v r) = fd_waits (heap w r)"
    and "\<And>r. next_ref w \<le> r \<Longrightarrow> r < next_ref v \<Longrightarrow> queue (heap v r) = [] \<and> fd_waits (heap v r) = 0"
    and "fd_core v = fd_core w"
  shows "sys_ok S v"
proof -
  have st: "thread_args_store v = thread_args_store w" "next_args v = next_args w" "threads v = threads w"
    using assms(6) by (simp_all add: fd_core_def)
  have f: "fd_ok w" and o: "owned S w" using assms(1) by (simp_all add: sys_ok_def)
  have wt: "waiting v = waiting w" by (simp add: waiting_def st fun_eq_iff)
  have none: "waiting w r = {}" if "next_ref w \<le> r" for r
    using f that by (fastforce simp: waiting_def fd_ok_def)
  have "fd_ok v" unfolding fd_ok_def wt st
  proof (intro conjI allI impI)
    show "k < next_args w" "ta_registry a < next_ref v" if "thread_args_store w k = Some a" for k a
      using f that assms(3) by (auto simp: fd_ok_def intro: less_le_trans)
    show "fd_waits (heap v r) = int (card (waiting w r)) \<or> next_ref v \<le> r" for r
    proof (cases "r < next_ref w")
      case True
      then show ?thesis using f assms(4)[OF True] by (auto simp: fd_ok_def dest: spec[of _ r])
    next
      case False
      then show ?thesis using assms(5)[of r] none[of r] by (cases "r < next_ref v") auto
    qed
  qed
  moreover have "heap_owns v = heap_owns w"
  proof -
    have "(\<Sum>r < next_ref v. queue_owns (queue (heap v r))) = (\<Sum>r < next_ref w. queue_owns (queue (heap v r)))"
      using assms(3,5) by (intro sum.mono_neutral_right) auto
    also have "\<dots> = (\<Sum>r < next_ref w. queue_owns (queue (heap w r)))"
      using assms(4) by (intro sum.cong) auto
    finally show ?thesis by (simp add: heap_owns_def)
  qed
  then have "owned S v" using o by (simp add: owned_def st)
  ultimately show ?thesis using assms(2) by (simp add: sys_ok_def)
qed

lemma create_frame:
  assumes "create i pid w = (x, w')"
  shows "next_ref w \<le> next_ref w'" and "fd_core w' = fd_core w"
    and "r < next_ref w \<Longrightarrow> queue (heap w' r) = queue (heap w r) \<and> fd_waits (heap w' r) = fd_waits (heap w r)"
    and "next_ref w \<le> r \<Longrightarrow> r < next_ref w' \<Longrightarrow> queue (heap w' r) = [] \<and> fd_waits (heap w' r) = 0"
proof -
  have "next_ref w \<le> next_ref w' \<and> fd_core w' = fd_core w \<and>
    (r < next_ref w \<longrightarrow> queue (heap w' r) = queue (heap w r) \<and> fd_waits (heap w' r) = fd_waits (heap w r)) \<and>
    (next_ref w \<le> r \<and> r < next_ref w' \<longrightarrow> queue (heap w' r) = [] \<and> fd_waits (heap w' r) = 0)"
  proof (cases rule: create_cases[of i w pid])
    case 1
    then show ?thesis using assms by auto
  next
    case 2
    then show ?thesis using assms by (auto simp: fd_core_def new_object_def)
  next
    case (3 po)
    then show ?thesis using assms
      by (cases po) (auto simp: link_def fd_core_def new_object_def table_put_def upd_registry_def)
  qed
  then show "next_ref w \<le> next_ref w'" and "fd_core w' = fd_core w"
    and "r < next_ref w \<Longrightarrow> queue (heap w' r) = queue (heap w r) \<and> fd_waits (heap w' r) = fd_waits (heap w r)"
    and "next_ref w \<le> r \<Longrightarrow> r < next_ref w' \<Longrightarrow> queue (heap w' r) = [] \<and> fd_waits (heap w' r) = 0"
    by blast+
qed

lemma create_sys_ok:
  assumes "sys_ok S w" and "create i pid w = (x, w')"
  shows "sys_ok S w'"
  using assms(1) create_world_ok[OF _ assms(2)] create_frame[OF assms(2)]
  by (intro sys_ok_table[OF assms(1)]) (simp_all add: sys_ok_def)

lemma fold_orphan_fd_core: "fd_core (fold orphan cs w) = fd_core w"
  by (induction cs arbitrary: w) (simp_all add: orphan_def fd_core_def)

lemma fold_orphan_heap:
  "queue (heap (fold orphan cs w) r) = queue (heap w r)"
  "fd_waits (heap (fold orphan cs w) r) = fd_waits (heap w r)"
  by (simp_all add: heap_fold_orphan)

lemma remove_frame:
  "next_ref (snd (remove i w)) = next_ref w" "fd_core (snd (remove i w)) = fd_core w"
  "queue (heap (snd (remove i w)) r) = queue (heap w r)"
  "fd_waits (heap (snd (remove i w)) r) = fd_waits (heap w r)"
proof -
  have "fd_core (w\<lparr>registries := m\<rparr>) = fd_core w" "fd_core (upd_registry p f w) = fd_core w" for m p f w
    by (simp_all add: fd_core_def)
  then show "next_ref (snd (remove i w)) = next_ref w" "fd_core (snd (remove i w)) = fd_core w"
    "queue (heap (snd (remove i w)) r) = queue (heap w r)"
    "fd_waits (heap (snd (remove i w)) r) = fd_waits (heap w r)"
    by (simp_all add: remove_def Let_def fold_orphan_heap fold_orphan_fd_core split: option.split)
qed

lemma remove_sys_ok:
  assumes "sys_ok S w"
  shows "sys_ok S (snd (remove i w))"
  using assms remove_world_ok[of w i]
  by (intro sys_ok_table[OF assms]) (simp_all add: remove_frame sys_ok_def)

lemma prune_step_sys_ok: "sys_ok S w \<Longrightarrow> sys_ok S (prune_step i w)"
  by (auto simp: prune_step_def remove_sys_ok split: option.split)

lemma pruneRegistries_sys_ok: "sys_ok S w \<Longrightarrow> sys_ok S (pruneRegistries w)"
  unfolding pruneRegistries_def
  by (rule fold_invariant[where Q = "\<lambda>_. True" and P = "sys_ok S"]) (simp_all add: prune_step_sys_ok)

lemma notifyRRefDeleted_sys_ok:
  assumes "sys_ok S w"
  shows "sys_ok S (snd (notifyRRefDeleted i w))"
proof -
  have "sys_ok S (table_put i (h\<lparr>r_ref_exists := b\<rparr>) w)" if "smap_find (registries w) i = Some h" for h b
    using assms table_put_same(1,3,4)[OF _ that, of b]
    by (intro sys_ok_table[OF assms]) (simp_all add: sys_ok_def fd_core_def table_put_def)
  then show ?thesis using assms
    by (auto simp: notifyRRefDeleted_def pruneRegistries_sys_ok split: option.split)
qed

section \<open>Operations on ThreadArgs\<close>

lemma sys_okD:
  assumes "sys_ok S w"
  shows "world_ok w" and "fd_ok w" and "owned S w"
  using assms by (simp_all add: sys_ok_def)

text \<open>An owner's object is there; no one else owns it.\<close>

lemma owned_alive:
  assumes "owned S w" and "k \<in># S + thread_owns (threads w) + heap_owns w"
  obtains a where "thread_args_store w k = Some a"
    and "count (S + thread_owns (threads w) + heap_owns w) k = 1"
proof -
  obtain n where n: "n = count (S + thread_owns (threads w) + heap_owns w) k" by simp
  have "0 < n" using assms(2) unfolding n by (simp only: count_greater_zero_iff)
  moreover have le: "n \<le> (if thread_args_store w k = None then 0 else 1)"
    unfolding n using assms(1) unfolding owned_def by blast
  ultimately obtain a where a: "thread_args_store w k = Some a" by (cases "thread_args_store w k") auto
  have one: "n = 1" using \<open>0 < n\<close> le a by simp
  show thesis by (rule that[OF a]) (use one n in \<open>simp only:\<close>)
qed

lemma heap_owns_fd_waits [simp]:
  "heap_owns (fd_waits_incr r w) = heap_owns w" "heap_owns (fd_waits_decr r w) = heap_owns w"
  unfolding heap_owns_def fd_waits_incr_def fd_waits_decr_def by (auto intro!: sum.cong)

lemma heap_owns_frame:
  "heap v = heap w \<Longrightarrow> next_ref v = next_ref w \<Longrightarrow> heap_owns v = heap_owns w"
  by (simp add: heap_owns_def)

lemma waiting_finite: "fd_ok w \<Longrightarrow> finite (waiting w r)"
  by (rule finite_subset[of _ "{..< next_args w}"]) (auto simp: waiting_def fd_ok_def)

lemma delete_args_sys_ok:
  assumes "sys_ok ({#k#} + S) w"
  shows "sys_ok S (delete_args k w)"
proof -
  note ok = sys_okD[OF assms]
  obtain a where a: "thread_args_store w k = Some a"
    and one: "count ({#k#} + S + thread_owns (threads w) + heap_owns w) k = 1"
    by (rule owned_alive[OF ok(3), of k]) simp
  let ?v = "delete_args k w"
  have v: "?v = (fd_waits_decr (ta_registry a) w)\<lparr>thread_args_store := (thread_args_store w)(k := None)\<rparr>"
    by (simp add: delete_args_def a)
  have "world_ok ?v"
    using world_ok_core[of ?v "fd_waits_decr (ta_registry a) w"] fd_waits_world_ok(2)[OF ok(1)]
    by (simp add: v core_def)
  moreover have "fd_ok ?v" unfolding fd_ok_def
  proof (intro conjI allI impI)
    show "j < next_args ?v" "ta_registry b < next_ref ?v" if "thread_args_store ?v j = Some b" for j b
      using ok(2) that by (auto simp: fd_ok_def v fd_waits_decr_def split: if_splits)
    have w: "waiting ?v r = waiting w r - {k}" for r by (auto simp: waiting_def v)
    have k: "k \<in> waiting w r \<longleftrightarrow> r = ta_registry a" for r by (auto simp: waiting_def a)
    have "int (card (waiting w r - {k})) = int (card (waiting w r)) - (if r = ta_registry a then 1 else 0)" for r
      using waiting_finite[OF ok(2), of r] k[of r] card_gt_0_iff[of "waiting w r"]
      by (auto simp: card_Diff_singleton of_nat_diff Suc_le_eq)
    then show "fd_waits (heap ?v r) = int (card (waiting ?v r)) \<or> next_ref ?v \<le> r" for r
      using ok(2) by (simp add: w fd_ok_def) (auto simp: v fd_waits_decr_def)
  qed
  moreover have "owned S ?v" unfolding owned_def
  proof
    fix j
    have h: "heap_owns ?v = heap_owns w"
      using heap_owns_frame[of ?v "fd_waits_decr (ta_registry a) w"] by (simp add: v)
    have "count (S + thread_owns (threads w) + heap_owns w) j \<le> (if j = k \<or> thread_args_store w j = None then 0 else 1)"
      using one ok(3)[unfolded owned_def, rule_format, of j] by (auto split: if_splits)
    then show "count (S + thread_owns (threads ?v) + heap_owns ?v) j
        \<le> (if thread_args_store ?v j = None then 0 else 1)"
      unfolding h by (cases "thread_args_store w j") (auto simp: v fd_waits_decr_def)
  qed
  ultimately show ?thesis by (simp add: sys_ok_def)
qed

lemma createTimestamp_sys_ok: "createTimestamp t w = (x, w') \<Longrightarrow> sys_ok S w' = sys_ok S w"
  unfolding createTimestamp_def using timestamp_in_frame sys_ok_frame by (metis snd_conv)

lemma new_thread_args_sys_ok:
  assumes "sys_ok S w" and "new_thread_args f fds t l w = (x, w')"
  shows "sys_ok ((case x of Inl _ \<Rightarrow> {#} | Inr k \<Rightarrow> {#k#}) + S) w'"
proof -
  obtain y w1 where c: "createTimestamp t w = (y, w1)" by (cases "createTimestamp t w")
  have ok1: "sys_ok S w1" using createTimestamp_sys_ok[OF c] assms(1) by simp
  let ?w2 = "w1\<lparr>actives := (actives w1)(next_active w1 := True), next_active := Suc (next_active w1)\<rparr>"
  have ok2: "sys_ok S ?w2" using ok1 sys_ok_frame[of ?w2 w1] by (simp add: core_def fd_core_def)
  show ?thesis
  proof (cases y)
    case (Inl e)
    then show ?thesis using assms(2) c ok1 by (auto simp: new_thread_args_def)
  next
    case (Inr ts)
    show ?thesis
    proof (cases "getRegistry ?w2 l")
      case None
      then show ?thesis using assms(2) c ok2 Inr by (auto simp: new_thread_args_def Let_def)
    next
      case (Some r)
      let ?k = "next_args w1"
      let ?a = "\<lparr>ta_timeout = ts, ta_active = next_active w1, ta_callback = f, ta_fds = fds,
        ta_results = replicate (length fds) 0, ta_loop = l, ta_registry = r\<rparr>"
      let ?v = "(fd_waits_incr r ?w2)\<lparr>thread_args_store := (thread_args_store w1)(?k \<mapsto> ?a), next_args := Suc ?k\<rparr>"
      have x: "x = Inr ?k" and w': "w' = ?v"
        using assms(2) c Inr Some by (auto simp: new_thread_args_def Let_def fd_waits_incr_def)
      note ok = sys_okD[OF ok2]
      have r: "r < next_ref w1" using ok(1) Some forest_okD(2)[of ?w2 l r] by (simp add: world_ok_def)
      have fresh: "thread_args_store w1 j = None" if "?k \<le> j" for j
        using fd_okD(1)[OF ok(2), of j] that by (cases "thread_args_store w1 j") auto
      have "world_ok ?v"
        using world_ok_core[of ?v "fd_waits_incr r ?w2"] fd_waits_world_ok(1)[OF ok(1)] by (simp add: core_def)
      moreover have "fd_ok ?v" unfolding fd_ok_def
      proof (intro conjI allI impI)
        show "j < next_args ?v" "ta_registry b < next_ref ?v" if "thread_args_store ?v j = Some b" for j b
          using ok(2) that r by (auto simp: fd_ok_def fd_waits_incr_def intro: less_SucI split: if_splits)
        have w: "waiting ?v s = (if s = r then insert ?k (waiting ?w2 s) else waiting ?w2 s)" for s
          using fresh[of ?k] by (auto simp: waiting_def)
        have k: "?k \<notin> waiting ?w2 s" for s using fresh[of ?k] by (simp add: waiting_def)
        show "fd_waits (heap ?v s) = int (card (waiting ?v s)) \<or> next_ref ?v \<le> s" for s
        proof -
          have "fd_waits (heap ?w2 s) = int (card (waiting ?w2 s)) \<or> next_ref ?w2 \<le> s"
            using ok(2) unfolding fd_ok_def by blast
          moreover have "fd_waits (heap ?v s) = fd_waits (heap ?w2 s) + (if s = r then 1 else 0)"
            "next_ref ?v = next_ref ?w2" by (simp_all add: fd_waits_incr_def)
          ultimately show ?thesis unfolding w
            using k[of s] waiting_finite[OF ok(2), of s] r by (cases "s = r") simp_all
        qed
      qed
      moreover have "owned ({#?k#} + S) ?v" unfolding owned_def
      proof
        fix j
        have h: "heap_owns ?v = heap_owns ?w2"
          using heap_owns_frame[of ?v "fd_waits_incr r ?w2"] by simp
        show "count ({#?k#} + S + thread_owns (threads ?v) + heap_owns ?v) j
            \<le> (if thread_args_store ?v j = None then 0 else 1)"
          unfolding h using ok(3)[unfolded owned_def, rule_format, of j] fresh[of ?k]
          by (auto simp: fd_waits_incr_def split: if_splits)
      qed
      ultimately show ?thesis by (simp add: x w' sys_ok_def)
    qed
  qed
qed

lemma thread_owns_append [simp]: "thread_owns (xs @ ys) = thread_owns xs + thread_owns ys"
  by (simp add: thread_owns_def)

lemma start_thread_sys_ok:
  assumes "sys_ok ({#k#} + S) w" and "start_thread k w = (b, w')"
  shows "sys_ok S w'"
proof (cases "spawn_ok w k")
  case True
  then have w': "w' = w\<lparr>threads := threads w @ [\<lparr>wt_args = k, wt_pc = WStart\<rparr>]\<rparr>"
    using assms(2) by (auto simp: start_thread_def)
  have "world_ok w'" using sys_okD(1)[OF assms(1)] world_ok_core[of w' w] by (simp add: w' core_def)
  moreover have "fd_ok w'" using sys_okD(2)[OF assms(1)] by (simp add: w' fd_ok_def waiting_def)
  moreover have "owned S w'"
    by (rule owned_mono[OF sys_okD(3)[OF assms(1)]])
       (simp_all add: w' thread_owns_def running_def heap_owns_def)
  ultimately show ?thesis by (simp add: sys_ok_def)
next
  case False
  then show ?thesis using assms sys_ok_weaken[of "{#k#}" S w] by (simp add: start_thread_def)
qed

lemma execLater_fd_impl_sys_ok:
  assumes "sys_ok S w" and "execLater_fd_impl f fds t l w = (x, w')"
  shows "sys_ok S w'"
proof -
  obtain y w1 where n: "new_thread_args f fds t l w = (y, w1)" by (cases "new_thread_args f fds t l w")
  note ok = new_thread_args_sys_ok[OF assms(1) n]
  show ?thesis
  proof (cases y)
    case (Inl e)
    then show ?thesis using assms(2) n ok by (auto simp: execLater_fd_impl_def)
  next
    case (Inr k)
    obtain b w2 where st: "start_thread k w1 = (b, w2)" by (cases "start_thread k w1")
    have "sys_ok S w2" using ok Inr by (intro start_thread_sys_ok[OF _ st]) simp
    then show ?thesis using assms(2) n Inr st by (simp add: execLater_fd_impl_def split: if_splits)
  qed
qed

lemma execLater_fd_native_sys_ok:
  assumes "sys_ok S w" and "execLater_fd_native f fds t l w = (x, w')"
  shows "sys_ok S w'"
proof -
  obtain y w1 where n: "new_thread_args f fds t l w = (y, w1)" by (cases "new_thread_args f fds t l w")
  note ok = new_thread_args_sys_ok[OF assms(1) n]
  show ?thesis
  proof (cases y)
    case (Inl e)
    then show ?thesis using assms(2) n ok by (auto simp: execLater_fd_native_def)
  next
    case (Inr k)
    obtain b w2 where st: "start_thread k w1 = (b, w2)" by (cases "start_thread k w1")
    have "sys_ok S w2" using ok Inr by (intro start_thread_sys_ok[OF _ st]) simp
    then show ?thesis using assms(2) n Inr st by (simp add: execLater_fd_native_def)
  qed
qed

section \<open>The wait thread\<close>

definition own1 :: "wait_thread \<Rightarrow> nat multiset" where
  "own1 t = (if running t then {#wt_args t#} else {#})"

lemma thread_owns_update:
  "i < length ts \<Longrightarrow> thread_owns (ts[i := t]) + own1 (ts ! i) = thread_owns ts + own1 t"
proof (induction ts arbitrary: i)
  case (Cons u ts)
  then show ?case by (cases i) (auto simp: thread_owns_def own1_def ac_simps)
qed simp

lemma own1_thread_owns: "i < length ts \<Longrightarrow> own1 (ts ! i) \<subseteq># thread_owns ts"
proof (induction ts arbitrary: i)
  case (Cons u ts)
  then show ?case
    by (cases i) (auto simp: thread_owns_def own1_def subset_mset.add_increasing subset_mset.add_increasing2)
qed simp

text \<open>A move of the program counter keeps the object with the thread, or hands it over.\<close>

lemma set_pc_sys_ok:
  assumes "sys_ok S w" and "i < length (threads w)" and "running (threads w ! i)"
  shows "running ((threads w ! i)\<lparr>wt_pc := pc\<rparr>) \<Longrightarrow> sys_ok S (set_pc i pc w)"
    and "\<not> running ((threads w ! i)\<lparr>wt_pc := pc\<rparr>) \<Longrightarrow> sys_ok ({#wt_args (threads w ! i)#} + S) (set_pc i pc w)"
proof -
  have "world_ok (set_pc i pc w)" "fd_ok (set_pc i pc w)"
    using sys_okD[OF assms(1)] world_ok_core[of "set_pc i pc w" w]
    by (simp_all add: set_pc_def core_def fd_ok_def waiting_def)
  moreover have h: "heap_owns (set_pc i pc w) = heap_owns w" by (simp add: heap_owns_def set_pc_def)
  have u: "thread_owns (threads (set_pc i pc w)) + own1 (threads w ! i) =
      thread_owns (threads w) + own1 ((threads w ! i)\<lparr>wt_pc := pc\<rparr>)"
    unfolding set_pc_def by (simp add: thread_owns_update[OF assms(2)])
  have "owned S (set_pc i pc w)" if "running ((threads w ! i)\<lparr>wt_pc := pc\<rparr>)"
    by (rule owned_mono[OF sys_okD(3)[OF assms(1)]])
       (use u that assms(3) h in \<open>simp_all add: own1_def set_pc_def\<close>)
  moreover have "owned ({#wt_args (threads w ! i)#} + S) (set_pc i pc w)"
    if "\<not> running ((threads w ! i)\<lparr>wt_pc := pc\<rparr>)"
  proof (rule owned_mono[OF sys_okD(3)[OF assms(1)]])
    have "thread_owns (threads w) = thread_owns (threads (set_pc i pc w)) + {#wt_args (threads w ! i)#}"
      using u that assms(3) by (simp add: own1_def)
    then show "{#wt_args (threads w ! i)#} + S + thread_owns (threads (set_pc i pc w)) + heap_owns (set_pc i pc w)
        \<subseteq># S + thread_owns (threads w) + heap_owns w"
      by (simp add: h)
  qed (simp add: set_pc_def)
  ultimately show "running ((threads w ! i)\<lparr>wt_pc := pc\<rparr>) \<Longrightarrow> sys_ok S (set_pc i pc w)"
    and "\<not> running ((threads w ! i)\<lparr>wt_pc := pc\<rparr>) \<Longrightarrow> sys_ok ({#wt_args (threads w ! i)#} + S) (set_pc i pc w)"
    by (simp_all add: sys_ok_def)
qed

text \<open>Changing an object in place.\<close>

lemma sys_ok_store:
  assumes "sys_ok S w" and "thread_args_store w k = Some a" and "ta_registry b = ta_registry a"
  shows "sys_ok S (w\<lparr>thread_args_store := (thread_args_store w)(k \<mapsto> b)\<rparr>)" (is "sys_ok S ?v")
proof -
  have wt: "waiting ?v r = waiting w r" for r using assms(2,3) by (auto simp: waiting_def)
  have "world_ok ?v" using sys_okD(1)[OF assms(1)] world_ok_core[of ?v w] by (simp add: core_def)
  moreover have "fd_ok ?v" unfolding fd_ok_def wt
    using fd_okD[OF sys_okD(2)[OF assms(1)]] assms(2,3) by (auto simp: not_less[symmetric])
  moreover have "owned S ?v" unfolding owned_def
  proof
    fix j
    have "heap_owns ?v = heap_owns w" by (rule heap_owns_frame) simp_all
    then show "count (S + thread_owns (threads ?v) + heap_owns ?v) j \<le> (if thread_args_store ?v j = None then 0 else 1)"
      using sys_okD(3)[OF assms(1), unfolded owned_def, rule_format, of j] assms(2) by auto
  qed
  ultimately show ?thesis by (simp add: sys_ok_def)
qed

lemma running_simps [simp]:
  "running t \<longleftrightarrow> (\<forall>c. wt_pc t \<noteq> WExit c)"
  by (simp add: running_def split: wait_pc.split)

lemma enter_poll_running [simp]: "enter_poll x \<noteq> WExit c"
  by (simp add: enter_poll_def Let_def)

lemma wait_step_sys_ok:
  assumes ok: "sys_ok S w" and i: "i < length (threads w)"
  shows "\<exists>v. wait_step i ready revents w = Some v \<and> sys_ok S v"
proof (cases "running (threads w ! i)")
  case False
  then obtain c where "wt_pc (threads w ! i) = WExit c" by auto
  then show ?thesis using ok by (simp add: wait_step_def)
next
  case True
  define k where "k = wt_args (threads w ! i)"
  have "k \<in># thread_owns (threads w)"
    using own1_thread_owns[OF i] True by (simp add: own1_def k_def)
  then obtain a where a: "thread_args_store w k = Some a"
    by (elim owned_alive[OF sys_okD(3)[OF ok], of k, OF iffD2[OF union_iff, OF disjI1[OF iffD2[OF union_iff, OF disjI2]]]])
  have tick: "sys_ok S (w\<lparr>tick := n\<rparr>)" for n
    using ok sys_ok_frame[of "w\<lparr>tick := n\<rparr>" w] by (simp add: core_def fd_core_def)
  note pc = set_pc_sys_ok[where i = i]
  show ?thesis
  proof (cases "wt_pc (threads w ! i)")
    case WStart
    then show ?thesis using a i tick True
      by (auto simp: wait_step_def k_def timestamp_now_def get_current_time_def intro!: pc(1))
  next
    case (WPoll ms)
    then show ?thesis using a i True sys_ok_store[OF ok a, of "a\<lparr>ta_fds := set_revents revents (ta_fds a)\<rparr>"]
      by (auto simp: wait_step_def k_def intro!: pc(1))
  next
    case (WCheck rdy)
    show ?thesis
    proof (cases "actives w (ta_active a)")
      case False
      then show ?thesis using a i True WCheck pc(2)[OF ok i True, of "WExit 1"]
        by (auto simp: wait_step_def k_def intro!: delete_args_sys_ok)
    next
      case act: True
      then show ?thesis using a i True WCheck ok tick
        by (auto simp: wait_step_def k_def timestamp_now_def get_current_time_def Let_def intro!: pc(1))
    qed
  next
    case (WSchedule rdy)
    let ?b = "a\<lparr>ta_results := wait_results rdy (ta_fds a) (ta_results a)\<rparr>"
    let ?w = "w\<lparr>thread_args_store := (thread_args_store w)(k \<mapsto> ?b)\<rparr>"
    have "sys_ok ({#k#} + S) (set_pc i (WExit 0) ?w)"
      using pc(2)[OF sys_ok_store[OF ok a, of ?b], of "WExit 0"] i True by (simp add: k_def)
    then have "sys_ok S (snd (scheduleCallback (LaterCallback k) (Fin 0) (ta_loop a) (set_pc i (WExit 0) ?w)))"
      by (intro scheduleCallback_sys_ok[where f = "LaterCallback k", OF _ prod.collapse[symmetric]]) simp
    then show ?thesis using a WSchedule by (simp add: wait_step_def k_def Let_def)
  next
    case (WExit c)
    then show ?thesis using True by simp
  qed
qed

section \<open>The callback\<close>

lemma leaves_frame_delete: "sys_ok ({#k#} + S) w \<Longrightarrow> sys_ok S (if leaves_frame x then delete_args k w else w)"
  using delete_args_sys_ok[of k S w] sys_ok_weaken[of "{#k#}" S w] by simp

text \<open>How a call of \<open>later_callback\<close> on a live object goes.\<close>

lemma later_callback_cases:
  assumes "thread_args_store w k = Some a" and "later_callback run k w = Some (x, w')"
  obtains (cancelled) "\<not> actives w (ta_active a)" and "x = Inr ()"
      and "w' = delete_args k (w\<lparr>actives := (actives w)(ta_active a := False)\<rparr>)"
    | (run) p z v where "actives w (ta_active a)"
      and "run p (w\<lparr>actives := (actives w)(ta_active a := False),
                  trace := trace w @ [EvFdCallback k (ta_results a)]\<rparr>) = Some (z, v)"
      and "x = z \<or> x = unwind_protect z" and "w' = (if leaves_frame x then delete_args k v else v)"
proof (cases "actives w (ta_active a)")
  case False
  then show thesis using assms cancelled by (auto simp: later_callback_def)
next
  case True
  show thesis
  proof (cases "ta_callback a")
    case (FdFunction g)
    with assms True run show thesis by (force simp: later_callback_def split: prod.splits option.splits)
  next
    case (FdNative g)
    with assms True run show thesis by (force simp: later_callback_def split: prod.splits option.splits)
  qed
qed

lemma later_callback_sys_ok:
  assumes run: "\<And>S p w x w'. sys_ok S w \<Longrightarrow> run p w = Some (x, w') \<Longrightarrow> sys_ok S w'"
    and ok: "sys_ok ({#k#} + S) w" and r: "later_callback run k w = Some (x, w')"
  shows "sys_ok S w'"
proof -
  obtain a where a: "thread_args_store w k = Some a"
    by (rule owned_alive[OF sys_okD(3)[OF ok], of k]) simp
  let ?w1 = "w\<lparr>actives := (actives w)(ta_active a := False)\<rparr>"
  let ?w2 = "?w1\<lparr>trace := trace w @ [EvFdCallback k (ta_results a)]\<rparr>"
  have ok1: "sys_ok ({#k#} + S) ?w1" and ok2: "sys_ok ({#k#} + S) ?w2"
    using ok sys_ok_frame[of ?w1 w] sys_ok_frame[of ?w2 w] by (simp_all add: core_def fd_core_def)
  from a r show ?thesis
  proof (cases rule: later_callback_cases)
    case cancelled
    then show ?thesis using delete_args_sys_ok[OF ok1] by simp
  next
    case (run p z v)
    show ?thesis unfolding run(4) by (rule leaves_frame_delete) (rule assms(1)[OF ok2 run(2)])
  qed
qed

end
