(* ===== verification/Wait.thy ===== *)
theory Wait
  imports FdFacts
begin

text \<open>
  \<open>wait\<close> of \<^verbatim>\<open>callback_registry.cpp\<close>, and what other threads do meanwhile. The loop runs
  as long as the world supplies wake-ups: \<open>None\<close> means that the main thread is still blocked
  when they are used up.
\<close>

section \<open>Other threads\<close>

text \<open>
  A step of another thread that needs the global lock waits while the main thread holds it.
  \<open>BgNative\<close> is a call of \<^verbatim>\<open>execLaterNative2\<close> from a background thread, after the package has
  been initialised.
\<close>

definition needs_lock :: "wait_pc \<Rightarrow> bool" where
  "needs_lock pc = (case pc of WSchedule _ \<Rightarrow> True | _ \<Rightarrow> False)"

definition bg_step :: "bg_event \<Rightarrow> world \<Rightarrow> world option" where
  "bg_step ev w =
     (case ev of
        BgNative p delay loop \<Rightarrow>
          Some (if lock_depth w = 0 then snd (scheduleCallback (NativeFunction p) delay loop w) else w)
      | BgWaitThread i ready revents \<Rightarrow>
          (if i < length (threads w) \<and> (lock_depth w = 0 \<or> \<not> needs_lock (wt_pc (threads w ! i)))
           then wait_step i ready revents w else Some w)
      | BgTimer signalled \<Rightarrow> Some (timer_step signalled w))"

fun bg_run :: "bg_event list \<Rightarrow> world \<Rightarrow> world option" where
  "bg_run [] w = Some w"
| "bg_run (ev # evs) w = Option.bind (bg_step ev w) (bg_run evs)"

section \<open>The lock\<close>

definition lock :: "world \<Rightarrow> world" where
  "lock w = w\<lparr>lock_depth := Suc (lock_depth w)\<rparr>"

definition unlock :: "world \<Rightarrow> world" where
  "unlock w = w\<lparr>lock_depth := lock_depth w - 1\<rparr>"

text \<open>
  \<^verbatim>\<open>condvar->timedwait\<close> gives up one level of the lock, and has it again when it returns. What
  it returns is not looked at, and it may return at any time.
\<close>

definition timedwait :: "rat \<Rightarrow> bg_event list \<Rightarrow> world \<Rightarrow> world option" where
  "timedwait secs evs w = map_option lock (bg_run evs (unlock w))"

section \<open>wait\<close>

definition wait_end :: "timespec \<Rightarrow> bool \<Rightarrow> nat \<Rightarrow> world \<Rightarrow> timespec" where
  "wait_end expireTime recur r w =
     (case nextTimestamp w recur r of
        None \<Rightarrow> expireTime
      | Some next \<Rightarrow> if ts_less next expireTime then next else expireTime)"

fun wait_loop :: "wake list \<Rightarrow> timespec \<Rightarrow> bool \<Rightarrow> nat \<Rightarrow> world \<Rightarrow> unit res option" where
  "wait_loop wks expireTime recur r w =
     (let (now, w1) = timestamp_now w;
          waitFor = diff_secs (wait_end expireTime recur r w) now
      in if waitFor \<le> 0 then Some (Inr (), w1\<lparr>wakes := wks\<rparr>)
         else case wks of
                [] \<Rightarrow> None
              | wk # wks' \<Rightarrow>
                  (case timedwait (if waitFor > 2 then 2 else waitFor) (wk_events wk) w1 of
                     None \<Rightarrow> Some (Inl (Undefined ''freed ThreadArgs''), w1)
                   | Some w2 \<Rightarrow>
                       if wk_interrupt wk then Some (Inl (Longjmp ''interrupt''), w2\<lparr>wakes := wks'\<rparr>)
                       else wait_loop wks' expireTime recur r w2))"

declare wait_loop.simps [simp del]

text \<open>
  An interrupt leaves \<open>wait\<close> by \<^verbatim>\<open>longjmp\<close>, past the destructor of the guard: the lock stays.
\<close>

definition wait :: "double \<Rightarrow> bool \<Rightarrow> nat \<Rightarrow> world \<Rightarrow> bool res option" where
  "wait timeoutSecs recur r w =
     (let timeoutSecs = (if timeoutSecs = PosInf \<or> double_neg timeoutSecs then Fin 30000000000
                         else timeoutSecs)
      in case timestamp_in timeoutSecs w of
           (Inl e, w1) \<Rightarrow> Some (Inl e, w1)
         | (Inr expireTime, w1) \<Rightarrow>
             (case wait_loop (wakes w1) expireTime recur r (lock w1) of
                None \<Rightarrow> None
              | Some (Inl e, w2) \<Rightarrow> Some (Inl e, if runs_destructors e then unlock w2 else w2)
              | Some (Inr u, w2) \<Rightarrow>
                  (let (now, w3) = timestamp_now w2
                   in Some (Inr (due w3 now True r), unlock w3))))"

section \<open>Other threads keep the invariant\<close>

lemma sys_ok_simple [simp]:
  "sys_ok S (w\<lparr>tick := n\<rparr>) = sys_ok S w" "sys_ok S (w\<lparr>lock_depth := n\<rparr>) = sys_ok S w"
  "sys_ok S (w\<lparr>wakes := ws\<rparr>) = sys_ok S w"
  "sys_ok S (w\<lparr>actives := as\<rparr>) = sys_ok S w" "sys_ok S (w\<lparr>current_registry := i\<rparr>) = sys_ok S w"
  "sys_ok S (w\<lparr>turn := n\<rparr>) = sys_ok S w" "sys_ok S (w\<lparr>initialized := b\<rparr>) = sys_ok S w"
  "sys_ok S (w\<lparr>exec_callbacks_reentrancy_count := c\<rparr>) = sys_ok S w"
  "sys_ok S (w\<lparr>posix_state := p\<rparr>) = sys_ok S w" "sys_ok S (w\<lparr>stderr_log := l\<rparr>) = sys_ok S w"
  "sys_ok S (w\<lparr>timer_state := m\<rparr>) = sys_ok S w"
  by (rule sys_ok_frame; simp add: core_def fd_core_def)+

lemma sys_ok_lock [simp]: "sys_ok S (lock w) = sys_ok S w" "sys_ok S (unlock w) = sys_ok S w"
  by (simp_all add: lock_def unlock_def)

lemma sys_ok_upds [simp]: "sys_ok S (upd_posix f w) = sys_ok S w" "sys_ok S (upd_timer g w) = sys_ok S w"
  by (simp_all add: upd_posix_def upd_timer_def)

lemma sys_ok_set_fd [simp]: "sys_ok S (set_fd b w) = sys_ok S w"
  by (rule sys_ok_frame) (rule set_fd_core, simp add: set_fd_def fd_core_def Let_def)

lemma sys_ok_timer_fire [simp]: "sys_ok S (timer_fire w) = sys_ok S w"
  by (simp add: timer_fire_def fd_on_def)

lemma timer_step_sys_ok [simp]: "sys_ok S (timer_step b w) = sys_ok S w"
  by (simp add: timer_step_def timestamp_now_def get_current_time_def Let_def split: option.split timer_pc.split)

lemma bg_step_sys_ok:
  assumes "sys_ok S w"
  shows "\<exists>v. bg_step ev w = Some v \<and> sys_ok S v"
proof (cases ev)
  case (BgNative p d l)
  have "sys_ok S (snd (scheduleCallback (NativeFunction p) d l w))"
    using assms by (intro scheduleCallback_sys_ok[where f = "NativeFunction p", OF _ prod.collapse[symmetric]]) simp
  then show ?thesis using assms BgNative by (simp add: bg_step_def)
next
  case (BgWaitThread i ready revents)
  then show ?thesis using assms wait_step_sys_ok[OF assms, of i ready revents] by (simp add: bg_step_def)
next
  case (BgTimer b)
  then show ?thesis using assms by (simp add: bg_step_def)
qed

lemma bg_run_sys_ok: "sys_ok S w \<Longrightarrow> \<exists>v. bg_run evs w = Some v \<and> sys_ok S v"
proof (induction evs arbitrary: w)
  case (Cons ev evs)
  from bg_step_sys_ok[OF Cons.prems, of ev] obtain v where v: "bg_step ev w = Some v" "sys_ok S v" by blast
  from Cons.IH[OF v(2)] v(1) show ?case by simp
qed simp

lemma timedwait_sys_ok: "sys_ok S w \<Longrightarrow> \<exists>v. timedwait secs evs w = Some v \<and> sys_ok S v"
  using bg_run_sys_ok[of S "unlock w" evs] by (auto simp: timedwait_def)

lemma wait_loop_sys_ok:
  assumes "sys_ok S w" and "wait_loop wks e recur r w = Some (x, w')"
  shows "sys_ok S w'" and "x \<noteq> Inl (Undefined m)"
proof -
  have "sys_ok S w' \<and> x \<noteq> Inl (Undefined m)"
    using assms
  proof (induction wks arbitrary: w)
    case Nil
    then show ?case
      by (subst (asm) wait_loop.simps) (auto simp: timestamp_now_def get_current_time_def Let_def split: if_splits)
  next
    case (Cons wk wks)
    let ?w1 = "w\<lparr>tick := Suc (tick w)\<rparr>"
    let ?wf = "diff_secs (wait_end e recur r w) (clock w (tick w))"
    obtain v where v: "timedwait (if ?wf > 2 then 2 else ?wf) (wk_events wk) ?w1 = Some v" "sys_ok S v"
      using timedwait_sys_ok[of S ?w1] Cons.prems(1) by auto
    show ?case
    proof (cases "?wf \<le> 0 \<or> wk_interrupt wk")
      case True
      then show ?thesis using Cons.prems v
        by (subst (asm) wait_loop.simps) (auto simp: timestamp_now_def get_current_time_def Let_def split: if_splits)
    next
      case False
      then have "wait_loop wks e recur r v = Some (x, w')" using Cons.prems(2) v(1)
        by (subst (asm) wait_loop.simps) (simp add: timestamp_now_def get_current_time_def Let_def)
      with v(2) show ?thesis by (rule Cons.IH)
    qed
  qed
  then show "sys_ok S w'" and "x \<noteq> Inl (Undefined m)" by blast+
qed

section \<open>What other threads cannot change\<close>

definition main_core :: "world \<Rightarrow> nat \<times> int \<times> 64 word \<times> (nat \<Rightarrow> timespec) \<times> nat" where
  "main_core w =
     (lock_depth w, current_registry w, exec_callbacks_reentrancy_count w, clock w, next_ref w)"

definition later_than :: "world \<Rightarrow> world \<Rightarrow> bool" where
  "later_than v w \<longleftrightarrow>
     main_core v = main_core w \<and> tick w \<le> tick v \<and> moved_on (ticket_view v) (ticket_view w)"

lemma later_than_refl [simp]: "later_than w w"
  by (simp add: later_than_def)

lemma later_than_trans: "later_than v w \<Longrightarrow> later_than u v \<Longrightarrow> later_than u w"
  by (auto simp: later_than_def elim: moved_on_trans)

lemma later_thanD:
  "later_than v w \<Longrightarrow> clock v = clock w" "later_than v w \<Longrightarrow> tick w \<le> tick v"
  "later_than v w \<Longrightarrow> lock_depth v = lock_depth w"
  "later_than v w \<Longrightarrow> current_registry v = current_registry w"
  "later_than v w \<Longrightarrow> exec_callbacks_reentrancy_count v = exec_callbacks_reentrancy_count w"
  "later_than v w \<Longrightarrow> next_ref v = next_ref w"
  "later_than v w \<Longrightarrow> moved_on (ticket_view v) (ticket_view w)"
  by (simp_all add: later_than_def main_core_def)

lemma later_than_tick: "later_than (w\<lparr>tick := Suc (tick w)\<rparr>) w"
  by (simp add: later_than_def main_core_def)

lemma add_later: "later_than (snd (add r f s w)) w"
proof (cases "addSeconds (clock w (tick w)) s")
  case None
  then show ?thesis by (simp add: add_Inl later_than_tick)
next
  case (Some t)
  then show ?thesis by (simp add: add_Inr later_than_def moved_on_add) (simp add: main_core_def cond_signal_def)
qed

lemma timer_set_later: "later_than (timer_set t w) w"
  by (simp add: timer_set_def later_than_def main_core_def upd_timer_def)

lemma deref_timestamp_later: "later_than (snd (deref_timestamp m w)) w"
  by (cases m) (simp_all add: deref_timestamp_def timestamp_now_def get_current_time_def later_than_tick)

lemma doExecLater_later: "later_than (snd (doExecLater r f s b w)) w"
proof -
  obtain x v where a: "add r f s w = (x, v)" by (cases "add r f s w")
  then have "later_than v w" using add_later[of r f s w] by simp
  moreover from this have "later_than (timer_set t (snd (deref_timestamp m v))) w" for t m
    by (rule later_than_trans[OF _ later_than_trans[OF deref_timestamp_later timer_set_later]])
  ultimately show ?thesis
    by (simp add: doExecLater_def a case_prod_unfold Let_def split: sum.split)
qed

lemma scheduleCallback_later: "later_than (snd (scheduleCallback f s i w)) w"
  by (simp add: scheduleCallback_def doExecLater_later split: option.split)

lemma delete_args_later: "later_than (delete_args k w) w"
  by (simp add: delete_args_def fd_waits_decr_def later_than_def main_core_def split: option.split)

lemma set_pc_later: "later_than (set_pc i pc w) w"
  by (simp add: set_pc_def later_than_def main_core_def)

lemma wait_step_later:
  assumes "wait_step i ready revents w = Some v"
  shows "later_than v w"
proof -
  have "later_than (set_pc i pc (w\<lparr>tick := Suc (tick w)\<rparr>)) w" for pc
    by (rule later_than_trans[OF later_than_tick set_pc_later])
  moreover have st: "later_than (set_pc i pc (w\<lparr>thread_args_store := m\<rparr>)) w" for pc m
    by (simp add: set_pc_def later_than_def main_core_def)
  moreover have "later_than (snd (scheduleCallback f s l (set_pc i pc (w\<lparr>thread_args_store := m\<rparr>)))) w" for f s l pc m
    by (rule later_than_trans[OF st scheduleCallback_later])
  moreover have "later_than (delete_args k (set_pc i pc w)) w" for k pc
    by (rule later_than_trans[OF set_pc_later delete_args_later])
  ultimately show ?thesis using assms
    by (auto simp: wait_step_def Let_def timestamp_now_def get_current_time_def set_pc_later
        split: wait_pc.splits option.splits if_splits)
qed

lemma set_fd_later: "later_than (set_fd b w) w"
  by (simp add: later_than_def ticket_view_core[OF set_fd_core]) (simp add: set_fd_def main_core_def Let_def)

lemma timer_fire_later: "later_than (timer_fire w) w"
  unfolding timer_fire_def fd_on_def
  by (rule later_than_trans[OF _ set_fd_later]) (simp add: upd_timer_def later_than_def main_core_def)

lemma upd_timer_later: "later_than (upd_timer f w) w"
  by (simp add: upd_timer_def later_than_def main_core_def)

lemma timer_step_later: "later_than (timer_step b w) w"
  using later_than_trans[OF later_than_tick timer_fire_later] later_than_trans[OF later_than_tick upd_timer_later]
  by (simp add: timer_step_def timestamp_now_def get_current_time_def Let_def upd_timer_later timer_fire_later
      split: option.split timer_pc.split)

lemma bg_step_later: "bg_step ev w = Some v \<Longrightarrow> later_than v w"
  by (cases ev) (auto simp: bg_step_def scheduleCallback_later timer_step_later wait_step_later split: if_splits)

lemma bg_run_later: "bg_run evs w = Some v \<Longrightarrow> later_than v w"
proof (induction evs arbitrary: w)
  case (Cons ev evs)
  then obtain u where u: "bg_step ev w = Some u" "bg_run evs u = Some v" by (auto simp: bind_eq_Some_conv)
  from bg_step_later[OF u(1)] Cons.IH[OF u(2)] show ?case by (rule later_than_trans)
qed simp

lemma timedwait_later:
  assumes "timedwait secs evs w = Some v" and "0 < lock_depth w"
  shows "later_than v w"
proof -
  from assms(1) obtain u where u: "bg_run evs (unlock w) = Some u" "v = lock u" by (auto simp: timedwait_def)
  from bg_run_later[OF u(1)] assms(2) show ?thesis
    by (auto simp: u(2) later_than_def main_core_def lock_def unlock_def)
qed

section \<open>What wait promises\<close>

text \<open>One turn of the loop.\<close>

lemma wait_loop_cases:
  assumes "wait_loop wks e recur r w = Some (x, w')"
  obtains (finish) "diff_secs (wait_end e recur r w) (clock w (tick w)) \<le> 0"
      and "x = Inr ()" and "w' = w\<lparr>tick := Suc (tick w), wakes := wks\<rparr>"
    | (wake) wk wks' v where "wks = wk # wks'" and "0 < diff_secs (wait_end e recur r w) (clock w (tick w))"
      and "\<exists>secs. timedwait secs (wk_events wk) (w\<lparr>tick := Suc (tick w)\<rparr>) = Some v"
      and "if wk_interrupt wk then x = Inl (Longjmp ''interrupt'') \<and> w' = v\<lparr>wakes := wks'\<rparr>
           else wait_loop wks' e recur r v = Some (x, w')"
    | (broken) "x = Inl (Undefined ''freed ThreadArgs'')" and "w' = w\<lparr>tick := Suc (tick w)\<rparr>"
  using assms
  by (subst (asm) wait_loop.simps)
     (fastforce simp: timestamp_now_def get_current_time_def Let_def not_le split: if_splits list.splits option.splits)

lemma wait_loop_later:
  assumes "wait_loop wks e recur r w = Some (x, w')" and "0 < lock_depth w"
  shows "later_than w' w"
  using assms
proof (induction wks arbitrary: w rule: list.induct)
  case Nil
  from Nil.prems(1) show ?case
    by (cases rule: wait_loop_cases) (auto simp: later_than_def main_core_def)
next
  case (Cons wk wks)
  from Cons.prems(1) show ?case
  proof (cases rule: wait_loop_cases)
    case finish
    then show ?thesis by (simp add: later_than_def main_core_def)
  next
    case (wake wk' wks' v)
    obtain secs where t: "timedwait secs (wk_events wk') (w\<lparr>tick := Suc (tick w)\<rparr>) = Some v" using wake(3) by blast
    have l: "later_than v w"
      by (rule later_than_trans[OF later_than_tick timedwait_later[OF t]]) (use Cons.prems(2) in simp)
    show ?thesis
    proof (cases "wk_interrupt wk'")
      case True
      then show ?thesis using wake(4) l by (auto simp: later_than_def main_core_def)
    next
      case False
      have "0 < lock_depth v" using later_thanD(3)[OF l] Cons.prems(2) by simp
      with wake(1,4) False Cons.IH[of v] have "later_than w' v" by simp
      with l show ?thesis by (rule later_than_trans)
    qed
  next
    case broken
    then show ?thesis by (simp add: later_than_tick)
  qed
qed

text \<open>When the loop ends, the time it was waiting for has come.\<close>

lemma wait_loop_reached:
  assumes "wait_loop wks e recur r w = Some (Inr u, w')"
  shows "\<exists>v. diff_secs (wait_end e recur r v) (clock v (tick v)) \<le> 0 \<and> w' = v\<lparr>tick := Suc (tick v), wakes := wakes w'\<rparr>"
  using assms
proof (induction wks arbitrary: w rule: list.induct)
  case Nil
  from Nil.prems show ?case by (cases rule: wait_loop_cases) auto
next
  case (Cons wk wks)
  from Cons.prems show ?case
  proof (cases rule: wait_loop_cases)
    case finish
    then show ?thesis by auto
  next
    case (wake wk' wks' v)
    then show ?thesis using Cons.IH[of v] by (auto split: if_splits)
  qed simp
qed

text \<open>The parts of a successful call.\<close>

definition wait_secs :: "double \<Rightarrow> double" where
  "wait_secs secs = (if secs = PosInf \<or> double_neg secs then Fin 30000000000 else secs)"

lemma timestamp_in_eq:
  "timestamp_in s w =
     (case addSeconds (clock w (tick w)) s of
        None \<Rightarrow> (Inl (Undefined ''addSeconds''), w\<lparr>tick := Suc (tick w)\<rparr>)
      | Some t \<Rightarrow> (Inr t, w\<lparr>tick := Suc (tick w)\<rparr>))"
  by (simp add: timestamp_in_def get_current_time_def split: option.split)

lemma wait_cases:
  assumes "wait secs recur r w = Some (x, w')"
  obtains (undefined) "x = Inl (Undefined ''addSeconds'')" "addSeconds (clock w (tick w)) (wait_secs secs) = None"
      "w' = w\<lparr>tick := Suc (tick w)\<rparr>"
    | (loop) e y v where "addSeconds (clock w (tick w)) (wait_secs secs) = Some e"
      and "wait_loop (wakes w) e recur r (lock (w\<lparr>tick := Suc (tick w)\<rparr>)) = Some (y, v)"
      and "case y of
             Inl err \<Rightarrow> x = Inl err \<and> w' = (if runs_destructors err then unlock v else v)
           | Inr _ \<Rightarrow> x = Inr (due v (clock v (tick v)) True r) \<and> w' = unlock (v\<lparr>tick := Suc (tick v)\<rparr>)"
proof (cases "addSeconds (clock w (tick w)) (wait_secs secs)")
  case None
  then show thesis using assms undefined
    by (simp add: wait_def wait_secs_def[symmetric] Let_def timestamp_in_eq)
next
  case (Some e)
  then obtain y v where l: "wait_loop (wakes w) e recur r (lock (w\<lparr>tick := Suc (tick w)\<rparr>)) = Some (y, v)"
    using assms by (auto simp: wait_def wait_secs_def[symmetric] Let_def timestamp_in_eq split: option.splits)
  have d: "due (v\<lparr>tick := n\<rparr>) t b q = due v t b q" for n t b q
  proof -
    have "due_fuel m (v\<lparr>tick := n\<rparr>) t b q = due_fuel m v t b q" for m
      by (induction m arbitrary: b q) (simp_all add: list_ex_iff)
    then show ?thesis by (simp add: due_def)
  qed
  show thesis
    by (rule loop[OF Some l]) (use assms l Some in
      \<open>auto simp: wait_def wait_secs_def[symmetric] Let_def timestamp_in_eq timestamp_now_def get_current_time_def d
        split: sum.splits\<close>)
qed

lemma wait_sys_ok:
  assumes "sys_ok S w" and "wait secs recur r w = Some (x, w')"
  shows "sys_ok S w'"
  using assms(2)
proof (cases rule: wait_cases)
  case (loop e y v)
  have "sys_ok S v" using wait_loop_sys_ok(1)[OF _ loop(2)] assms(1) by simp
  then show ?thesis using loop(3) by (auto split: sum.splits if_splits)
qed (use assms(1) in simp)

lemma wait_loop_error:
  assumes "wait_loop wks e recur r w = Some (Inl err, w')"
  shows "err = Longjmp ''interrupt'' \<or> err = Undefined ''freed ThreadArgs''"
  using assms
proof (induction wks arbitrary: w rule: list.induct)
  case Nil
  from Nil.prems show ?case by (cases rule: wait_loop_cases) auto
next
  case (Cons wk wks)
  from Cons.prems show ?case
  proof (cases rule: wait_loop_cases)
    case (wake wk' wks' v)
    then show ?thesis using Cons.IH[of v] by (auto split: if_splits)
  qed auto
qed

lemma wait_error:
  assumes "sys_ok S w" and "wait secs recur r w = Some (Inl e, w')"
  shows "e = Undefined ''addSeconds'' \<or> e = Longjmp ''interrupt''"
  using assms(2)
proof (cases rule: wait_cases)
  case (loop t y v)
  have nu: "y \<noteq> Inl (Undefined m)" for m using wait_loop_sys_ok(2)[OF _ loop(2)] assms(1) by simp
  show ?thesis using loop(2,3) nu wait_loop_error[of "wakes w" t recur r _ _ v] by (auto split: sum.splits)
qed simp

text \<open>The lock is given back unless an interrupt jumps over the guard.\<close>

lemma wait_later:
  assumes "wait secs recur r w = Some (x, w')" and "leaves_frame x"
  shows "later_than w' w"
  using assms(1)
proof (cases rule: wait_cases)
  case (loop e y v)
  have l: "later_than v (lock (w\<lparr>tick := Suc (tick w)\<rparr>))"
    by (rule wait_loop_later[OF loop(2)]) (simp add: lock_def)
  show ?thesis using loop(3) assms(2) l
    by (cases y) (auto simp: later_than_def main_core_def lock_def unlock_def leaves_frame_def)
qed (simp add: later_than_tick)

lemma wait_interrupt_lock:
  assumes "wait secs recur r w = Some (Inl (Longjmp m), w')"
  shows "lock_depth w' = Suc (lock_depth w)"
  using assms
proof (cases rule: wait_cases)
  case (loop e y v)
  have l: "later_than v (lock (w\<lparr>tick := Suc (tick w)\<rparr>))"
    by (rule wait_loop_later[OF loop(2)]) (simp add: lock_def)
  show ?thesis using loop(3) later_thanD(3)[OF l] by (cases y) (auto simp: lock_def)
qed simp

lemma live_lt: "sys_ok S w \<Longrightarrow> live w r \<Longrightarrow> r < next_ref w"
  using forest_okD(10) by (auto simp: sys_ok_def world_ok_def)

lemma sys_ok_parts:
  assumes "sys_ok S w"
  shows "heap_acyclic w" and "queues_ok w" and "monotonic_clock (clock w)"
  using assms forest_okD(4) queues_ok_clock by (auto simp: sys_ok_def world_ok_def)

lemma least_of_unique: "least_of m A \<Longrightarrow> least_of m B \<Longrightarrow> A = B \<or> A \<noteq> {}"
  by (auto simp: least_of_def split: option.splits)

lemma nextTimestamp_normal:
  assumes "sys_ok S w" and "r < next_ref w" and "nextTimestamp w True r = Some t"
  shows "ts_normal t" and "t \<in> pending_times w r"
proof -
  note p = sys_ok_parts[OF assms(1)]
  show "t \<in> pending_times w r"
    using nextTimestamp_least[OF p(1,2) assms(2)] assms(3) by (simp add: least_of_def)
  then show "ts_normal t" using queues_ok_normal[OF p(2)] by (auto simp: pending_times_def)
qed

text \<open>What the answer means: what is due, and that \<open>False\<close> comes only after the timeout.\<close>

lemma wait_result:
  assumes ok: "sys_ok S w" and r: "r < next_ref w" and w: "wait secs True r w = Some (Inr b, w')"
  obtains now e where "now = clock w (tick w' - 1)"
    and "addSeconds (clock w (tick w)) (wait_secs secs) = Some e"
    and "b \<longleftrightarrow> (\<exists>t \<in> pending_times w' r. t \<le> now)" and "\<not> b \<Longrightarrow> e \<le> now"
  using w
proof (cases rule: wait_cases)
  case (loop e y v)
  let ?w1 = "lock (w\<lparr>tick := Suc (tick w)\<rparr>)"
  obtain u where y: "y = Inr u" using loop(3) by (cases y) auto
  have b: "b = due v (clock v (tick v)) True r" and w': "w' = unlock (v\<lparr>tick := Suc (tick v)\<rparr>)"
    using loop(3) y by auto
  have l: "later_than v ?w1" by (rule wait_loop_later[OF loop(2)]) (simp add: lock_def)
  have cl: "clock v = clock w" and nr: "r < next_ref v"
    using later_thanD(1,6)[OF l] r by (simp_all add: lock_def)
  have okv: "sys_ok S v" using wait_loop_sys_ok(1)[OF _ loop(2)] ok by simp
  note pv = sys_ok_parts[OF okv]
  have e: "ts_normal e" using addSeconds_normal[OF loop(1)] monotonic_clockD(1)[OF sys_ok_parts(3)[OF ok]] .
  have now: "clock v (tick v) = clock w (tick w' - 1)" by (simp add: w' cl unlock_def)
  obtain u where u: "diff_secs (wait_end e True r u) (clock u (tick u)) \<le> 0"
    "v = u\<lparr>tick := Suc (tick u), wakes := wakes v\<rparr>"
    using wait_loop_reached[of "wakes w" e True r ?w1 _ v] loop(2) y by blast
  have "pending_times w' r = pending_times v r"
    by (rule pending_times_heap) (simp add: w' unlock_def)
  show thesis
  proof (rule that[OF now loop(1)])
    show "b \<longleftrightarrow> (\<exists>t \<in> pending_times w' r. t \<le> clock v (tick v))"
      unfolding b \<open>pending_times w' r = pending_times v r\<close> by (rule due_pending[OF pv(1,2) nr])
    show "e \<le> clock v (tick v)" if "\<not> b"
    proof -
      have hu: "heap u = heap v" "next_ref u = next_ref v" "clock u = clock v" "tick u \<le> tick v"
        by (subst u(2), simp)+
      have nx: "nextTimestamp u True r = nextTimestamp v True r" by (rule nextTimestamp_heap[OF hu(1,2)])
      have le: "clock u (tick u) \<le> clock v (tick v)"
        unfolding hu(3) by (rule monotonic_clockD(2)[OF pv(3) hu(4)])
      have cn: "ts_normal (clock u (tick u))" unfolding hu(3) by (rule monotonic_clockD(1)[OF pv(3)])
      have "wait_end e True r u = e"
      proof (rule ccontr)
        assume "wait_end e True r u \<noteq> e"
        then obtain t where t: "nextTimestamp v True r = Some t" "wait_end e True r u = t"
          by (auto simp: wait_end_def nx split: option.splits if_splits)
        have "t \<le> clock u (tick u)"
          using u(1) diff_secs_pos_iff[OF nextTimestamp_normal(1)[OF okv nr t(1)] cn] t(2) by (simp add: not_less[symmetric])
        then have "due v (clock v (tick v)) True r"
          using due_nextTimestamp[OF pv(1,2) nr] t(1) le by (auto intro: order_trans)
        then show False using that b by simp
      qed
      then have "e \<le> clock u (tick u)"
        using u(1) diff_secs_pos_iff[OF e cn] by (simp add: not_less[symmetric])
      then show ?thesis using le by (rule order_trans)
    qed
  qed
qed simp

text \<open>The loop ends once the clock has passed the expiry time, if no interrupt comes first.\<close>

lemma wait_loop_terminates:
  assumes "sys_ok S w" and "0 < lock_depth w" and "ts_normal e" and "r < next_ref w"
    and "e \<le> clock w (tick w + length wks)" and "\<forall>wk \<in> set wks. \<not> wk_interrupt wk"
  shows "\<exists>w'. wait_loop wks e True r w = Some (Inr (), w')"
  using assms
proof (induction wks arbitrary: w)
  case Nil
  have n: "ts_normal (clock w (tick w))" by (rule monotonic_clockD(1)[OF sys_ok_parts(3)[OF Nil(1)]])
  have we: "wait_end e True r w \<le> e" "ts_normal (wait_end e True r w)"
    using nextTimestamp_normal(1)[OF Nil(1,4)] Nil(3) by (auto simp: wait_end_def split: option.split)
  then have "wait_end e True r w \<le> clock w (tick w)" using Nil(5) by simp
  then have "diff_secs (wait_end e True r w) (clock w (tick w)) \<le> 0"
    using diff_secs_pos_iff[OF we(2) n] by (simp add: not_less[symmetric])
  then show ?case
    by (subst wait_loop.simps) (simp add: timestamp_now_def get_current_time_def)
next
  case (Cons wk wks)
  let ?w1 = "w\<lparr>tick := Suc (tick w)\<rparr>"
  let ?wf = "diff_secs (wait_end e True r w) (clock w (tick w))"
  obtain v where v: "timedwait (if ?wf > 2 then 2 else ?wf) (wk_events wk) ?w1 = Some v" "sys_ok S v"
    using timedwait_sys_ok[of S ?w1] Cons.prems(1) by auto
  have l: "later_than v ?w1" by (rule timedwait_later[OF v(1)]) (use Cons.prems(2) in simp)
  note d = later_thanD[OF l]
  have "e \<le> clock v (tick v + length wks)"
    using Cons.prems(5) d(1,2) monotonic_clockD(2)[OF sys_ok_parts(3)[OF Cons.prems(1)]]
    by (auto intro: order_trans)
  then have "\<exists>w'. wait_loop wks e True r v = Some (Inr (), w')"
    using Cons.prems d v(2) by (intro Cons.IH) auto
  then show ?case using v(1) Cons.prems(6)
    by (subst wait_loop.simps) (auto simp: timestamp_now_def get_current_time_def Let_def)
qed

end
