(* ===== verification/Ids.thy ===== *)
theory Ids
  imports Prelude
begin

text \<open>
  Callback ids as text: \<open>toString\<close> of \<^verbatim>\<open>utils.h\<close> prints a 64-bit id in decimal, and \<open>cancel\<close>
  of \<^verbatim>\<open>later2.cpp\<close> reads it back with \<^verbatim>\<open>std::istringstream >> uint64_t\<close>. Both standard
  library operations are modelled as the C++ standard describes them for the classic locale.
\<close>

section \<open>Printing\<close>

definition digit_char :: "nat \<Rightarrow> char" where
  "digit_char d = char_of (48 + d)"

fun decimal :: "nat \<Rightarrow> string" where
  "decimal n = (if n < 10 then [digit_char n] else decimal (n div 10) @ [digit_char (n mod 10)])"

declare decimal.simps [simp del]

definition toString :: "64 word \<Rightarrow> string" where
  "toString x = decimal (unat x)"

section \<open>Reading\<close>

definition is_digit :: "char \<Rightarrow> bool" where
  "is_digit c \<longleftrightarrow> 48 \<le> (of_char c :: nat) \<and> (of_char c :: nat) \<le> 57"

definition is_space :: "char \<Rightarrow> bool" where
  "is_space c \<longleftrightarrow> (of_char c :: nat) = 32 \<or> (9 \<le> (of_char c :: nat) \<and> (of_char c :: nat) \<le> 13)"

definition digit_value :: "char \<Rightarrow> nat" where
  "digit_value c = of_char c - 48"

definition decimal_value :: "string \<Rightarrow> nat" where
  "decimal_value = foldl (\<lambda>n c. 10 * n + digit_value c) 0"

text \<open>
  Extraction skips white space, takes an optional sign and then digits. It fails without a
  digit, and stores the largest value and fails when the number does not fit; a minus sign
  negates modulo \<open>2 ^ 64\<close>. The result is the value, the fail bit, and the text left: the
  eof bit is set exactly when none is.
\<close>

definition extract_uint64 :: "string \<Rightarrow> 64 word \<times> bool \<times> string" where
  "extract_uint64 s =
     (let s1 = dropWhile is_space s;
          negative = (s1 \<noteq> [] \<and> hd s1 = CHR ''-'');
          s2 = (if s1 \<noteq> [] \<and> (hd s1 = CHR ''-'' \<or> hd s1 = CHR ''+'') then tl s1 else s1);
          ds = takeWhile is_digit s2;
          rest = dropWhile is_digit s2;
          n = decimal_value ds
      in if ds = [] then (0, True, rest)
         else if n \<ge> 2 ^ 64 then (-1, True, rest)
         else (if negative then - of_nat n else of_nat n, False, rest))"

text \<open>What \<open>cancel\<close> accepts: a number and nothing after it.\<close>

definition parse_id :: "string \<Rightarrow> 64 word option" where
  "parse_id s =
     (let (callback_id, fail, rest) = extract_uint64 s; eof = (rest = [])
      in if \<not> (eof \<and> \<not> fail) then None else Some callback_id)"

section \<open>What is printed is read back\<close>

lemma of_char_digit: "d < 10 \<Longrightarrow> (of_char (digit_char d) :: nat) = 48 + d"
  by (simp add: digit_char_def)

lemma digit_char_facts [simp]:
  assumes "d < 10"
  shows "is_digit (digit_char d)" and "\<not> is_space (digit_char d)" and "digit_value (digit_char d) = d"
    and "digit_char d \<noteq> CHR ''-''" and "digit_char d \<noteq> CHR ''+''"
proof -
  note c = of_char_digit[OF assms]
  show "is_digit (digit_char d)" "\<not> is_space (digit_char d)" "digit_value (digit_char d) = d"
    using assms by (simp_all add: is_digit_def is_space_def digit_value_def c)
  have "(of_char (CHR ''-'') :: nat) = 45" "(of_char (CHR ''+'') :: nat) = 43" by simp_all
  then show "digit_char d \<noteq> CHR ''-''" "digit_char d \<noteq> CHR ''+''" using c by (metis not_add_less1 numeral_less_iff semiring_norm)+
qed

lemma decimal_not_Nil [simp]: "decimal n \<noteq> []"
  by (subst decimal.simps) simp

lemma decimal_digits: "\<forall>c \<in> set (decimal n). \<exists>d < 10. c = digit_char d"
proof (induction n rule: decimal.induct)
  case (1 n)
  then show ?case by (subst decimal.simps) (auto intro: exI[of _ n] exI[of _ "n mod 10"])
qed

lemma decimal_value_snoc: "decimal_value (cs @ [c]) = 10 * decimal_value cs + digit_value c"
  by (simp add: decimal_value_def)

lemma decimal_value_decimal: "decimal_value (decimal n) = n"
proof (induction n rule: decimal.induct)
  case (1 n)
  show ?case
  proof (cases "n < 10")
    case True
    then show ?thesis by (subst decimal.simps) (simp add: decimal_value_def)
  next
    case False
    then show ?thesis using 1 by (subst decimal.simps) (simp add: decimal_value_snoc)
  qed
qed

lemma extract_decimal:
  assumes "n < 2 ^ 64"
  shows "extract_uint64 (decimal n) = (of_nat n, False, [])"
proof -
  have d: "\<forall>c \<in> set (decimal n). is_digit c \<and> \<not> is_space c \<and> c \<noteq> CHR ''-'' \<and> c \<noteq> CHR ''+''"
    using decimal_digits[of n] digit_char_facts by metis
  then have h: "is_digit (hd (decimal n)) \<and> \<not> is_space (hd (decimal n)) \<and> hd (decimal n) \<noteq> CHR ''-'' \<and> hd (decimal n) \<noteq> CHR ''+''"
    using hd_in_set[OF decimal_not_Nil] by blast
  have dw: "dropWhile is_space (decimal n) = decimal n"
    using h decimal_not_Nil[of n] by (cases "decimal n") auto
  have tw: "takeWhile is_digit (decimal n) = decimal n" "dropWhile is_digit (decimal n) = []"
    using d by (simp_all add: takeWhile_eq_all_conv dropWhile_eq_Nil_conv)
  show ?thesis
    unfolding extract_uint64_def Let_def using h assms by (simp add: dw tw decimal_value_decimal)
qed

lemma parse_toString: "parse_id (toString x) = Some x"
proof -
  have "unat x < 2 ^ 64" using unsigned_less[of x] by simp
  from extract_decimal[OF this] show ?thesis by (simp add: parse_id_def toString_def)
qed

end
