(* ===== verification/Exec.thy ===== *)
theory Exec
  imports Wait Ids
begin

text \<open>
  \<^verbatim>\<open>later2.cpp\<close>: the entry points, and the running of callbacks. What a callback does is a
  parameter (\<open>call\<close>) of the functions that run callbacks, as is the fuel \<open>n\<close> that bounds how
  many callbacks a loop takes and how deep the tree of loops is walked. At the end the knot
  is tied: a callback is a program of calls to these same entry points. \<open>None\<close> is the value
  of a call that is still blocked or running when wake-ups or fuel are used up.
\<close>

section \<open>Invoking a callback\<close>

text \<open>Both \<open>invoke\<close> methods of \<^verbatim>\<open>callback_registry.h\<close>.\<close>

fun rethrow_native :: "exn + 'a \<Rightarrow> exn + 'a" where
  "rethrow_native (Inl UnknownException) = Inl (StdException ''C++ exception of unknown type'')"
| "rethrow_native x = x"

definition invoke :: "(prog \<Rightarrow> world \<Rightarrow> unit res option) \<Rightarrow> callback \<Rightarrow> world \<Rightarrow> unit res option" where
  "invoke run cb w =
     (case func cb of
        RFunction p \<Rightarrow> map_option (apfst unwind_protect) (run p w)
      | NativeFunction p \<Rightarrow> map_option (apfst rethrow_native) (run p w)
      | LaterCallback k \<Rightarrow> map_option (apfst rethrow_native) (later_callback run k w))"

section \<open>The current registry\<close>

definition GLOBAL_LOOP :: int where
  "GLOBAL_LOOP = 0"

definition setCurrentRegistryId :: "int \<Rightarrow> world \<Rightarrow> world" where
  "setCurrentRegistryId i w = w\<lparr>current_registry := i\<rparr>"

definition getCurrentRegistryId :: "world \<Rightarrow> int" where
  "getCurrentRegistryId w = current_registry w"

text \<open>
  \<^verbatim>\<open>ProtectCallbacks\<close> and \<^verbatim>\<open>CurrentRegistryGuard\<close>, in the order their objects are made; the
  destructors run in the other order, when the frame is left without \<^verbatim>\<open>longjmp\<close>.
\<close>

definition guards_enter :: "int \<Rightarrow> world \<Rightarrow> int \<times> world" where
  "guards_enter i w =
     (let w1 = w\<lparr>exec_callbacks_reentrancy_count := exec_callbacks_reentrancy_count w + 1\<rparr>;
          old_id = getCurrentRegistryId w1
      in (old_id, setCurrentRegistryId i w1))"

definition guards_leave :: "int \<Rightarrow> world \<Rightarrow> world" where
  "guards_leave old_id w =
     (let w1 = setCurrentRegistryId old_id w
      in w1\<lparr>exec_callbacks_reentrancy_count := exec_callbacks_reentrancy_count w1 - 1\<rparr>)"

section \<open>Running callbacks\<close>

text \<open>What other threads do between two steps of the main thread.\<close>

definition interleave :: "world \<Rightarrow> world option" where
  "interleave w = bg_run (others w (turn w)) (w\<lparr>turn := Suc (turn w)\<rparr>)"

text \<open>The \<^verbatim>\<open>do\<close> loop of \<open>execCallbacksOne\<close>.\<close>

fun run_loop ::
    "nat \<Rightarrow> (callback \<Rightarrow> world \<Rightarrow> unit res option) \<Rightarrow> bool \<Rightarrow> nat \<Rightarrow> timespec \<Rightarrow> world \<Rightarrow> unit res option" where
  "run_loop 0 call runAll r now w = None"
| "run_loop (Suc n) call runAll r now w =
     (case interleave w of
        None \<Rightarrow> Some (Inl (Undefined ''freed ThreadArgs''), w)
      | Some w0 \<Rightarrow>
          (case pop r now w0 of
             (None, w1) \<Rightarrow> Some (Inr (), w1)
           | (Some cb, w1) \<Rightarrow>
               (case call cb (note_invoke r cb w1) of
                  None \<Rightarrow> None
                | Some (Inl e, w2) \<Rightarrow> Some (Inl e, w2)
                | Some (Inr u, w2) \<Rightarrow>
                    if runAll then run_loop n call runAll r now w2 else Some (Inr (), w2))))"

text \<open>A loop over a vector, left at the first error.\<close>

fun run_each :: "('a \<Rightarrow> world \<Rightarrow> unit res option) \<Rightarrow> 'a list \<Rightarrow> world \<Rightarrow> unit res option" where
  "run_each f [] w = Some (Inr (), w)"
| "run_each f (x # xs) w =
     (case f x w of
        None \<Rightarrow> None
      | Some (Inl e, w1) \<Rightarrow> Some (Inl e, w1)
      | Some (Inr u, w1) \<Rightarrow> run_each f xs w1)"

fun execCallbacksOne ::
    "nat \<Rightarrow> (callback \<Rightarrow> world \<Rightarrow> unit res option) \<Rightarrow> bool \<Rightarrow> nat \<Rightarrow> timespec \<Rightarrow> world \<Rightarrow> unit res option" where
  "execCallbacksOne 0 call runAll r now w = None"
| "execCallbacksOne (Suc n) call runAll r now w =
     (let (old_id, w1) = guards_enter (getId w r) w
      in case (case run_loop (Suc n) call runAll r now w1 of
                 None \<Rightarrow> None
               | Some (Inl e, w2) \<Rightarrow> Some (Inl e, w2)
               | Some (Inr u, w2) \<Rightarrow>
                   run_each (\<lambda>c. execCallbacksOne n call True c now) (children (heap w2 r)) w2) of
           None \<Rightarrow> None
         | Some (x, w3) \<Rightarrow> Some (x, if leaves_frame x then guards_leave old_id w3 else w3))"

definition no_registry :: exn where
  "no_registry = UnwindException ''CallbackRegistry does not exist.''"

definition execCallbacks ::
    "nat \<Rightarrow> (callback \<Rightarrow> world \<Rightarrow> unit res option) \<Rightarrow> double \<Rightarrow> bool \<Rightarrow> int \<Rightarrow> world \<Rightarrow> bool res option" where
  "execCallbacks n call timeoutSecs runAll loop_id w =
     (case getRegistry w loop_id of
        None \<Rightarrow> Some (Inl no_registry, w)
      | Some r \<Rightarrow>
          (case wait timeoutSecs True r w of
             None \<Rightarrow> None
           | Some (Inl e, w1) \<Rightarrow> Some (Inl e, w1)
           | Some (Inr ready, w1) \<Rightarrow>
               if \<not> ready then Some (Inr False, w1)
               else let (now, w2) = timestamp_now w1
                    in case execCallbacksOne n call runAll r now w2 of
                         None \<Rightarrow> None
                       | Some (Inl e, w3) \<Rightarrow> Some (Inl e, w3)
                       | Some (Inr u, w3) \<Rightarrow> Some (Inr True, pruneRegistries w3)))"

text \<open>\<open>execCallbacksForTopLevel\<close>: \<open>i\<close> iterations are left.\<close>

fun top_level_loop ::
    "nat \<Rightarrow> nat \<Rightarrow> (callback \<Rightarrow> world \<Rightarrow> unit res option) \<Rightarrow> bool \<Rightarrow> world \<Rightarrow> bool res option" where
  "top_level_loop 0 n call any w = Some (Inr any, w)"
| "top_level_loop (Suc i) n call any w =
     (case execCallbacks n call (Fin 0) True GLOBAL_LOOP w of
        None \<Rightarrow> None
      | Some (Inl e, w1) \<Rightarrow> Some (Inl e, w1)
      | Some (Inr worked, w1) \<Rightarrow>
          if \<not> worked then Some (Inr any, w1) else top_level_loop i n call True w1)"

definition execCallbacksForTopLevel ::
    "nat \<Rightarrow> (callback \<Rightarrow> world \<Rightarrow> unit res option) \<Rightarrow> world \<Rightarrow> bool res option" where
  "execCallbacksForTopLevel n call w = top_level_loop 20 n call False w"

section \<open>The other entry points\<close>

text \<open>
  \<open>sys_nframe\<close> asks R for the number of frames, with interrupts suspended; \<open>None\<close> is an error
  of the call.
\<close>

definition sys_nframe :: "world \<Rightarrow> int" where
  "sys_nframe w = (case sys_frames w of None \<Rightarrow> -1 | Some value \<Rightarrow> value)"

definition at_top_level :: "world \<Rightarrow> bool res" where
  "at_top_level w =
     (if exec_callbacks_reentrancy_count w \<noteq> 0 then (Inr False, w)
      else let nframe = sys_nframe w
           in if nframe = -1
              then (Inl (UnwindException ''Error occurred while calling sys.nframe()''), w)
              else (Inr (nframe = 0), w))"

definition getGlobalRegistry :: "world \<Rightarrow> nat res" where
  "getGlobalRegistry w =
     (case getRegistry w GLOBAL_LOOP of
        None \<Rightarrow> (Inl (Longjmp ''Global registry does not exist.''), w)
      | Some r \<Rightarrow> (Inr r, w))"

definition deleteCallbackRegistry :: "int \<Rightarrow> world \<Rightarrow> bool res" where
  "deleteCallbackRegistry loop_id w =
     (if loop_id = GLOBAL_LOOP then (Inl (UnwindException ''Can't destroy global loop.''), w)
      else if loop_id = getCurrentRegistryId w
      then (Inl (UnwindException ''Can't destroy current loop.''), w)
      else apfst Inr (remove loop_id w))"

definition notifyRRefDeleted_api :: "int \<Rightarrow> world \<Rightarrow> bool res" where
  "notifyRRefDeleted_api loop_id w =
     (if loop_id = GLOBAL_LOOP
      then (Inl (UnwindException ''Can't notify that reference to global loop is deleted.''), w)
      else if loop_id = getCurrentRegistryId w
      then (Inl (UnwindException ''Can't notify that reference to current loop is deleted.''), w)
      else apfst Inr (notifyRRefDeleted loop_id w))"

definition list_queue_api :: "int \<Rightarrow> world \<Rightarrow> (listing list) res" where
  "list_queue_api i w =
     (case getRegistry w i of
        None \<Rightarrow> (Inl no_registry, w)
      | Some r \<Rightarrow> apfst Inr (list_queue r w))"

definition idle :: "int \<Rightarrow> world \<Rightarrow> bool res" where
  "idle loop_id w =
     (case getRegistry w loop_id of
        None \<Rightarrow> (Inl no_registry, w)
      | Some r \<Rightarrow> (Inr (empty w r), w))"

definition ensureInitialized :: "world \<Rightarrow> unit res" where
  "ensureInitialized w =
     (if initialized w then (Inr (), w)
      else let w1 = setCurrentRegistryId GLOBAL_LOOP w;
               (x, p) = ensureAutorunnerInitialized (posix_state w1);
               w2 = w1\<lparr>posix_state := p\<rparr>
           in case x of Inl e \<Rightarrow> (Inl e, w2) | Inr u \<Rightarrow> (Inr (), w2\<lparr>initialized := True\<rparr>))"

definition execLater :: "prog \<Rightarrow> double \<Rightarrow> int \<Rightarrow> world \<Rightarrow> string res" where
  "execLater callback delaySecs loop_id w =
     (case ensureInitialized w of
        (Inl e, w1) \<Rightarrow> (Inl e, w1)
      | (Inr u, w1) \<Rightarrow>
          (case getRegistry w1 loop_id of
             None \<Rightarrow> (Inl no_registry, w1)
           | Some r \<Rightarrow>
               (case doExecLater r (RFunction callback) delaySecs True w1 of
                  (Inl e, w2) \<Rightarrow> (Inl e, w2)
                | (Inr callback_id, w2) \<Rightarrow> (Inr (toString callback_id), w2))))"

definition cancel_id :: "64 word \<Rightarrow> int \<Rightarrow> world \<Rightarrow> bool \<times> world" where
  "cancel_id callback_id loop_id w =
     (case getRegistry w loop_id of
        None \<Rightarrow> (False, w)
      | Some r \<Rightarrow> cancel r callback_id w)"

definition cancel_string :: "string \<Rightarrow> int \<Rightarrow> world \<Rightarrow> bool \<times> world" where
  "cancel_string callback_id_s loop_id w =
     (case parse_id callback_id_s of
        None \<Rightarrow> (False, w)
      | Some callback_id \<Rightarrow> cancel_id callback_id loop_id w)"

definition nextOpSecs :: "int \<Rightarrow> world \<Rightarrow> double res" where
  "nextOpSecs loop_id w =
     (case getRegistry w loop_id of
        None \<Rightarrow> (Inl no_registry, w)
      | Some r \<Rightarrow>
          (case nextTimestamp w True r of
             None \<Rightarrow> (Inr PosInf, w)
           | Some nextTime \<Rightarrow>
               (let (now, w1) = timestamp_now w in (Inr (Fin (diff_secs nextTime now)), w1))))"

definition execLaterNative2 :: "prog \<Rightarrow> double \<Rightarrow> int \<Rightarrow> world \<Rightarrow> (64 word) res" where
  "execLaterNative2 p delaySecs loop_id w =
     (case ensureInitialized w of
        (Inl e, w1) \<Rightarrow> (Inl e, w1)
      | (Inr u, w1) \<Rightarrow> scheduleCallback (NativeFunction p) delaySecs loop_id w1)"

definition execLaterFdNative ::
    "(int list \<Rightarrow> prog) \<Rightarrow> pollfd list \<Rightarrow> double \<Rightarrow> int \<Rightarrow> world \<Rightarrow> int res" where
  "execLaterFdNative f fds timeoutSecs loop_id w =
     (case ensureInitialized w of
        (Inl e, w1) \<Rightarrow> (Inl e, w1)
      | (Inr u, w1) \<Rightarrow> execLater_fd_native (FdNative f) fds timeoutSecs loop_id w1)"

definition apiVersion :: int where
  "apiVersion = 0 * 10000 + 1 * 100 + 0"

section \<open>Programs\<close>

definition ret :: "('a \<Rightarrow> val) \<Rightarrow> 'a res \<Rightarrow> val res option" where
  "ret f y = Some (apfst (map_sum id f) y)"

text \<open>One call of an entry point.\<close>

definition api ::
    "nat \<Rightarrow> (callback \<Rightarrow> world \<Rightarrow> unit res option) \<Rightarrow> prog api \<Rightarrow> world \<Rightarrow> val res option" where
  "api n call a w =
     (case a of
        ExecLater p delay l \<Rightarrow> ret VString (execLater p delay l w)
      | ExecLaterNative2 p delay l \<Rightarrow> ret (\<lambda>i. VInt (uint i)) (execLaterNative2 p delay l w)
      | CancelCallback s l \<Rightarrow> ret VBool (apfst Inr (cancel_string s l w))
      | ExecCallbacks timeout runAll l \<Rightarrow>
          Option.bind (execCallbacks n call timeout runAll l w) (ret VBool)
      | CreateCallbackRegistry i p \<Rightarrow> ret (\<lambda>_. VUnit) (create i p w)
      | DeleteCallbackRegistry i \<Rightarrow> ret VBool (deleteCallbackRegistry i w)
      | NotifyRRefDeleted i \<Rightarrow> ret VBool (notifyRRefDeleted_api i w)
      | ExistsCallbackRegistry i \<Rightarrow> ret VBool (Inr (exists_loop i w), w)
      | SetCurrentRegistryId i \<Rightarrow> ret (\<lambda>_. VUnit) (Inr (), setCurrentRegistryId i w)
      | GetCurrentRegistryId \<Rightarrow> ret VInt (Inr (getCurrentRegistryId w), w)
      | ListQueue i \<Rightarrow> ret VList (list_queue_api i w)
      | Idle i \<Rightarrow> ret VBool (idle i w)
      | NextOpSecs i \<Rightarrow> ret VReal (nextOpSecs i w)
      | ExecLaterFd f rd wr ex timeout l \<Rightarrow> ret VPtr (execLater_fd f rd wr ex timeout l w)
      | FdCancel p \<Rightarrow> ret VBool (apfst Inr (fd_cancel p w))
      | ExecLaterFdNative f fds timeout l \<Rightarrow> ret VInt (execLaterFdNative f fds timeout l w)
      | EnsureInitialized \<Rightarrow> ret (\<lambda>_. VUnit) (ensureInitialized w))"

text \<open>
  A program runs its calls one after the other; undefined behaviour ends everything, and that
  of the user's own code is told apart from that of the package.
\<close>

fun user_exn :: "exn \<Rightarrow> exn" where
  "user_exn (Undefined m) = Undefined ''user code''"
| "user_exn e = e"

fun exec_prog :: "nat \<Rightarrow> prog \<Rightarrow> world \<Rightarrow> unit res option" where
  "exec_prog 0 p w = None"
| "exec_prog (Suc n) Done w = Some (Inr (), w)"
| "exec_prog (Suc n) (Throw e) w = Some (Inl (user_exn e), w)"
| "exec_prog (Suc n) (Call a k) w =
     (case interleave w of
        None \<Rightarrow> Some (Inl (Undefined ''freed ThreadArgs''), w)
      | Some w0 \<Rightarrow>
          (case api n (invoke (exec_prog n)) a w0 of
             None \<Rightarrow> None
           | Some (Inl (Undefined m), w1) \<Rightarrow> Some (Inl (Undefined m), w1)
           | Some (x, w1) \<Rightarrow> exec_prog n (k x) w1))"

end
