(* ===== verification/ExecFacts.thy ===== *)
theory ExecFacts
  imports Exec
begin

text \<open>
  What the entry points keep, whatever the callbacks do: the global invariant \<open>sys_ok\<close>, the
  clock, and the guards of \<open>execCallbacksOne\<close>. The locale \<open>callback_runner\<close> is the contract
  of the function that runs a callback; the model's own \<open>invoke (exec_prog n)\<close> meets it.
\<close>

section \<open>What only grows\<close>

definition grows :: "world \<Rightarrow> world \<Rightarrow> bool" where
  "grows v w \<longleftrightarrow>
     clock v = clock w \<and> tick w \<le> tick v \<and> next_ref w \<le> next_ref v \<and> moved_on (ticket_view v) (ticket_view w)"

lemma grows_refl [simp]: "grows w w"
  by (simp add: grows_def)

lemma grows_trans: "grows v w \<Longrightarrow> grows u v \<Longrightarrow> grows u w"
  by (auto simp: grows_def elim: moved_on_trans)

lemma later_grows: "later_than v w \<Longrightarrow> grows v w"
  by (auto simp: grows_def dest: later_thanD)

lemma growsD: "grows v w \<Longrightarrow> clock v = clock w" "grows v w \<Longrightarrow> next_ref w \<le> next_ref v"
  "grows v w \<Longrightarrow> moved_on (ticket_view v) (ticket_view w)" "grows v w \<Longrightarrow> tick w \<le> tick v"
  by (simp_all add: grows_def)

lemma interleave_sys_ok:
  assumes "sys_ok S w"
  obtains v where "interleave w = Some v" and "sys_ok S v" and "later_than v w"
proof -
  let ?w = "w\<lparr>turn := Suc (turn w)\<rparr>"
  obtain v where v: "bg_run (others w (turn w)) ?w = Some v" "sys_ok S v"
    using bg_run_sys_ok[of S ?w] assms by auto
  have "later_than ?w w" by (simp add: later_than_def main_core_def)
  from later_than_trans[OF this bg_run_later[OF v(1)]] v show thesis
    by (intro that) (simp_all add: interleave_def)
qed

lemma pop_frame: "later_than (snd (pop r t w)) w"
proof (cases rule: pop_cases[of r t w])
  case (2 cb q)
  then have "moved_on (ticket_view (upd_registry r (\<lambda>g. g\<lparr>queue := q\<rparr>) w)) (ticket_view w)"
    by (intro moved_on_subset[where xs = "[]"]) auto
  with 2 show ?thesis by (simp add: later_than_def main_core_def)
qed simp

lemma note_invoke_frame [simp]: "later_than (note_invoke r cb w) w"
  unfolding later_than_def
  by (simp add: main_core_def note_invoke_def moved_on_subset[where xs = "[callbackId cb]"])

lemma guards_frame [simp]:
  "sys_ok S (snd (guards_enter i w)) = sys_ok S w" "sys_ok S (guards_leave j w) = sys_ok S w"
  "grows (snd (guards_enter i w)) w" "grows (guards_leave j w) w"
  by (simp_all add: guards_enter_def guards_leave_def setCurrentRegistryId_def Let_def grows_def)

lemma new_object_grows: "grows (snd (new_object i w)) w"
  unfolding grows_def by (simp add: new_object_def moved_on_subset[where xs = "[]"])

lemma link_grows: "grows (link p r w) w"
  by (simp add: link_def grows_def split: option.split)

lemma table_put_grows: "grows (table_put i h w) w"
  by (simp add: table_put_def grows_def)

lemma create_grows: "create i p w = (x, w') \<Longrightarrow> grows w' w"
  using grows_trans[OF grows_trans[OF new_object_grows link_grows] table_put_grows] new_object_grows
  by (cases rule: create_cases[of i w p]) auto

lemma fold_orphan_tick [simp]: "tick (fold orphan cs w) = tick w"
  by (induction cs arbitrary: w) (simp_all add: orphan_def)

lemma cancel_grows: "grows (snd (cancel r i w)) w"
  unfolding grows_def using moved_on_cancel[of r i w] by (simp add: cancel_def case_prod_unfold Let_def)

lemma fold_orphan_view [simp]: "ticket_view (fold orphan cs w) = ticket_view w"
  by (induction cs arbitrary: w) (simp_all add: orphan_def)

lemma remove_grows: "grows (snd (remove i w)) w"
  by (simp add: remove_def Let_def grows_def split: option.split)

lemma prune_grows: "grows (pruneRegistries w) w"
proof -
  have "grows (prune_step i v) v" for i v
    by (simp add: prune_step_def remove_grows split: option.split)
  then have "grows (fold prune_step ks v) v" for ks v
    by (induction ks arbitrary: v) (auto intro: grows_trans)
  then show ?thesis by (simp add: pruneRegistries_def)
qed

lemma notifyRRefDeleted_grows: "grows (snd (notifyRRefDeleted i w)) w"
proof -
  from grows_trans[OF table_put_grows prune_grows] show ?thesis
    by (simp add: notifyRRefDeleted_def split: option.split)
qed

lemma createTimestamp_later: "later_than (snd (createTimestamp t w)) w"
  unfolding createTimestamp_def timestamp_in_eq by (simp add: later_than_tick split: option.split)

lemma new_thread_args_later: "later_than (snd (new_thread_args f fds t l w)) w"
proof -
  obtain y w1 where c: "createTimestamp t w = (y, w1)" by (cases "createTimestamp t w")
  have "later_than w1 w" using createTimestamp_later[of t w] c by simp
  then show ?thesis
    by (auto simp: new_thread_args_def c Let_def fd_waits_incr_def later_than_def main_core_def
        split: sum.split option.split)
qed

lemma start_thread_later: "later_than (snd (start_thread k w)) w"
  by (simp add: start_thread_def later_than_def main_core_def)

lemma execLater_fd_impl_later: "later_than (snd (execLater_fd_impl f fds t l w)) w"
proof -
  obtain y w1 where c: "new_thread_args f fds t l w = (y, w1)" by (cases "new_thread_args f fds t l w")
  have l: "later_than w1 w" using new_thread_args_later[of f fds t l w] c by simp
  then show ?thesis using later_than_trans[OF l start_thread_later]
    by (simp add: execLater_fd_impl_def c case_prod_unfold Let_def split: sum.split)
qed

lemma execLater_fd_native_later: "later_than (snd (execLater_fd_native f fds t l w)) w"
proof -
  obtain y w1 where c: "new_thread_args f fds t l w = (y, w1)" by (cases "new_thread_args f fds t l w")
  have l: "later_than w1 w" using new_thread_args_later[of f fds t l w] c by simp
  then show ?thesis using later_than_trans[OF l start_thread_later]
    by (simp add: execLater_fd_native_def c case_prod_unfold Let_def split: sum.split)
qed

lemma ensureInitialized_frame:
  "sys_ok S (snd (ensureInitialized w)) = sys_ok S w" "grows (snd (ensureInitialized w)) w"
  by (auto simp: ensureInitialized_def setCurrentRegistryId_def Let_def grows_def split: prod.split sum.split)

section \<open>The contract of a callback runner\<close>

text \<open>
  A runner takes over the object the callback owns, keeps the invariant for every set of
  objects owned by frames below it, and never uses a deleted object.
\<close>

locale callback_runner =
  fixes call :: "callback \<Rightarrow> world \<Rightarrow> unit res option"
  assumes call_ok: "sys_ok (later_arg (func cb) + S) w \<Longrightarrow> call cb w = Some (x, w') \<Longrightarrow> sys_ok S w'"
    and call_grows: "sys_ok (later_arg (func cb) + S) w \<Longrightarrow> call cb w = Some (x, w') \<Longrightarrow> grows w' w"
    and call_safe: "sys_ok (later_arg (func cb) + S) w \<Longrightarrow> call cb w \<noteq> Some (Inl (Undefined ''freed ThreadArgs''), w')"
begin

text \<open>One turn of the loop: the callback taken, and the state it is run in.\<close>

lemma run_loop_step:
  assumes "sys_ok S w" and "r < next_ref w" and "run_loop (Suc n) call runAll r now w = Some (x, w')"
  obtains (stop) v where "x = Inr ()" and "w' = v" and "sys_ok S v" and "grows v w" and "\<not> own_due now (heap v r)"
    | (run) v cb y u where "pop r now v = (Some cb, snd (pop r now v))"
      and "sys_ok (later_arg (func cb) + S) (note_invoke r cb (snd (pop r now v)))"
      and "call cb (note_invoke r cb (snd (pop r now v))) = Some (y, u)" and "sys_ok S u" and "grows u w"
      and "(case y of Inl e \<Rightarrow> x = Inl e \<and> w' = u
            | Inr _ \<Rightarrow> if runAll then run_loop n call runAll r now u = Some (x, w') else x = Inr () \<and> w' = u)"
proof -
  obtain v where v: "interleave w = Some v" "sys_ok S v" "later_than v w"
    by (rule interleave_sys_ok[OF assms(1)])
  have rv: "r < next_ref v" using assms(2) later_thanD(6)[OF v(3)] by simp
  obtain m v1 where p: "pop r now v = (m, v1)" by (cases "pop r now v")
  have l1: "later_than v1 w" using later_than_trans[OF v(3) pop_frame[of r now v]] p by simp
  note ok1 = pop_sys_ok[OF v(2) rv, of now, unfolded p]
  show thesis
  proof (cases m)
    case None
    then have "v1 = v" "\<not> own_due now (heap v r)" using p by (cases rule: pop_cases[of r now v]; simp)+
    then show thesis using assms(3) v p ok1 later_grows[OF l1] None by (intro stop[of v]) auto
  next
    case (Some cb)
    have ok2: "sys_ok (later_arg (func cb) + S) (note_invoke r cb v1)" using ok1 Some by simp
    obtain y u where u: "call cb (note_invoke r cb v1) = Some (y, u)"
      using assms(3) v(1) p Some by (auto split: option.splits)
    have "grows u w"
      by (rule grows_trans[OF later_grows[OF later_than_trans[OF l1 note_invoke_frame]] call_grows[OF ok2 u]])
    with call_ok[OF ok2 u] show thesis
      using assms(3) v(1) p Some u ok2 by (intro run[of v cb y u]) (auto split: sum.splits)
  qed
qed

lemma run_loop_ok:
  assumes "sys_ok S w" and "r < next_ref w" and "run_loop n call runAll r now w = Some (x, w')"
  shows "sys_ok S w' \<and> grows w' w \<and> x \<noteq> Inl (Undefined ''freed ThreadArgs'')"
  using assms
proof (induction n arbitrary: w)
  case (Suc n)
  from Suc.prems show ?case
  proof (cases rule: run_loop_step)
    case stop
    then show ?thesis by simp
  next
    case (run v cb y u)
    show ?thesis
    proof (cases "\<exists>e. y = Inl e")
      case True
      then show ?thesis using run call_safe by auto
    next
      case False
      have "r < next_ref u" using Suc.prems(2) growsD(2)[OF run(5)] by simp
      then show ?thesis using False run Suc.IH[OF run(4)] grows_trans[OF run(5)]
        by (cases y) (auto split: if_splits)
    qed
  qed
qed simp

end

lemma run_each_ok:
  assumes "sys_ok S w" and "\<forall>c \<in> set cs. c < next_ref w" and "run_each f cs w = Some (x, w')"
    and f: "\<And>c w x w'. sys_ok S w \<Longrightarrow> c < next_ref w \<Longrightarrow> f c w = Some (x, w') \<Longrightarrow>
      sys_ok S w' \<and> grows w' w \<and> x \<noteq> Inl (Undefined ''freed ThreadArgs'')"
  shows "sys_ok S w' \<and> grows w' w \<and> x \<noteq> Inl (Undefined ''freed ThreadArgs'')"
  using assms(1-3)
proof (induction cs arbitrary: w)
  case (Cons c cs)
  then obtain y u where u: "f c w = Some (y, u)" by (auto split: option.splits)
  have c: "sys_ok S u \<and> grows u w \<and> y \<noteq> Inl (Undefined ''freed ThreadArgs'')"
    using f[OF Cons.prems(1) _ u] Cons.prems(2) by simp
  show ?case
  proof (cases y)
    case (Inl e)
    then show ?thesis using Cons.prems(3) u c by simp
  next
    case (Inr a)
    have "\<forall>c \<in> set cs. c < next_ref u" using Cons.prems(2) growsD(2)[of u w] c by auto
    then show ?thesis using Cons.prems(3) u c Inr Cons.IH[of u] by (auto intro: grows_trans)
  qed
qed auto

lemma execCallbacksOne_cases:
  assumes "execCallbacksOne (Suc n) call runAll r now w = Some (x, w')"
  obtains y w2 w3 where "run_loop (Suc n) call runAll r now (snd (guards_enter (getId w r) w)) = Some (y, w2)"
    and "case y of Inl e \<Rightarrow> x = Inl e \<and> w3 = w2
       | Inr _ \<Rightarrow> run_each (\<lambda>c. execCallbacksOne n call True c now) (children (heap w2 r)) w2 = Some (x, w3)"
    and "w' = (if leaves_frame x then guards_leave (fst (guards_enter (getId w r) w)) w3 else w3)"
proof (cases "run_loop (Suc n) call runAll r now (snd (guards_enter (getId w r) w))")
  case None
  then show thesis using assms by (simp add: case_prod_unfold Let_def del: run_loop.simps)
next
  case (Some yw)
  obtain y w2 where yw: "yw = (y, w2)" by (cases yw)
  show thesis
  proof (cases y)
    case (Inl e)
    then show thesis using assms Some yw
      by (intro that[of y w2 w2]) (auto simp: case_prod_unfold Let_def simp del: run_loop.simps)
  next
    case (Inr u)
    then obtain z w3 where "run_each (\<lambda>c. execCallbacksOne n call True c now) (children (heap w2 r)) w2 = Some (z, w3)"
      using assms Some yw
      by (cases "run_each (\<lambda>c. execCallbacksOne n call True c now) (children (heap w2 r)) w2")
         (auto simp: case_prod_unfold Let_def simp del: run_loop.simps)
    then show thesis using assms Some yw Inr
      by (intro that[of y w2 w3]) (auto simp: case_prod_unfold Let_def simp del: run_loop.simps)
  qed
qed

lemma wait_grows:
  assumes "wait secs recur r w = Some (x, w')"
  shows "grows w' w"
  using assms
proof (cases rule: wait_cases)
  case (loop e y v)
  have l: "later_than v (lock (w\<lparr>tick := Suc (tick w)\<rparr>))"
    by (rule wait_loop_later[OF loop(2)]) (simp add: lock_def)
  show ?thesis using loop(3) later_thanD(1,2,6,7)[OF l]
    by (cases y) (auto simp: lock_def unlock_def grows_def)
qed (simp add: grows_def)

context callback_runner begin

lemma execCallbacksOne_ok:
  assumes "sys_ok S w" and "r < next_ref w" and "execCallbacksOne n call runAll r now w = Some (x, w')"
  shows "sys_ok S w' \<and> grows w' w \<and> x \<noteq> Inl (Undefined ''freed ThreadArgs'')"
  using assms
proof (induction n arbitrary: w r runAll x w')
  case (Suc n)
  let ?w1 = "snd (guards_enter (getId w r) w)" and ?old = "fst (guards_enter (getId w r) w)"
  have ok1: "sys_ok S ?w1" and g1: "grows ?w1 w" using Suc.prems(1) by simp_all
  have r1: "r < next_ref ?w1" using Suc.prems(2) growsD(2)[OF g1] by simp
  obtain y w2 w3 where y: "run_loop (Suc n) call runAll r now ?w1 = Some (y, w2)"
    and body: "case y of Inl e \<Rightarrow> x = Inl e \<and> w3 = w2
       | Inr _ \<Rightarrow> run_each (\<lambda>c. execCallbacksOne n call True c now) (children (heap w2 r)) w2 = Some (x, w3)"
    and w': "w' = (if leaves_frame x then guards_leave ?old w3 else w3)"
    using Suc.prems(3) by (rule execCallbacksOne_cases)
  note ok2 = run_loop_ok[OF ok1 r1 y]
  have r2: "r < next_ref w2" using r1 growsD(2)[of w2 ?w1] ok2 by simp
  have "sys_ok S w3 \<and> grows w3 w2 \<and> x \<noteq> Inl (Undefined ''freed ThreadArgs'')"
  proof (cases y)
    case (Inl e)
    then show ?thesis using body ok2 by auto
  next
    case (Inr u)
    have ac: "heap_acyclic w2" using ok2 sys_ok_parts(1) by blast
    have cs: "\<forall>c \<in> set (children (heap w2 r)). c < next_ref w2" using heap_acyclicD[OF ac r2] by blast
    show ?thesis
      by (rule run_each_ok[where f = "\<lambda>c. execCallbacksOne n call True c now" and cs = "children (heap w2 r)"])
         (use ok2 cs body Inr Suc.IH in auto)
  qed
  moreover have "grows w2 w" using ok2 g1 grows_trans by blast
  ultimately have "sys_ok S w3" "grows w3 w" "x \<noteq> Inl (Undefined ''freed ThreadArgs'')"
    using grows_trans by blast+
  then show ?case using grows_trans[OF \<open>grows w3 w\<close> guards_frame(4)] by (simp add: w')
qed simp

lemma execCallbacks_ok:
  assumes "sys_ok S w" and "execCallbacks n call secs runAll i w = Some (x, w')"
  shows "sys_ok S w' \<and> grows w' w \<and> x \<noteq> Inl (Undefined ''freed ThreadArgs'')"
proof (cases "getRegistry w i")
  case None
  then show ?thesis using assms by (auto simp: execCallbacks_def no_registry_def)
next
  case (Some r)
  have r: "r < next_ref w" using assms(1) Some by (intro live_lt) (auto simp: live_def)
  obtain y w1 where y: "wait secs True r w = Some (y, w1)"
    using assms(2) Some by (auto simp: execCallbacks_def split: option.splits)
  have ok1: "sys_ok S w1" and g1: "grows w1 w" using wait_sys_ok[OF assms(1) y] wait_grows[OF y] .
  show ?thesis
  proof (cases "y = Inr True")
    case False
    moreover have "y \<noteq> Inl (Undefined ''freed ThreadArgs'')"
      using wait_error[OF assms(1), of secs True r "Undefined ''freed ThreadArgs''" w1] y by auto
    ultimately show ?thesis using assms(2) Some y ok1 g1
      by (cases y) (auto simp: execCallbacks_def)
  next
    case True
    let ?w2 = "w1\<lparr>tick := Suc (tick w1)\<rparr>"
    obtain z w3 where z: "execCallbacksOne n call runAll r (clock w1 (tick w1)) ?w2 = Some (z, w3)"
      using assms(2) Some y True
      by (auto simp: execCallbacks_def timestamp_now_def get_current_time_def split: option.splits)
    have g2: "grows ?w2 w" using grows_trans[OF g1 later_grows[OF later_than_tick]] .
    have "sys_ok S w3 \<and> grows w3 ?w2 \<and> z \<noteq> Inl (Undefined ''freed ThreadArgs'')"
      using ok1 r growsD(2)[OF g2] by (intro execCallbacksOne_ok[OF _ _ z]) simp_all
    then show ?thesis
      using assms(2) Some y True z pruneRegistries_sys_ok[of S w3] grows_trans[OF g2]
        grows_trans[OF _ prune_grows[of w3], of w]
      by (cases z) (auto simp: execCallbacks_def timestamp_now_def get_current_time_def)
  qed
qed

lemma top_level_loop_ok:
  assumes "sys_ok S w" and "top_level_loop i n call any w = Some (x, w')"
  shows "sys_ok S w' \<and> grows w' w \<and> x \<noteq> Inl (Undefined ''freed ThreadArgs'')"
  using assms
proof (induction i arbitrary: any w)
  case (Suc i)
  then obtain y w1 where y: "execCallbacks n call (Fin 0) True GLOBAL_LOOP w = Some (y, w1)"
    by (auto split: option.splits)
  note ok1 = execCallbacks_ok[OF Suc.prems(1) y]
  show ?case
  proof (cases "y = Inr True")
    case True
    then show ?thesis using Suc.prems(2) y ok1 Suc.IH[of w1] grows_trans[of w1 w] by auto
  next
    case False
    then show ?thesis using Suc.prems(2) y ok1 by (cases y) auto
  qed
qed auto

end

section \<open>The entry points\<close>

text \<open>\<open>fine S w y\<close>: what a call that gave \<open>y\<close> in state \<open>w\<close> has to keep.\<close>

definition fine :: "nat multiset \<Rightarrow> world \<Rightarrow> 'a res option \<Rightarrow> bool" where
  "fine S w y \<longleftrightarrow>
     (\<forall>x w'. y = Some (x, w') \<longrightarrow>
        sys_ok S w' \<and> grows w' w \<and> x \<noteq> Inl (Undefined ''freed ThreadArgs''))"

lemma fine_ret:
  assumes "sys_ok S (snd y)" and "grows (snd y) w" and "fst y \<noteq> Inl (Undefined ''freed ThreadArgs'')"
  shows "fine S w (ret f y)"
proof -
  have "map_sum id f (fst y) \<noteq> Inl (Undefined ''freed ThreadArgs'')" using assms(3) by (cases "fst y") auto
  then show ?thesis using assms by (cases y) (auto simp: fine_def ret_def)
qed

lemma timestamp_in_error: "fst (timestamp_in s w) \<noteq> Inl (Undefined ''freed ThreadArgs'')"
  by (simp add: timestamp_in_eq split: option.split)

lemma add_error: "fst (add r f s w) \<noteq> Inl (Undefined ''freed ThreadArgs'')"
  by (cases "addSeconds (clock w (tick w)) s") (simp_all add: add_Inl add_Inr)

lemma doExecLater_error: "fst (doExecLater r f s b w) \<noteq> Inl (Undefined ''freed ThreadArgs'')"
  using add_error[of r f s w] by (auto simp: doExecLater_def Let_def split: prod.split sum.split)

lemma ensureInitialized_error: "fst (ensureInitialized w) \<noteq> Inl (Undefined m)"
  by (auto simp: ensureInitialized_def ensureAutorunnerInitialized_def Let_def addInputHandler_def
      split: prod.split sum.split option.splits if_splits)

lemma execLater_fine:
  assumes "sys_ok S w"
  shows "fine S w (ret f (execLater p d l w))"
proof -
  obtain y w1 where e: "ensureInitialized w = (y, w1)" by (cases "ensureInitialized w")
  have ok1: "sys_ok S w1" and g1: "grows w1 w" and y: "y \<noteq> Inl (Undefined m)" for m
    using ensureInitialized_frame(1)[of S w] ensureInitialized_frame(2)[of w] ensureInitialized_error[of w] e assms
    by auto
  show ?thesis
  proof (cases "\<exists>u r. y = Inr u \<and> getRegistry w1 l = Some r")
    case False
    then show ?thesis using e ok1 g1 y
      by (intro fine_ret) (auto simp: execLater_def no_registry_def split: sum.splits option.splits)
  next
    case True
    then obtain u r where yr: "y = Inr u" "getRegistry w1 l = Some r" by blast
    obtain z w2 where d: "doExecLater r (RFunction p) d True w1 = (z, w2)"
      by (cases "doExecLater r (RFunction p) d True w1")
    have "sys_ok S w2" using ok1 getRegistry_lt[OF ok1 yr(2)] by (intro doExecLater_sys_ok[OF _ _ d]) simp_all
    moreover have "grows w2 w"
      using grows_trans[OF g1 later_grows[OF doExecLater_later[of r "RFunction p" d True w1]]] d by simp
    moreover have "z \<noteq> Inl (Undefined ''freed ThreadArgs'')"
      using doExecLater_error[of r "RFunction p" d True w1] d by simp
    ultimately show ?thesis using e yr d by (intro fine_ret) (auto simp: execLater_def split: sum.split)
  qed
qed

lemma scheduleCallback_error: "fst (scheduleCallback f d l w) \<noteq> Inl (Undefined ''freed ThreadArgs'')"
  by (simp add: scheduleCallback_def doExecLater_error split: option.split)

lemma execLaterNative2_fine:
  assumes "sys_ok S w"
  shows "fine S w (ret f (execLaterNative2 p d l w))"
proof -
  obtain y w1 where e: "ensureInitialized w = (y, w1)" by (cases "ensureInitialized w")
  have ok1: "sys_ok S w1" and g1: "grows w1 w" and y: "y \<noteq> Inl (Undefined m)" for m
    using ensureInitialized_frame(1)[of S w] ensureInitialized_frame(2)[of w] ensureInitialized_error[of w] e assms
    by auto
  have "sys_ok S (snd (scheduleCallback (NativeFunction p) d l w1))"
    using ok1 by (intro scheduleCallback_sys_ok[where f = "NativeFunction p", OF _ prod.collapse[symmetric]]) simp
  then show ?thesis using e ok1 g1 y grows_trans[OF g1 later_grows[OF scheduleCallback_later]] scheduleCallback_error
    by (intro fine_ret) (auto simp: execLaterNative2_def split: sum.split)
qed

lemma createTimestamp_error: "fst (createTimestamp t w) \<noteq> Inl (Undefined ''freed ThreadArgs'')"
  unfolding createTimestamp_def by (rule timestamp_in_error)

lemma execLater_fd_fine:
  assumes "sys_ok S w"
  shows "fine S w (ret f (execLater_fd_impl g fds t l w))"
proof (rule fine_ret)
  show "sys_ok S (snd (execLater_fd_impl g fds t l w))"
    by (rule execLater_fd_impl_sys_ok[OF assms prod.collapse[symmetric]])
  show "grows (snd (execLater_fd_impl g fds t l w)) w" by (rule later_grows[OF execLater_fd_impl_later])
  show "fst (execLater_fd_impl g fds t l w) \<noteq> Inl (Undefined ''freed ThreadArgs'')"
    using createTimestamp_error[of t w]
    by (auto simp: execLater_fd_impl_def new_thread_args_def case_prod_unfold Let_def split: sum.splits option.splits)
qed

lemma execLaterFdNative_fine:
  assumes "sys_ok S w"
  shows "fine S w (ret f (execLaterFdNative g fds t l w))"
proof -
  obtain y w1 where e: "ensureInitialized w = (y, w1)" by (cases "ensureInitialized w")
  have ok1: "sys_ok S w1" and g1: "grows w1 w" and y: "y \<noteq> Inl (Undefined m)" for m
    using ensureInitialized_frame(1)[of S w] ensureInitialized_frame(2)[of w] ensureInitialized_error[of w] e assms
    by auto
  let ?n = "execLater_fd_native (FdNative g) fds t l w1"
  have "sys_ok S (snd ?n)" by (rule execLater_fd_native_sys_ok[OF ok1 prod.collapse[symmetric]])
  moreover have "grows (snd ?n) w" by (rule grows_trans[OF g1 later_grows[OF execLater_fd_native_later]])
  moreover have "fst ?n \<noteq> Inl (Undefined ''freed ThreadArgs'')"
    using createTimestamp_error[of t w1]
    by (auto simp: execLater_fd_native_def new_thread_args_def case_prod_unfold Let_def split: sum.splits option.splits)
  ultimately show ?thesis using e ok1 g1 y
    by (intro fine_ret) (auto simp: execLaterFdNative_def split: sum.split)
qed

lemma list_queue_frame: "\<exists>n. snd (list_queue r w) = w\<lparr>tick := n\<rparr> \<and> tick w \<le> n"
proof -
  have "\<exists>n. snd (list_loop q w) = w\<lparr>tick := n\<rparr> \<and> tick w \<le> n" for q
  proof (induction q arbitrary: w)
    case Nil
    show ?case by (intro exI[of _ "tick w"]) simp
  next
    case (Cons cb q)
    let ?w1 = "w\<lparr>tick := Suc (tick w)\<rparr>"
    obtain n where "snd (list_loop q ?w1) = ?w1\<lparr>tick := n\<rparr>" "tick ?w1 \<le> n" using Cons[of ?w1] by blast
    then show ?case
      by (intro exI[of _ n]) (simp add: rRepresentation_def timestamp_now_def get_current_time_def case_prod_unfold Let_def)
  qed
  then show ?thesis by (simp add: list_queue_def)
qed

context callback_runner begin

lemma api_fine:
  assumes "sys_ok S w"
  shows "fine S w (api n call a w)"
proof (cases a)
  case (ExecLater p d l)
  then show ?thesis using execLater_fine[OF assms] by (simp add: api_def)
next
  case (ExecLaterNative2 p d l)
  then show ?thesis using execLaterNative2_fine[OF assms] by (simp add: api_def)
next
  case (CancelCallback s l)
  have "sys_ok S (snd (cancel_string s l w))" "grows (snd (cancel_string s l w)) w"
    using assms cancel_sys_ok[OF assms]
    by (auto simp: cancel_string_def cancel_id_def cancel_grows split: option.split)
  then show ?thesis by (simp add: api_def CancelCallback) (intro fine_ret; simp)
next
  case (ExecCallbacks t b l)
  show ?thesis unfolding api_def ExecCallbacks api.case fine_def
  proof (intro allI impI)
    fix x w' assume "Option.bind (execCallbacks n call t b l w) (ret VBool) = Some (x, w')"
    then obtain y where y: "execCallbacks n call t b l w = Some (y, w')" "x = map_sum id VBool y"
      by (auto simp: ret_def bind_eq_Some_conv)
    from execCallbacks_ok[OF assms y(1)] y(2)
    show "sys_ok S w' \<and> grows w' w \<and> x \<noteq> Inl (Undefined ''freed ThreadArgs'')" by (cases y) auto
  qed
next
  case (CreateCallbackRegistry i p)
  obtain y w1 where c: "create i p w = (y, w1)" by (cases "create i p w")
  have "y \<noteq> Inl (Undefined m)" for m using c by (cases rule: create_cases[of i w p]) auto
  with create_sys_ok[OF assms c] create_grows[OF c] show ?thesis
    by (simp add: api_def CreateCallbackRegistry c) (intro fine_ret; simp)
next
  case (DeleteCallbackRegistry i)
  then show ?thesis using assms remove_sys_ok[OF assms] remove_grows
    by (simp add: api_def) (intro fine_ret; simp add: deleteCallbackRegistry_def)
next
  case (NotifyRRefDeleted i)
  then show ?thesis using assms notifyRRefDeleted_sys_ok[OF assms] notifyRRefDeleted_grows
    by (simp add: api_def) (intro fine_ret; simp add: notifyRRefDeleted_api_def)
next
  case (ExistsCallbackRegistry i)
  then show ?thesis using assms by (simp add: api_def) (intro fine_ret; simp)
next
  case (SetCurrentRegistryId i)
  then show ?thesis using assms
    by (simp add: api_def) (intro fine_ret; simp add: setCurrentRegistryId_def grows_def)
next
  case GetCurrentRegistryId
  then show ?thesis using assms by (simp add: api_def) (intro fine_ret; simp)
next
  case (ListQueue i)
  have "sys_ok S (snd (list_queue r w)) \<and> grows (snd (list_queue r w)) w" for r
    using list_queue_frame[of r w] assms by (elim exE conjE) (simp add: grows_def)
  then have "sys_ok S (snd (list_queue_api i w))" "grows (snd (list_queue_api i w)) w"
    using assms by (simp_all add: list_queue_api_def split: option.split)
  moreover have "fst (list_queue_api i w) \<noteq> Inl (Undefined m)" for m
    by (simp add: list_queue_api_def no_registry_def split: option.split)
  ultimately show ?thesis by (simp add: api_def ListQueue) (intro fine_ret; simp)
next
  case (Idle i)
  then show ?thesis using assms
    by (simp add: api_def) (intro fine_ret; simp add: idle_def no_registry_def split: option.split)
next
  case (NextOpSecs i)
  then show ?thesis using assms
    by (simp add: api_def)
       (intro fine_ret; simp add: nextOpSecs_def no_registry_def timestamp_now_def get_current_time_def grows_def
          split: option.split)
next
  case (ExecLaterFd f rd wr ex t l)
  then show ?thesis using execLater_fd_fine[OF assms] by (simp add: api_def execLater_fd_def Let_def)
next
  case (FdCancel p)
  then show ?thesis using assms
    by (simp add: api_def fd_cancel_def) (intro fine_ret; simp add: grows_def)
next
  case (ExecLaterFdNative f fds t l)
  then show ?thesis using execLaterFdNative_fine[OF assms] by (simp add: api_def)
next
  case EnsureInitialized
  then show ?thesis using assms ensureInitialized_error ensureInitialized_frame(2)
    by (simp add: api_def) (intro fine_ret; simp add: ensureInitialized_frame(1))
qed

end

section \<open>Tying the knot\<close>

text \<open>Running a program that is fine makes a runner that meets the contract.\<close>

lemma later_callback_fine:
  assumes run: "\<And>S p w. sys_ok S w \<Longrightarrow> fine S w (run p w)" and ok: "sys_ok ({#k#} + S) w"
  shows "fine S w (later_callback run k w)"
  unfolding fine_def
proof (intro allI impI)
  fix x w' assume r: "later_callback run k w = Some (x, w')"
  obtain a where a: "thread_args_store w k = Some a"
    by (rule owned_alive[OF sys_okD(3)[OF ok], of k]) simp
  have s: "sys_ok S w'"
    by (rule later_callback_sys_ok[OF _ ok r]) (use run in \<open>auto simp: fine_def\<close>)
  have del: "grows (delete_args k v) v" for v by (rule later_grows[OF delete_args_later])
  have "grows w' w \<and> x \<noteq> Inl (Undefined ''freed ThreadArgs'')"
    using a r
  proof (cases rule: later_callback_cases)
    case cancelled
    have "grows (w\<lparr>actives := (actives w)(ta_active a := False)\<rparr>) w" by (simp add: grows_def)
    from grows_trans[OF this del] cancelled show ?thesis by simp
  next
    case (run p z v)
    let ?w2 = "w\<lparr>actives := (actives w)(ta_active a := False), trace := trace w @ [EvFdCallback k (ta_results a)]\<rparr>"
    have "sys_ok ({#k#} + S) ?w2" using ok sys_ok_frame[of ?w2 w] by (simp add: core_def fd_core_def)
    from assms(1)[OF this, of p] run(2) have z: "grows v ?w2" "z \<noteq> Inl (Undefined ''freed ThreadArgs'')"
      by (simp_all add: fine_def)
    have "ticket_view ?w2 = ticket_view w" by (simp add: ticket_view_def)
    then have g: "grows v w" using z(1) by (simp add: grows_def)
    have "x \<noteq> Inl (Undefined ''freed ThreadArgs'')"
      using run(3) z(2) by (cases z rule: unwind_protect.cases) auto
    then show ?thesis using run(4) g grows_trans[OF g del] by simp
  qed
  with s show "sys_ok S w' \<and> grows w' w \<and> x \<noteq> Inl (Undefined ''freed ThreadArgs'')" by simp
qed

lemma invoke_runner:
  assumes run: "\<And>S p w. sys_ok S w \<Longrightarrow> fine S w (run p w)"
  shows "callback_runner (invoke run)"
proof -
  have rp: "unwind_protect y \<noteq> Inl (Undefined ''freed ThreadArgs'')" "rethrow_native y \<noteq> Inl (Undefined ''freed ThreadArgs'')"
    if "y \<noteq> Inl (Undefined ''freed ThreadArgs'')" for y :: "exn + unit"
    using that by (cases y rule: unwind_protect.cases; auto)+
  have "fine S w (invoke run cb w)" if ok: "sys_ok (later_arg (func cb) + S) w" for S cb w
  proof (cases "func cb")
    case (RFunction p)
    have "fine S w (run p w)" using run ok RFunction by simp
    then show ?thesis using rp by (auto simp: fine_def invoke_def RFunction)
  next
    case (NativeFunction p)
    have "fine S w (run p w)" using run ok NativeFunction by simp
    then show ?thesis using rp by (auto simp: fine_def invoke_def NativeFunction)
  next
    case (LaterCallback k)
    have "fine S w (later_callback run k w)" using ok LaterCallback by (intro later_callback_fine[OF run]) simp_all
    then show ?thesis using rp by (auto simp: fine_def invoke_def LaterCallback)
  qed
  then show ?thesis unfolding callback_runner_def fine_def by (intro conjI allI impI notI) blast+
qed

lemma exec_prog_fine: "sys_ok S w \<Longrightarrow> fine S w (exec_prog n p w)"
proof (induction n arbitrary: S p w)
  case 0
  then show ?case by (simp add: fine_def)
next
  case (Suc n)
  show ?case
  proof (cases p)
    case Done
    then show ?thesis using Suc.prems by (simp add: fine_def)
  next
    case (Throw e)
    then show ?thesis using Suc.prems by (cases e) (simp_all add: fine_def)
  next
    case (Call a k)
    obtain v where v: "interleave w = Some v" "sys_ok S v" "later_than v w"
      by (rule interleave_sys_ok[OF Suc.prems])
    have "callback_runner (invoke (exec_prog n))" by (rule invoke_runner) (rule Suc.IH)
    then have a: "fine S v (api n (invoke (exec_prog n)) a v)"
      using v(2) by (rule callback_runner.api_fine)
    show ?thesis unfolding fine_def
    proof (intro allI impI)
      fix x w' assume r: "exec_prog (Suc n) p w = Some (x, w')"
      then obtain y u where y: "api n (invoke (exec_prog n)) a v = Some (y, u)"
        using v(1) Call by (auto split: option.splits)
      with a have u: "sys_ok S u" "grows u v" "y \<noteq> Inl (Undefined ''freed ThreadArgs'')"
        by (simp_all add: fine_def)
      note g = grows_trans[OF later_grows[OF v(3)] u(2)]
      consider m where "y = Inl (Undefined m)" | "exec_prog (Suc n) p w = exec_prog n (k y) u"
        using v(1) Call y by (cases y rule: unwind_protect.cases) auto
      then show "sys_ok S w' \<and> grows w' w \<and> x \<noteq> Inl (Undefined ''freed ThreadArgs'')"
      proof cases
        case 1
        then show ?thesis using r v(1) Call y u g by auto
      next
        case 2
        with Suc.IH[OF u(1), of "k y"] r show ?thesis using grows_trans[OF g] by (simp add: fine_def)
      qed
    qed
  qed
qed

text \<open>The model's runner, whatever the fuel.\<close>

interpretation runner: callback_runner "invoke (exec_prog n)" for n
  by (rule invoke_runner) (rule exec_prog_fine)

end
