(* ===== verification/RunOrder.thy ===== *)
theory RunOrder
  imports ExecFacts
begin

text \<open>
  What \<open>execCallbacksOne\<close> of \<^verbatim>\<open>later2.cpp\<close> runs and in which order. \<open>run_order\<close> is the
  specification: the due callbacks of the loop by time and id, then those of its children,
  depth first. The loop runs exactly these when the callbacks leave the queues alone, and
  nothing that is not due whatever they do.
\<close>

section \<open>Only what is due\<close>

text \<open>Two runners that agree on due callbacks cannot be told apart.\<close>

definition agree :: "(callback \<Rightarrow> bool) \<Rightarrow> (callback \<Rightarrow> 'a) \<Rightarrow> (callback \<Rightarrow> 'a) \<Rightarrow> bool" where
  "agree P f g \<longleftrightarrow> (\<forall>cb. P cb \<longrightarrow> f cb = g cb)"

lemma pop_due: "pop r t w = (Some cb, w') \<Longrightarrow> cbWhen cb \<le> t"
  by (cases rule: pop_cases[of r t w]) auto

lemma run_loop_agree:
  assumes "agree (\<lambda>cb. cbWhen cb \<le> now) f g"
  shows "run_loop n f runAll r now w = run_loop n g runAll r now w"
proof (induction n arbitrary: w runAll)
  case (Suc n)
  have "f cb = g cb" if "pop r now v = (Some cb, v')" for v cb v'
    using assms pop_due[OF that] by (simp add: agree_def)
  then show ?case
    by (auto simp: Suc.IH split: option.split prod.split sum.split)
qed simp

lemma run_each_cong: "(\<And>c v. c \<in> set cs \<Longrightarrow> f c v = g c v) \<Longrightarrow> run_each f cs w = run_each g cs w"
  by (induction cs arbitrary: w) (auto split: option.split sum.split)

lemma execCallbacksOne_agree:
  assumes "agree (\<lambda>cb. cbWhen cb \<le> now) f g"
  shows "execCallbacksOne n f runAll r now w = execCallbacksOne n g runAll r now w"
proof (induction n arbitrary: runAll r w)
  case (Suc n)
  have e: "run_each (\<lambda>c. execCallbacksOne n f True c now) cs v = run_each (\<lambda>c. execCallbacksOne n g True c now) cs v" for cs v
    by (rule run_each_cong) (rule Suc.IH)
  show ?case
    unfolding execCallbacksOne.simps run_loop_agree[OF assms] e by (rule refl)
qed simp

section \<open>The specification\<close>

definition is_due :: "timespec \<Rightarrow> callback \<Rightarrow> bool" where
  "is_due now cb \<longleftrightarrow> cbWhen cb \<le> now"

definition taken :: "bool \<Rightarrow> timespec \<Rightarrow> callback list \<Rightarrow> callback list" where
  "taken runAll now q =
     (if runAll then takeWhile (is_due now) q else take 1 (takeWhile (is_due now) q))"

fun run_order :: "nat \<Rightarrow> world \<Rightarrow> timespec \<Rightarrow> bool \<Rightarrow> nat \<Rightarrow> event list" where
  "run_order 0 w now runAll r = []"
| "run_order (Suc n) w now runAll r =
     map (\<lambda>cb. EvInvoke (regId (heap w r)) (callbackId cb)) (taken runAll now (queue (heap w r))) @
     concat (map (run_order n w now True) (children (heap w r)))"

definition left :: "bool \<Rightarrow> timespec \<Rightarrow> registry \<Rightarrow> registry" where
  "left runAll now g = g\<lparr>queue := drop (length (taken runAll now (queue g))) (queue g)\<rparr>"

lemma left_shape [simp]:
  "regId (left b now g) = regId g" "parent (left b now g) = parent g"
  "children (left b now g) = children g" "fd_waits (left b now g) = fd_waits g"
  by (simp_all add: left_def)

text \<open>The registries after everything due below \<open>r\<close> has been taken.\<close>

definition drained :: "world \<Rightarrow> timespec \<Rightarrow> bool \<Rightarrow> nat \<Rightarrow> nat \<Rightarrow> registry" where
  "drained w now runAll r s =
     (if subtree w r s then left (s = r \<longrightarrow> runAll) now (heap w s) else heap w s)"

section \<open>Quiet callbacks\<close>

definition quiet_core :: "world \<Rightarrow> (nat \<Rightarrow> registry) \<times> nat \<times> (int \<times> handle) list \<times> event list \<times> (nat \<Rightarrow> bg_event list)" where
  "quiet_core w = (heap w, next_ref w, registries w, trace w, others w)"

definition alone :: "world \<Rightarrow> bool" where
  "alone w \<longleftrightarrow> (\<forall>i. others w i = [])"

definition quiet :: "(callback \<Rightarrow> world \<Rightarrow> unit res option) \<Rightarrow> callback \<Rightarrow> bool" where
  "quiet call cb \<longleftrightarrow>
     (\<forall>w. alone w \<longrightarrow> (\<exists>w'. call cb w = Some (Inr (), w') \<and> quiet_core w' = quiet_core w))"

lemma quiet_Done: "func cb = RFunction Done \<or> func cb = NativeFunction Done \<Longrightarrow> quiet (invoke (exec_prog (Suc n))) cb"
  by (auto simp: quiet_def invoke_def)

text \<open>One loop: it takes what \<open>taken\<close> says, one after the other.\<close>

lemma taken_True_Cons: "taken True now (cb # q) = (if cbWhen cb \<le> now then cb # taken True now q else [])"
  by (simp add: taken_def is_due_def)

lemma pop_Cons: "queue (heap w r) = cb # q \<Longrightarrow> cbWhen cb \<le> now \<Longrightarrow>
   pop r now w = (Some cb, upd_registry r (\<lambda>g. g\<lparr>queue := q\<rparr>) w)"
  by (cases rule: pop_cases[of r now w]) (auto simp: own_due_def)

lemma pop_None: "\<not> own_due now (heap w r) \<Longrightarrow> pop r now w = (None, w)"
  by (simp add: pop_def)

lemma run_loop_quiet:
  assumes "alone w" and "\<forall>cb \<in> set (queue (heap w r)). quiet call cb" and "length (queue (heap w r)) < n"
  shows "\<exists>w'. run_loop n call runAll r now w = Some (Inr (), w') \<and>
    quiet_core w' = ((heap w)(r := left runAll now (heap w r)), next_ref w, registries w,
      trace w @ map (\<lambda>cb. EvInvoke (regId (heap w r)) (callbackId cb)) (taken runAll now (queue (heap w r))),
      others w)"
  using assms
proof (induction n arbitrary: w)
  case (Suc n)
  let ?w = "w\<lparr>turn := Suc (turn w)\<rparr>"
  have i: "interleave w = Some ?w" using Suc.prems(1) by (simp add: interleave_def alone_def)
  show ?case
  proof (cases "own_due now (heap w r)")
    case False
    then have "taken runAll now (queue (heap w r)) = []"
      by (cases "queue (heap w r)") (auto simp: own_due_def taken_def is_due_def)
    moreover have "left runAll now (heap w r) = heap w r"
      using calculation by (simp add: left_def)
    ultimately show ?thesis using i pop_None[of now ?w r] False
      by (simp add: quiet_core_def)
  next
    case True
    then obtain cb q where q: "queue (heap w r) = cb # q" "cbWhen cb \<le> now"
      by (auto simp: own_due_def not_less split: list.splits)
    let ?v = "note_invoke r cb (upd_registry r (\<lambda>g. g\<lparr>queue := q\<rparr>) ?w)"
    have p: "pop r now ?w = (Some cb, upd_registry r (\<lambda>g. g\<lparr>queue := q\<rparr>) ?w)"
      using q by (intro pop_Cons) simp_all
    have "alone ?v" using Suc.prems(1) by (simp add: alone_def note_invoke_def)
    then obtain u where u: "call cb ?v = Some (Inr (), u)" "quiet_core u = quiet_core ?v"
      using Suc.prems(2) q(1) by (auto simp: quiet_def)
    have uq: "heap u = (heap w)(r := (heap w r)\<lparr>queue := q\<rparr>)" "next_ref u = next_ref w"
      "registries u = registries w" "others u = others w"
      "trace u = trace w @ [EvInvoke (regId (heap w r)) (callbackId cb)]"
      using u(2) by (auto simp: quiet_core_def note_invoke_def getId_def)
    show ?thesis
    proof (cases runAll)
      case False
      then show ?thesis using i p u q uq
        by (simp add: quiet_core_def taken_def left_def is_due_def)
    next
      case all: True
      have "\<exists>w'. run_loop n call runAll r now u = Some (Inr (), w') \<and>
        quiet_core w' = ((heap u)(r := left runAll now (heap u r)), next_ref u, registries u,
          trace u @ map (\<lambda>cb. EvInvoke (regId (heap u r)) (callbackId cb)) (taken runAll now (queue (heap u r))),
          others u)"
        using Suc.prems q uq by (intro Suc.IH) (simp_all add: alone_def)
      then show ?thesis using i p u q uq all
        by (auto simp: taken_True_Cons left_def fun_eq_iff)
    qed
  qed
qed simp

section \<open>The children\<close>

text \<open>Subtrees of different children have no registry in common.\<close>

lemma subtree_live:
  assumes "subtree w r s" and "forest_ok w" and "live w r"
  shows "live w s"
  using assms(1,3)
proof (induction rule: subtree.induct)
  case (child c r s)
  show ?case by (rule child.IH) (rule forest_okD(8)[OF assms(2) child.prems child.hyps(1)])
qed

lemma subtree_last:
  assumes "subtree w c s" and "s \<noteq> c" and "forest_ok w" and "live w c"
  shows "\<exists>p. parent (heap w s) = Some p \<and> subtree w c p"
  using assms(1,2,4)
proof (induction rule: subtree.induct)
  case (child d c s)
  have d: "live w d" "parent (heap w d) = Some c"
    using forest_okD(8,9)[OF assms(3) child.prems(2) child.hyps(1)] .
  show ?case
  proof (cases "s = d")
    case True
    then show ?thesis using d by (auto intro: subtree.self)
  next
    case False
    then obtain p where "parent (heap w s) = Some p" "subtree w d p" using child.IH d by blast
    then show ?thesis using child.hyps(1) by (auto intro: subtree.child)
  qed
qed simp

lemma forest_lt: "forest_ok w \<Longrightarrow> live w p \<Longrightarrow> c \<in> set (children (heap w p)) \<Longrightarrow> p < c"
  using heap_acyclicD[OF forest_okD(4)] forest_okD(10) by blast

lemma subtree_le: "forest_ok w \<Longrightarrow> live w r \<Longrightarrow> subtree w r s \<Longrightarrow> r \<le> s"
  using subtree_ge[OF _ forest_okD(4)] forest_okD(10) by blast

lemma subtrees_disjoint:
  assumes f: "forest_ok w" and r: "live w r" and cd: "c \<in> set (children (heap w r))" "d \<in> set (children (heap w r))"
    and s: "subtree w c s" "subtree w d s"
  shows "c = d"
  using s
proof (induction s rule: less_induct)
  case (less s)
  have lc: "live w c" "parent (heap w c) = Some r" "r < c"
    using forest_okD(8,9)[OF f r cd(1)] forest_lt[OF f r cd(1)] .
  have ld: "live w d" "parent (heap w d) = Some r" "r < d"
    using forest_okD(8,9)[OF f r cd(2)] forest_lt[OF f r cd(2)] .
  have ls: "live w s" by (rule subtree_live[OF less.prems(1) f lc(1)])
  have nr: "\<not> subtree w c r" "\<not> subtree w d r"
    using subtree_le[OF f lc(1)] subtree_le[OF f ld(1)] lc(3) ld(3) by (meson leD)+
  consider "s = c" | "s = d" "s \<noteq> c" | "s \<noteq> c" "s \<noteq> d" by blast
  then show ?case
  proof cases
    case 1
    then show ?thesis using subtree_last[OF less.prems(2) _ f ld(1)] lc(2) nr(2) by (cases "c = d") auto
  next
    case 2
    then show ?thesis using subtree_last[OF less.prems(1) _ f lc(1)] ld(2) nr(1) by auto
  next
    case False: 3
    obtain p where p: "parent (heap w s) = Some p" "subtree w c p"
      using subtree_last[OF less.prems(1) _ f lc(1)] False by auto
    have "subtree w d p" using subtree_last[OF less.prems(2) _ f ld(1)] False p(1) by auto
    moreover have "p < s" using forest_lt[OF f forest_okD(6,7)[OF f ls p(1)]] .
    ultimately show ?thesis using less.IH p(2) by blast
  qed
qed

text \<open>The specification reads a subtree only.\<close>

lemma run_order_cong:
  assumes "\<And>s. subtree w r s \<Longrightarrow> heap v s = heap w s"
  shows "run_order n v now runAll r = run_order n w now runAll r"
  using assms
proof (induction n arbitrary: r runAll)
  case (Suc n)
  have "run_order n v now True c = run_order n w now True c" if "c \<in> set (children (heap w r))" for c
    using that Suc.prems by (intro Suc.IH) (auto intro: subtree.child)
  moreover have "heap v r = heap w r" using Suc.prems by (simp add: subtree.self)
  ultimately show ?case by (auto intro!: arg_cong[where f = concat])
qed simp

lemma subtree_shape:
  assumes "\<And>s. children (heap v s) = children (heap w s)"
  shows "subtree v r s = subtree w r s"
proof -
  have "subtree y r s" if "subtree x r s" "\<And>s. children (heap x s) = children (heap y s)" for x y
    using that(1)
  proof (induction rule: subtree.induct)
    case (child c r s)
    then show ?case using that(2) by (auto intro: subtree.child)
  qed (rule subtree.self)
  from this[of v w] this[of w v] assms show ?thesis by (metis (no_types))
qed

text \<open>A list of sibling subtrees, run one after the other.\<close>

lemma run_each_quiet:
  assumes f: "\<And>c v. c \<in> set cs \<Longrightarrow> P v \<Longrightarrow> \<exists>v'. f c v = Some (Inr (), v') \<and> P v' \<and>
      trace v' = trace v @ T v c \<and> (\<forall>s. heap v' s = (if B c s then D c (heap v s) s else heap v s))"
    and T: "\<And>c v. c \<in> set cs \<Longrightarrow> (\<And>s. B c s \<Longrightarrow> heap v s = heap w s) \<Longrightarrow> T v c = T w c"
    and B: "\<And>c d s. c \<in> set cs \<Longrightarrow> d \<in> set cs \<Longrightarrow> B c s \<Longrightarrow> B d s \<Longrightarrow> c = d"
    and "distinct cs" and "P v" and "\<And>c s. c \<in> set cs \<Longrightarrow> B c s \<Longrightarrow> heap v s = heap w s"
  shows "\<exists>v'. run_each f cs v = Some (Inr (), v') \<and> P v' \<and> trace v' = trace v @ concat (map (T w) cs) \<and>
    (\<forall>s. heap v' s = (case find (\<lambda>c. B c s) cs of None \<Rightarrow> heap v s | Some c \<Rightarrow> D c (heap w s) s))"
  using assms
proof (induction cs arbitrary: v)
  case (Cons c cs)
  obtain u where u: "f c v = Some (Inr (), u)" "P u" "trace u = trace v @ T v c"
    and hu: "\<And>s. heap u s = (if B c s then D c (heap v s) s else heap v s)"
    using Cons.prems(1)[of c v] Cons.prems(5) by auto
  have tc: "T v c = T w c" by (rule Cons.prems(2)) (use Cons.prems(6) in auto)
  have other: "\<not> B c s" if "d \<in> set cs" "B d s" for d s
    using Cons.prems(3)[of c d s] Cons.prems(4) that by auto
  have "\<exists>v'. run_each f cs u = Some (Inr (), v') \<and> P v' \<and> trace v' = trace u @ concat (map (T w) cs) \<and>
    (\<forall>s. heap v' s = (case find (\<lambda>c. B c s) cs of None \<Rightarrow> heap u s | Some c \<Rightarrow> D c (heap w s) s))"
  proof (rule Cons.IH)
    show "\<exists>v'. f d v = Some (Inr (), v') \<and> P v' \<and> trace v' = trace v @ T v d \<and>
        (\<forall>s. heap v' s = (if B d s then D d (heap v s) s else heap v s))" if "d \<in> set cs" "P v" for d v
      using that by (intro Cons.prems(1)) simp_all
    show "T v d = T w d" if "d \<in> set cs" "\<And>s. B d s \<Longrightarrow> heap v s = heap w s" for d v
      using that by (intro Cons.prems(2)) simp_all
    show "d = e" if "d \<in> set cs" "e \<in> set cs" "B d s" "B e s" for d e s
      using that by (intro Cons.prems(3)) simp_all
    show "distinct cs" using Cons.prems(4) by simp
    show "P u" by (rule u(2))
    show "heap u s = heap w s" if "d \<in> set cs" "B d s" for d s
      using hu other[OF that] Cons.prems(6)[of d s] that by simp
  qed
  then obtain v' where v': "run_each f cs u = Some (Inr (), v')" "P v'" "trace v' = trace u @ concat (map (T w) cs)"
    "\<And>s. heap v' s = (case find (\<lambda>c. B c s) cs of None \<Rightarrow> heap u s | Some c \<Rightarrow> D c (heap w s) s)"
    by blast
  have "heap v' s = (case find (\<lambda>c. B c s) (c # cs) of None \<Rightarrow> heap v s | Some d \<Rightarrow> D d (heap w s) s)" for s
  proof (cases "B c s")
    case True
    then have "find (\<lambda>d. B d s) cs = None" using other by (auto simp: find_None_iff)
    then show ?thesis using True v'(4)[of s] hu[of s] Cons.prems(6)[of c s] by simp
  next
    case False
    then show ?thesis using v'(4)[of s] hu[of s] by (simp split: option.split)
  qed
  then show ?case using u v' tc by (intro exI[of _ v']) simp
qed simp

section \<open>The tree of loops\<close>

definition ready :: "(callback \<Rightarrow> world \<Rightarrow> unit res option) \<Rightarrow> nat \<Rightarrow> world \<Rightarrow> bool" where
  "ready call L w \<longleftrightarrow>
     alone w \<and>
     (\<forall>s. (\<forall>cb \<in> set (queue (heap w s)). quiet call cb) \<and> length (queue (heap w s)) \<le> L)"

lemma left_ready:
  "\<forall>cb \<in> set (queue g). quiet call cb \<Longrightarrow> \<forall>cb \<in> set (queue (left b now g)). quiet call cb"
  "length (queue g) \<le> L \<Longrightarrow> length (queue (left b now g)) \<le> L"
  by (auto simp: left_def dest: in_set_dropD)

lemma ready_heap:
  assumes "ready call L w" and "others v = others w" and "\<And>s. \<exists>b. heap v s = left b now (heap w s) \<or> heap v s = heap w s"
  shows "ready call L v"
  unfolding ready_def
proof (intro conjI allI)
  show "alone v" using assms(1,2) by (simp add: ready_def alone_def)
  show "\<forall>cb \<in> set (queue (heap v s)). quiet call cb" "length (queue (heap v s)) \<le> L" for s
    using assms(3)[of s] assms(1) left_ready(1)[of "heap w s" call] left_ready(2)[of "heap w s" L]
    by (auto simp: ready_def)
qed

lemma quiet_shape:
  assumes "\<And>s. \<exists>b. heap v s = left b now (heap w s) \<or> heap v s = heap w s"
    and "next_ref v = next_ref w" and "registries v = registries w"
  shows "shape v = shape w"
proof -
  have "regId (heap v s) = regId (heap w s) \<and> parent (heap v s) = parent (heap w s) \<and>
      children (heap v s) = children (heap w s)" for s
    using assms(1)[of s] by auto
  then show ?thesis using assms(2,3) by (simp add: shape_def fun_eq_iff)
qed

lemma execCallbacksOne_quiet:
  assumes "forest_ok w" and "live w r" and "ready call L w" and "L + (next_ref w - r) \<le> n"
  shows "\<exists>w'. execCallbacksOne n call runAll r now w = Some (Inr (), w') \<and>
    (shape w' = shape w \<and> others w' = others w) \<and> trace w' = trace w @ run_order n w now runAll r \<and>
    (\<forall>s. heap w' s = drained w now runAll r s)"
  using assms
proof (induction n arbitrary: w r runAll)
  case 0
  then show ?case using forest_okD(10)[OF 0(1,2)] by simp
next
  case (Suc n)
  note f = Suc.prems(1) and r = Suc.prems(2)
  have rlt: "r < next_ref w" by (rule forest_okD(10)[OF f r])
  let ?w1 = "snd (guards_enter (getId w r) w)" and ?old = "fst (guards_enter (getId w r) w)"
  have w1: "heap ?w1 = heap w" "next_ref ?w1 = next_ref w" "registries ?w1 = registries w"
    "trace ?w1 = trace w" "others ?w1 = others w"
    by (simp_all add: guards_enter_def setCurrentRegistryId_def Let_def)
  have "alone ?w1" "\<forall>cb \<in> set (queue (heap ?w1 r)). quiet call cb" "length (queue (heap ?w1 r)) < Suc n"
    using Suc.prems(3,4) rlt by (auto simp: w1 ready_def alone_def intro: le_less_trans)
  from run_loop_quiet[OF this, of runAll now] obtain w2 where
    loop: "run_loop (Suc n) call runAll r now ?w1 = Some (Inr (), w2)"
    and q2: "heap w2 = (heap w)(r := left runAll now (heap w r))" "next_ref w2 = next_ref w"
      "registries w2 = registries w" "others w2 = others w"
      "trace w2 = trace w @ map (\<lambda>cb. EvInvoke (regId (heap w r)) (callbackId cb)) (taken runAll now (queue (heap w r)))"
    unfolding w1 by (auto simp: quiet_core_def)
  let ?P = "\<lambda>v. shape v = shape w \<and> others v = others w \<and> ready call L v"
  let ?f = "\<lambda>c. execCallbacksOne n call True c now"
  let ?T = "\<lambda>v c. run_order n v now True c"
  let ?cs = "children (heap w r)"
  have s2: "shape w2 = shape w" by (rule quiet_shape[where now = now]) (use q2 in auto)
  have P2: "?P w2" using s2 q2 by (auto intro!: ready_heap[OF Suc.prems(3), where now = now])
  have notr: "s \<noteq> r" if "c \<in> set ?cs" "subtree w c s" for c s
    using subtree_le[OF f forest_okD(8)[OF f r that(1)] that(2)] forest_lt[OF f r that(1)] by auto
  have step: "\<exists>v'. ?f c v = Some (Inr (), v') \<and> ?P v' \<and> trace v' = trace v @ ?T v c \<and>
      (\<forall>s. heap v' s = (if subtree w c s then left True now (heap v s) else heap v s))"
    if c: "c \<in> set ?cs" and v: "?P v" for c v
  proof -
    have sv: "subtree v c s = subtree w c s" for s
      using shape_eqD[OF conjunct1[OF v]] by (intro subtree_shape) blast
    have "live v c" using live_shape[OF conjunct1[OF v]] forest_okD(8)[OF f r c] by simp
    moreover have "L + (next_ref v - c) \<le> n"
      using shape_eqD[OF conjunct1[OF v]] forest_lt[OF f r c] Suc.prems(4) rlt by auto
    ultimately obtain v' where v': "?f c v = Some (Inr (), v')" "shape v' = shape v" "others v' = others v"
      "trace v' = trace v @ ?T v c" "\<And>s. heap v' s = drained v now True c s"
      using Suc.IH[of v c True] v forest_ok_shape[OF conjunct1[OF v]] f by blast
    have h: "heap v' s = (if subtree w c s then left True now (heap v s) else heap v s)" for s
      by (simp add: v'(5) drained_def sv)
    have "ready call L v'"
      by (rule ready_heap[where w = v and now = now]) (use v v'(3) h in auto)
    then show ?thesis using v' v h by (intro exI[of _ v']) simp
  qed
  have "\<exists>v'. run_each ?f ?cs w2 = Some (Inr (), v') \<and> ?P v' \<and> trace v' = trace w2 @ concat (map (?T w) ?cs) \<and>
    (\<forall>s. heap v' s = (case find (\<lambda>c. subtree w c s) ?cs of None \<Rightarrow> heap w2 s | Some c \<Rightarrow> left True now (heap w s)))"
  proof (rule run_each_quiet[where P = ?P and T = ?T and B = "subtree w" and D = "\<lambda>c g s. left True now g"])
    show "?T v c = ?T w c" if "\<And>s. subtree w c s \<Longrightarrow> heap v s = heap w s" for c v
      by (rule run_order_cong) (rule that)
    show "c = d" if "c \<in> set ?cs" "d \<in> set ?cs" "subtree w c s" "subtree w d s" for c d s
      by (rule subtrees_disjoint[OF f r that])
    show "heap w2 s = heap w s" if "c \<in> set ?cs" "subtree w c s" for c s
      using notr[OF that] by (simp add: q2)
  qed (use step P2 forest_okD(5)[OF f] in auto)
  then obtain v where v: "run_each ?f ?cs w2 = Some (Inr (), v)" "?P v" "trace v = trace w2 @ concat (map (?T w) ?cs)"
    "\<And>s. heap v s = (case find (\<lambda>c. subtree w c s) ?cs of None \<Rightarrow> heap w2 s | Some c \<Rightarrow> left True now (heap w s))"
    by blast
  let ?w' = "guards_leave ?old v"
  have w': "heap ?w' = heap v" "shape ?w' = shape v" "others ?w' = others v" "trace ?w' = trace v"
    by (simp_all add: guards_leave_def setCurrentRegistryId_def Let_def shape_def)
  have "execCallbacksOne (Suc n) call runAll r now w = Some (Inr (), ?w')"
    using loop v(1) by (simp add: case_prod_unfold Let_def leaves_frame_def q2 del: run_loop.simps)
  moreover have "heap ?w' s = drained w now runAll r s" for s
  proof (cases "s = r")
    case True
    have "find (\<lambda>c. subtree w c r) ?cs = None" using notr by (auto simp: find_None_iff)
    then show ?thesis using True by (simp add: w' v(4) drained_def subtree.self q2)
  next
    case False
    show ?thesis
    proof (cases "find (\<lambda>c. subtree w c s) ?cs")
      case None
      then have "\<not> subtree w r s" using False subtree_unfold[of w r s] by (auto simp: find_None_iff)
      then show ?thesis using None False by (simp add: w' v(4) drained_def q2)
    next
      case (Some c)
      then obtain i where "i < length ?cs" "subtree w c s" "c = ?cs ! i" by (auto simp: find_Some_iff)
      then have "subtree w r s" using subtree.child[OF nth_mem] by blast
      then show ?thesis using Some False by (simp add: w' v(4) drained_def)
    qed
  qed
  ultimately show ?case using w' v(2,3) q2(5) by (intro exI[of _ ?w']) simp
qed

end
