(* ===== verification/Autorun.thy ===== *)
theory Autorun
  imports ExecFacts
begin

text \<open>
  The input handler of \<^verbatim>\<open>later_posix.cpp\<close>, which R calls when the pipe is readable: it runs
  callbacks of the global loop if R is idle, and sets the timer again.
\<close>

section \<open>The handler\<close>

text \<open>The destructor of \<^verbatim>\<open>ResetTimerOnExit\<close>.\<close>

definition reset_timer_on_exit :: "world \<Rightarrow> unit res" where
  "reset_timer_on_exit w =
     (case getGlobalRegistry w of
        (Inl e, w1) \<Rightarrow> (Inl e, w1)
      | (Inr r, w1) \<Rightarrow>
          (case nextTimestamp w1 True r of
             None \<Rightarrow> (Inr (), w1)
           | Some nextEvent \<Rightarrow> (Inr (), timer_set nextEvent w1)))"

definition handler_message :: "exn \<Rightarrow> string" where
  "handler_message e =
     (case e of
        UnwindException _ \<Rightarrow> ''later2: exception or interrupt occurred while executing callback.''
      | StdException m \<Rightarrow> ''later2: exception occurred while executing callback: '' @ m
      | _ \<Rightarrow> ''later2: c++ exception (unknown reason) occurred while executing callback.'')"

text \<open>
  \<^verbatim>\<open>catch\<close> stops what runs destructors; a \<^verbatim>\<open>longjmp\<close> goes past the handler and past the
  object that would set the timer. An error of \<open>at_top_level\<close> is raised outside the \<^verbatim>\<open>try\<close>.
\<close>

definition async_input_handler ::
    "nat \<Rightarrow> (callback \<Rightarrow> world \<Rightarrow> unit res option) \<Rightarrow> world \<Rightarrow> unit res option" where
  "async_input_handler n call w =
     (case at_top_level (set_fd False w) of
        (Inl e, w1) \<Rightarrow> Some (Inl e, w1)
      | (Inr idle_now, w1) \<Rightarrow>
          if \<not> idle_now
          then (case timestamp_in (Fin (dbl (1 / 1000))) w1 of
                  (Inl e, w2) \<Rightarrow> Some (Inl e, w2)
                | (Inr t, w2) \<Rightarrow> Some (Inr (), timer_set t w2))
          else (case execCallbacksForTopLevel n call w1 of
                  None \<Rightarrow> None
                | Some (Inr any, w2) \<Rightarrow> Some (reset_timer_on_exit w2)
                | Some (Inl e, w2) \<Rightarrow>
                    if runs_destructors e
                    then Some (reset_timer_on_exit
                           (w2\<lparr>stderr_log := stderr_log w2 @ [handler_message e]\<rparr>))
                    else Some (Inl e, w2)))"

section \<open>The whole process\<close>

text \<open>
  A fresh process: no loop, no pipe, a clock and answers of the operating system to come.
  \<^verbatim>\<open>.onLoad\<close> makes the global loop.
\<close>

definition fresh_world ::
    "(nat \<Rightarrow> timespec) \<Rightarrow> (int \<times> int) option list \<Rightarrow> (nat \<Rightarrow> bg_event list) \<Rightarrow> (nat \<Rightarrow> bool) \<Rightarrow> wake list \<Rightarrow> world" where
  "fresh_world c ps bg spawn wks =
     \<lparr>heap = (\<lambda>_. new_registry 0), next_ref = 0, registries = [], nextCallbackId = 1, made = 0, lock_depth = 0,
      cv_signals = 0, exec_callbacks_reentrancy_count = 0, current_registry = 0, initialized = False,
      thread_args_store = (\<lambda>_. None), next_args = 0, actives = (\<lambda>_. False), next_active = 0,
      threads = [], timer_state = initial_timer, posix_state = initial_posix ps, clock = c, tick = 0,
      wakes = wks, others = bg, turn = 0, spawn_ok = spawn, sys_frames = Some 0, trace = [],
      stderr_log = []\<rparr>"

text \<open>
  What can happen next: R calls an entry point from the top level, R calls the input handler
  because the pipe is readable, another thread takes a step, the process is woken up in new
  ways, or R's stack changes.
\<close>

inductive step :: "world \<Rightarrow> world \<Rightarrow> bool" where
  entry: "api n (invoke (exec_prog n)) a w = Some (x, w') \<Longrightarrow> step w w'"
| handler: "async_input_handler n (invoke (exec_prog n)) w = Some (x, w') \<Longrightarrow> step w w'"
| background: "bg_step ev w = Some w' \<Longrightarrow> step w w'"
| environment: "step w (w\<lparr>wakes := wks, sys_frames := f\<rparr>)"

inductive_cases stepE: "step w w'"

inductive reachable :: "world \<Rightarrow> bool" where
  start: "monotonic_clock c \<Longrightarrow> reachable (fresh_world c ps bg spawn wks)"
| more: "reachable w \<Longrightarrow> step w w' \<Longrightarrow> reachable w'"

lemma fresh_world_sys_ok: "monotonic_clock c \<Longrightarrow> sys_ok {#} (fresh_world c ps bg spawn wks)"
  by (simp add: sys_ok_def world_ok_def ids_counted_def conserved_def forest_ok_def fresh_world_def queues_ok_def heap_acyclic_def
      getRegistry_eq live_def fd_ok_def owned_def heap_owns_def thread_owns_def)

lemma reset_timer_on_exit_frame:
  "sys_ok S (snd (reset_timer_on_exit w)) = sys_ok S w" "grows (snd (reset_timer_on_exit w)) w"
  by (simp_all add: reset_timer_on_exit_def getGlobalRegistry_def timer_set_sys_ok later_grows[OF timer_set_later]
      split: option.split)

lemma at_top_level_frame: "snd (at_top_level w) = w"
  by (simp add: at_top_level_def Let_def)

context callback_runner begin

lemma async_input_handler_ok:
  assumes "sys_ok S w" and "async_input_handler n call w = Some (x, w')"
  shows "sys_ok S w'"
proof -
  let ?w1 = "set_fd False w"
  have ok1: "sys_ok S ?w1" using assms(1) by simp
  obtain y where y: "at_top_level ?w1 = (y, ?w1)" using at_top_level_frame[of ?w1] by (metis prod.collapse)
  show ?thesis
  proof (cases "y = Inr True")
    case False
    have "sys_ok S (snd (timestamp_in s ?w1))" for s
      using ok1 by (simp add: timestamp_in_eq split: option.split)
    then have "sys_ok S v" if "timestamp_in s ?w1 = (z, v)" for s z v using that by (metis snd_conv)
    then show ?thesis using assms(2) y False ok1
      by (cases y) (auto simp: async_input_handler_def timer_set_sys_ok split: prod.splits sum.splits)
  next
    case True
    obtain z w2 where z: "execCallbacksForTopLevel n call ?w1 = Some (z, w2)"
      using assms(2) y True by (auto simp: async_input_handler_def split: option.splits)
    have "sys_ok S w2" using top_level_loop_ok[OF ok1] z by (auto simp: execCallbacksForTopLevel_def)
    have r: "sys_ok S v" if "reset_timer_on_exit u = (q, v)" "sys_ok S u" for u q v
      using reset_timer_on_exit_frame(1)[of S u] that by simp
    show ?thesis
    proof (cases z)
      case (Inl e)
      then show ?thesis using assms(2) y True z \<open>sys_ok S w2\<close>
        by (auto simp: async_input_handler_def split: if_splits intro: r)
    next
      case (Inr b)
      then show ?thesis using assms(2) y True z \<open>sys_ok S w2\<close>
        by (auto simp: async_input_handler_def intro: r)
    qed
  qed
qed

end

lemma step_sys_ok: "step w w' \<Longrightarrow> sys_ok {#} w \<Longrightarrow> sys_ok {#} w'"
proof (induction rule: step.induct)
  case (entry n a w x w')
  from runner.api_fine[OF entry.prems] entry.hyps show ?case unfolding fine_def by blast
next
  case (handler n w x w')
  show ?case by (rule runner.async_input_handler_ok[OF handler.prems handler.hyps])
next
  case (background ev w w')
  from bg_step_sys_ok[OF background.prems, of ev] obtain v where "bg_step ev w = Some v" "sys_ok {#} v" by blast
  with background.hyps show ?case by simp
next
  case (environment w f wks)
  then show ?case using sys_ok_frame[of "w\<lparr>wakes := wks, sys_frames := f\<rparr>" w]
    by (simp add: core_def fd_core_def)
qed

lemma reachable_sys_ok: "reachable w \<Longrightarrow> sys_ok {#} w"
  by (induction rule: reachable.induct) (auto simp: fresh_world_sys_ok step_sys_ok)

end
