(* ===== verification/Example.thy ===== *)
theory Example
  imports Autorun
begin

text \<open>
  A small process to evaluate the model on: a clock that moves one second per reading, the
  global loop, a loop below it, and a callback scheduled in each.
\<close>

definition demo_clock :: "nat \<Rightarrow> timespec" where
  "demo_clock n = Timespec (int n) 0"

definition demo_start :: world where
  "demo_start = fresh_world demo_clock [Some (3, 4), Some (5, 6)] (\<lambda>_. []) (\<lambda>_. True) []"

definition demo_global :: world where
  "demo_global = snd (create 0 (-1) demo_start)"

definition demo_child :: world where
  "demo_child = snd (create 1 0 demo_global)"

text \<open>Callback 1 in loop 1 at time 2, callback 2 in loop 0 at time 7.\<close>

definition demo_one :: world where
  "demo_one = snd (scheduleCallback (RFunction Done) (Fin 2) 1 demo_child)"

definition demo :: world where
  "demo = snd (scheduleCallback (RFunction Done) (Fin 6) 0 demo_one)"

lemma demo_clock_monotonic: "monotonic_clock demo_clock"
  by (auto simp: monotonic_clock_def demo_clock_def ts_normal_def)

lemma demo_start_ok: "sys_ok S demo_start" if "S = {#}"
  unfolding that demo_start_def by (rule fresh_world_sys_ok[OF demo_clock_monotonic])

lemma demo_global_ok: "sys_ok {#} demo_global"
  unfolding demo_global_def by (rule create_sys_ok[OF demo_start_ok[OF refl] prod.collapse[symmetric]])

lemma demo_start_reachable: "reachable demo_start"
  unfolding demo_start_def by (rule reachable.start[OF demo_clock_monotonic])

lemma api_create_step: "step w (snd (create i p w))"
  by (rule step.entry[of 0 "CreateCallbackRegistry i p"]) (simp add: api_def ret_def apfst_def map_prod_def case_prod_unfold)

lemma api_later_step: "step w (snd (execLater p d l w))"
  by (rule step.entry[of 0 "ExecLater p d l"]) (simp add: api_def ret_def apfst_def map_prod_def case_prod_unfold)

lemma api_cancel_step: "step w (snd (cancel_string s l w))"
  by (rule step.entry[of 0 "CancelCallback s l"]) (simp add: api_def ret_def apfst_def map_prod_def case_prod_unfold)

lemma demo_global_reachable: "reachable demo_global"
  unfolding demo_global_def by (rule reachable.more[OF demo_start_reachable api_create_step])

lemma create_queue:
  "queue (heap (snd (create i p w)) s) = queue (heap w s) \<or> queue (heap (snd (create i p w)) s) = []"
  by (rule create_cases[of i w p]) (auto simp: link_def table_put_def new_object_def split: option.splits)

lemma demo_global_queue: "queue (heap demo_global s) = []"
  using create_queue[of 0 "-1" demo_start s] by (auto simp: demo_global_def demo_start_def fresh_world_def)

lemma demo_child_ok: "sys_ok {#} demo_child"
  unfolding demo_child_def by (rule create_sys_ok[OF demo_global_ok prod.collapse[symmetric]])

lemma demo_one_ok: "sys_ok {#} demo_one"
  unfolding demo_one_def
  by (rule scheduleCallback_sys_ok[where f = "RFunction Done", OF _ prod.collapse[symmetric]])
     (simp add: demo_child_ok)

lemma demo_ok: "sys_ok {#} demo"
  unfolding demo_def
  by (rule scheduleCallback_sys_ok[where f = "RFunction Done", OF _ prod.collapse[symmetric]])
     (simp add: demo_one_ok)

lemmas demo_world_ok = sys_okD(1)[OF demo_ok]

lemma demo_values:
  "getRegistry demo 0 = Some 0" "getRegistry demo 1 = Some 1" "getRegistry demo 2 = None"
  "next_ref demo = 2" "parent (heap demo 1) = Some 0" "parent (heap demo 0) = None"
  "regId (heap demo 0) = 0" "regId (heap demo 1) = 1"
  by code_simp+

lemma demo_live: "live demo 0" "live demo 1"
  using demo_values(1,2) by (auto simp: live_def)

lemma demo_ids_ordered: "ids_ordered demo"
proof -
  have c: "c = 0 \<or> c = Suc 0" if "live demo c" for c
    using live_lt[OF demo_ok that] demo_values(4) by auto
  show ?thesis using demo_values by (auto simp: ids_ordered_def dest!: c)
qed

end
