(* ===== verification/QueueSpec.thy ===== *)
theory QueueSpec
  imports RunOrder Example
begin

text \<open>
  The queue of a loop against its specification: a set of callbacks, from which the least
  due one is taken. Each operation of \<^verbatim>\<open>CallbackRegistry\<close> refines an operation on the set.
  The last section is the package's own test of the order of callbacks.
\<close>

section \<open>A set one takes the least due element from\<close>

locale due_queue =
  fixes elems :: "'q \<Rightarrow> 'a set"
    and take_due :: "'q \<Rightarrow> ('a \<times> 'q) option"
    and lt :: "'a \<Rightarrow> 'a \<Rightarrow> bool"
    and is_ready :: "'a \<Rightarrow> bool"
    and ok :: "'q \<Rightarrow> bool"
  assumes take_None: "ok q \<Longrightarrow> take_due q = None \<Longrightarrow> x \<in> elems q \<Longrightarrow> \<not> is_ready x"
    and take_Some: "ok q \<Longrightarrow> take_due q = Some (x, q') \<Longrightarrow>
      x \<in> elems q \<and> is_ready x \<and> elems q' = elems q - {x} \<and> ok q' \<and> (\<forall>y \<in> elems q'. lt x y)"
begin

text \<open>Taking until nothing is due.\<close>

fun drain :: "nat \<Rightarrow> 'q \<Rightarrow> 'a list" where
  "drain 0 q = []"
| "drain (Suc n) q = (case take_due q of None \<Rightarrow> [] | Some (x, q') \<Rightarrow> x # drain n q')"

lemma drain_elems: "ok q \<Longrightarrow> set (drain n q) \<subseteq> {x \<in> elems q. is_ready x}"
proof (induction n arbitrary: q)
  case (Suc n)
  show ?case
  proof (cases "take_due q")
    case (Some p)
    then obtain x q' where p: "take_due q = Some (x, q')" by (cases p) auto
    note t = take_Some[OF Suc.prems p]
    show ?thesis using Suc.IH[of q'] t p by auto
  qed simp
qed simp

lemma drain_sorted: "ok q \<Longrightarrow> sorted_wrt lt (drain n q)"
proof (induction n arbitrary: q)
  case (Suc n)
  show ?case
  proof (cases "take_due q")
    case (Some p)
    then obtain x q' where p: "take_due q = Some (x, q')" by (cases p) auto
    note t = take_Some[OF Suc.prems p]
    show ?thesis using Suc.IH[of q'] t p drain_elems[of q' n] by auto
  qed simp
qed simp

lemma drain_all: "ok q \<Longrightarrow> finite (elems q) \<Longrightarrow> card (elems q) \<le> n \<Longrightarrow> {x \<in> elems q. is_ready x} \<subseteq> set (drain n q)"
proof (induction n arbitrary: q)
  case (Suc n)
  show ?case
  proof (cases "take_due q")
    case None
    then show ?thesis using take_None[OF Suc.prems(1) None] by auto
  next
    case (Some p)
    then obtain x q' where p: "take_due q = Some (x, q')" by (cases p) auto
    note t = take_Some[OF Suc.prems(1) p]
    have "card (elems q') \<le> n" "finite (elems q')" using t Suc.prems by (auto simp: card_Diff_singleton)
    then show ?thesis using Suc.IH[of q'] t p by auto
  qed
qed auto

text \<open>What is drained: the due elements, each once, in order.\<close>

lemma drain_exact:
  assumes "ok q" and "finite (elems q)" and "card (elems q) \<le> n"
  shows "set (drain n q) = {x \<in> elems q. is_ready x}" and "sorted_wrt lt (drain n q)"
  using drain_elems[OF assms(1)] drain_all[OF assms] drain_sorted[OF assms(1)] by blast+

end

text \<open>\<open>pop\<close> on the list that stands for a queue.\<close>

definition pop_list :: "timespec \<Rightarrow> callback list \<Rightarrow> (callback \<times> callback list) option" where
  "pop_list now q = (case q of [] \<Rightarrow> None | cb # q' \<Rightarrow> if cbWhen cb \<le> now then Some (cb, q') else None)"

interpretation cbq: due_queue set "pop_list now" callback_less "\<lambda>cb. cbWhen cb \<le> now" queue_ok for now
proof
  show "\<not> cbWhen x \<le> now" if "queue_ok q" "pop_list now q = None" "x \<in> set q" for q x
  proof (cases q)
    case (Cons cb q')
    then have "cbWhen cb \<le> cbWhen x" using queue_head_when[of cb q' x] that by (simp add: queue_ok_def)
    then show ?thesis using that Cons by (auto simp: pop_list_def split: if_splits)
  qed (use that in simp)
  show "x \<in> set q \<and> cbWhen x \<le> now \<and> set q' = set q - {x} \<and> queue_ok q' \<and> (\<forall>y \<in> set q'. callback_less x y)"
    if "queue_ok q" "pop_list now q = Some (x, q')" for q x q'
  proof -
    have q: "q = x # q'" and le: "cbWhen x \<le> now"
      using that by (auto simp: pop_list_def split: list.splits if_splits)
    have "\<forall>y \<in> set q'. callback_less x y" using that(1) q by (simp add: queue_ok_def cb.ok_Cons)
    then show ?thesis using that(1) q le queue_ok_Cons[of x q'] cb.irrefl by auto
  qed
qed

lemma pop_pop_list:
  "pop r now w = (case pop_list now (queue (heap w r)) of
     None \<Rightarrow> (None, w) | Some (cb, q) \<Rightarrow> (Some cb, upd_registry r (\<lambda>g. g\<lparr>queue := tl (queue g)\<rparr>) w))"
  by (auto simp: pop_def pop_list_def own_due_def not_less split: list.splits)

lemma pop_list_simps [simp]:
  "pop_list now [] = None"
  "pop_list now (cb # q) = (if cbWhen cb \<le> now then Some (cb, q) else None)"
  by (simp_all add: pop_list_def)

lemma drain_taken: "length q \<le> n \<Longrightarrow> cbq.drain now n q = taken True now q"
proof (induction q arbitrary: n)
  case Nil
  show ?case by (cases n) (simp_all add: taken_def)
next
  case (Cons cb q)
  then show ?case by (cases n) (auto simp: taken_def is_due_def)
qed

text \<open>So the callbacks a loop takes are the due ones, in the order of time and then id.\<close>

lemma taken_due:
  assumes "queue_ok q"
  shows "set (taken True now q) = {cb \<in> set q. cbWhen cb \<le> now}" and "sorted_wrt callback_less (taken True now q)"
  using cbq.drain_exact[OF assms, of "length q" now] by (simp_all add: drain_taken card_length)

section \<open>Refinement\<close>

text \<open>
  The abstraction: what is pending in a loop, as a set.
\<close>

definition pending :: "world \<Rightarrow> nat \<Rightarrow> callback set" where
  "pending w r = set (queue (heap w r))"

lemma ids_okD:
  assumes "ids_ok w"
  shows "distinct (map callbackId (queue (heap w r)))"
    and "cb \<in> pending w r \<Longrightarrow> callbackId cb < nextCallbackId w"
  using assms by (auto simp: ids_ok_def ids_below_def pending_def)

lemma cancel_in_set:
  assumes "distinct (map callbackId q)"
  shows "set (snd (cancel_in i q)) = {cb \<in> set q. callbackId cb \<noteq> i}"
  using erase_first_unique[OF assms] by (simp add: cancel_in_eq)

lemma pending_upd [simp]:
  "pending (upd_registry r f w) s = (if s = r then set (queue (f (heap w r))) else pending w s)"
  by (simp add: pending_def)

lemma pending_frame [simp]:
  "pending (w\<lparr>tick := n, nextCallbackId := k, made := m\<rparr>) = pending w" "pending (cond_signal w) = pending w"
  "pending (w\<lparr>tick := n\<rparr>) = pending w" "pending (note_cancel found i w) = pending w"
  by (simp_all add: pending_def cond_signal_def fun_eq_iff)

lemma add_pending:
  assumes "ids_ok w" and "add r f secs w = (Inr i, w')"
  obtains t where "addSeconds (clock w (tick w)) secs = Some t" and "i = nextCallbackId w"
    and "pending w' = (pending w)(r := insert \<lparr>cbWhen = t, callbackId = i, func = f\<rparr> (pending w r))"
proof (cases "addSeconds (clock w (tick w)) secs")
  case None
  then show ?thesis using assms(2) by (simp add: add_Inl)
next
  case (Some t)
  note a = add_Inr[OF Some, of r f]
  let ?cb = "\<lparr>cbWhen = t, callbackId = nextCallbackId w, func = f\<rparr>"
  have "set (sset_insert callback_less ?cb (queue (heap w r))) = insert ?cb (pending w r)"
    using callback_ids_insert(1)[OF ids_okD(1)[OF assms(1)], of r ?cb] ids_okD(2)[OF assms(1), of _ r]
    by (simp add: pending_def)
  then have "pending w' = (pending w)(r := insert ?cb (pending w r))"
    using a assms(2) by (auto simp: queue_insert_def fun_eq_iff)
  with Some a assms(2) show ?thesis by (intro that[of t]) auto
qed

lemma cancel_pending:
  assumes "ids_ok w" and "cancel r i w = (found, w')"
  shows "found \<longleftrightarrow> (\<exists>cb \<in> pending w r. callbackId cb = i)"
    and "pending w' = (pending w)(r := {cb \<in> pending w r. callbackId cb \<noteq> i})"
proof -
  note d = ids_okD(1)[OF assms(1), of r]
  have w': "w' = note_cancel found i (upd_registry r (\<lambda>g. g\<lparr>queue := snd (cancel_in i (queue (heap w r)))\<rparr>) w)"
    and f: "found = fst (cancel_in i (queue (heap w r)))"
    using assms(2) by (auto simp: cancel_def split: prod.splits)
  show "found \<longleftrightarrow> (\<exists>cb \<in> pending w r. callbackId cb = i)"
    by (simp add: f cancel_in_eq pending_def)
  show "pending w' = (pending w)(r := {cb \<in> pending w r. callbackId cb \<noteq> i})"
    unfolding w' using cancel_in_set[OF d, of i] by (simp add: fun_eq_iff) (simp add: pending_def)
qed

lemma pop_pending:
  assumes "queues_ok w" and "pop r t w = (x, w')"
  shows "case x of
      None \<Rightarrow> w' = w \<and> (\<forall>cb \<in> pending w r. t < cbWhen cb)
    | Some cb \<Rightarrow> cb \<in> pending w r \<and> cbWhen cb \<le> t \<and> (\<forall>d \<in> pending w r - {cb}. callback_less cb d) \<and>
        pending w' = (pending w)(r := pending w r - {cb})"
proof -
  have ok: "queue_ok (queue (heap w r))" using assms(1) by (simp add: queues_ok_def)
  show ?thesis
  proof (cases "pop_list t (queue (heap w r))")
    case None
    then show ?thesis using assms(2) cbq.take_None[OF ok None] by (auto simp: pop_pop_list pending_def not_le)
  next
    case (Some p)
    then obtain cb q where p: "pop_list t (queue (heap w r)) = Some (cb, q)" by (cases p) auto
    then have "queue (heap w r) = cb # q" by (cases "queue (heap w r)") (auto split: if_splits)
    then show ?thesis using assms(2) cbq.take_Some[OF ok p] p
      by (auto simp: pop_pop_list pending_def fun_eq_iff)
  qed
qed

lemma demo_ids_ok: "ids_ok demo"
proof -
  have "made demo = 2" by code_simp
  moreover have "ids_counted demo" using demo_world_ok by (simp add: world_ok_def)
  ultimately show ?thesis using ids_counted_ok by (simp add: no_wrap_yet_def)
qed

section \<open>An id is a ticket\<close>

lemma ensureInitialized_keeps:
  "heap (snd (ensureInitialized w)) = heap w" "registries (snd (ensureInitialized w)) = registries w"
  "nextCallbackId (snd (ensureInitialized w)) = nextCallbackId w" "made (snd (ensureInitialized w)) = made w"
  "clock (snd (ensureInitialized w)) = clock w" "tick (snd (ensureInitialized w)) = tick w"
  by (auto simp: ensureInitialized_def setCurrentRegistryId_def Let_def split: prod.splits sum.splits)

lemma getRegistry_registries: "registries v = registries w \<Longrightarrow> getRegistry v = getRegistry w"
  by (simp add: getRegistry_eq fun_eq_iff)

lemma execLater_cases:
  assumes "execLater p d l w = (Inr s, w1)"
  obtains r t where "getRegistry w l = Some r" and "addSeconds (clock w (tick w)) d = Some t"
    and "s = toString (nextCallbackId w)" and "registries w1 = registries w"
    and "heap w1 = (heap w)(r := queue_insert \<lparr>cbWhen = t, callbackId = nextCallbackId w, func = RFunction p\<rparr> (heap w r))"
proof -
  define w0 where "w0 = snd (ensureInitialized w)"
  note k = ensureInitialized_keeps[of w, folded w0_def]
  obtain u where "ensureInitialized w = (Inr u, w0)"
    using assms by (auto simp: execLater_def w0_def split: sum.splits prod.splits)
  then obtain r i v where r: "getRegistry w0 l = Some r" and i: "doExecLater r (RFunction p) d True w0 = (Inr i, w1)"
    and s: "s = toString i"
    using assms by (auto simp: execLater_def split: sum.splits prod.splits option.splits)
  obtain t where t: "addSeconds (clock w0 (tick w0)) d = Some t"
    using i by (cases "addSeconds (clock w0 (tick w0)) d") (auto simp: doExecLater_def add_Inl)
  have "i = nextCallbackId w0" "registries w1 = registries w0"
    "heap w1 = (heap w0)(r := queue_insert \<lparr>cbWhen = t, callbackId = nextCallbackId w0, func = RFunction p\<rparr> (heap w0 r))"
    using i unfolding doExecLater_def add_Inr[OF t]
    by (auto simp: cond_signal_def timer_set_def deref_timestamp_def timestamp_now_def get_current_time_def
        upd_registry_def split: option.splits prod.splits)
  then show ?thesis using r t s k getRegistry_registries[OF k(2)] by (intro that[of r t]) simp_all
qed

lemma execLater_cancel:
  assumes ok: "ids_ok w" and e: "execLater p d l w = (Inr s, w1)"
  shows "\<exists>w2. cancel_string s l w1 = (True, w2) \<and> heap w2 = heap w"
proof -
  obtain r t where r: "getRegistry w l = Some r" and s: "s = toString (nextCallbackId w)"
    and reg: "registries w1 = registries w"
    and h: "heap w1 = (heap w)(r := queue_insert \<lparr>cbWhen = t, callbackId = nextCallbackId w, func = RFunction p\<rparr> (heap w r))"
    using execLater_cases[OF e] by metis
  let ?cb = "\<lparr>cbWhen = t, callbackId = nextCallbackId w, func = RFunction p\<rparr>"
  have ins: "erase_first (\<lambda>c. callbackId c = nextCallbackId w) (sset_insert callback_less ?cb (queue (heap w r)))
      = queue (heap w r)" "?cb \<in> set (sset_insert callback_less ?cb (queue (heap w r)))"
    using callback_ids_insert(1,3)[OF ids_okD(1)[OF ok], of r ?cb] ids_okD(2)[OF ok, of _ r]
    by (auto simp: pending_def)
  then have "cancel_in (nextCallbackId w) (queue (heap w1 r)) = (True, queue (heap w r))"
    unfolding cancel_in_eq h queue_insert_def by force
  then show ?thesis
    using getRegistry_registries[OF reg] r s
    by (simp add: cancel_string_def parse_toString cancel_id_def cancel_def upd_registry_def h queue_insert_def)
qed

section \<open>The ordering test\<close>

text \<open>
  \<open>testCallbackOrdering\<close>: a hundred callbacks with one timestamp, compared with their
  neighbours, first upwards in four ways, then downwards. The functions are empty.
\<close>

fun make_callbacks :: "nat \<Rightarrow> timespec \<Rightarrow> world \<Rightarrow> callback list \<times> world" where
  "make_callbacks 0 ts w = ([], w)"
| "make_callbacks (Suc n) ts w =
     (let (cb, w1) = make_callback ts (NativeFunction Done) w; (cbs, w2) = make_callbacks n ts w1
      in (cb # cbs, w2))"

definition broken :: "string \<Rightarrow> exn" where
  "broken d = UnwindException (''Callback ordering is broken ['' @ d @ '']'')"

definition check_up :: "callback list \<Rightarrow> nat \<Rightarrow> exn option" where
  "check_up cbs i =
     (if callback_less (cbs ! i) (cbs ! (i - 1)) then Some (broken ''1'')
      else if \<not> callback_greater (cbs ! i) (cbs ! (i - 1)) then Some (broken ''2'')
      else if callback_greater (cbs ! (i - 1)) (cbs ! i) then Some (broken ''3'')
      else if \<not> callback_less (cbs ! (i - 1)) (cbs ! i) then Some (broken ''4'') else None)"

definition check_down :: "callback list \<Rightarrow> nat \<Rightarrow> exn option" where
  "check_down cbs i = (if callback_less (cbs ! (i - 1)) (cbs ! (i - 2)) then Some (broken ''2'') else None)"

text \<open>A loop that is left at the first error.\<close>

fun first_error :: "('a \<Rightarrow> exn option) \<Rightarrow> 'a list \<Rightarrow> exn + unit" where
  "first_error f [] = Inr ()"
| "first_error f (x # xs) = (case f x of Some e \<Rightarrow> Inl e | None \<Rightarrow> first_error f xs)"

definition testCallbackOrdering :: "world \<Rightarrow> unit res" where
  "testCallbackOrdering w =
     (let (ts, w1) = timestamp_now w; (callbacks, w2) = make_callbacks 100 ts w1
      in case first_error (check_up callbacks) [1..<100] of
           Inl e \<Rightarrow> (Inl e, w2)
         | Inr _ \<Rightarrow> (first_error (check_down callbacks) (rev [2..<101]), w2))"

lemma first_error_ok: "first_error f xs = Inr () \<longleftrightarrow> (\<forall>x \<in> set xs. f x = None)"
  by (induction xs) (auto split: option.splits)

lemma make_callbacks_nth:
  "i < n \<Longrightarrow> fst (make_callbacks n ts w) ! i =
     \<lparr>cbWhen = ts, callbackId = nextCallbackId w + of_nat i, func = NativeFunction Done\<rparr>"
proof (induction n arbitrary: w i)
  case (Suc n)
  then show ?case
    by (cases i) (auto simp: case_prod_beta Let_def algebra_simps simp del: make_callback_simps(2)
        simp add: make_callback_def)
qed simp

text \<open>The order holds exactly until an id comes out as \<open>0\<close>.\<close>

lemma less_plus_one: "(x :: 64 word) < x + 1 \<longleftrightarrow> x + 1 \<noteq> 0"
  by (metis add.commute le_imp_less_Suc order_refl unatSuc word_le_nat_alt word_less_nat_alt word_not_simps(1))

lemma no_wrap:
  fixes n :: "64 word"
  shows "(\<forall>i \<in> {1..<100}. n + of_nat i \<noteq> 0) \<longleftrightarrow> unat n + 99 < 2 ^ 64" (is "?L \<longleftrightarrow> ?R")
proof
  assume ?R
  show ?L
  proof
    fix i assume i: "i \<in> {1..<100::nat}"
    have "unat (n + of_nat i) = (unat n + i) mod 2 ^ 64"
      by (simp add: unat_word_ariths unat_of_nat mod_add_right_eq)
    also have "\<dots> = unat n + i" using \<open>?R\<close> i by simp
    finally show "n + of_nat i \<noteq> 0" using i by (metis add_is_0 atLeastLessThan_iff not_one_le_zero unsigned_0)
  qed
next
  assume L: ?L
  show ?R
  proof (rule ccontr)
    assume "\<not> ?R"
    have lt: "unat n < 2 ^ 64" using unsigned_less[of n] by simp
    define i where "i = 2 ^ 64 - unat n"
    have "i \<in> {1..<100}" using lt \<open>\<not> ?R\<close> by (auto simp: i_def)
    moreover have "unat (n + of_nat i) = (unat n + i) mod 2 ^ 64"
      by (simp add: unat_word_ariths unat_of_nat mod_add_right_eq)
    then have "unat (n + of_nat i) = 0" using lt by (simp add: i_def)
    ultimately show False using L by (metis unat_eq_zero)
  qed
qed

lemma callback_order_same_time:
  "callback_less \<lparr>cbWhen = ts, callbackId = i, func = f\<rparr> \<lparr>cbWhen = ts, callbackId = j, func = g\<rparr> \<longleftrightarrow> i < j"
  by (simp add: callback_less_iff)

lemma check_up_ok:
  fixes ts :: timespec and w :: world
  assumes "i \<in> {1..<100}"
  defines "cbs \<equiv> fst (make_callbacks 100 ts w)"
  shows "check_up cbs i = None \<longleftrightarrow> nextCallbackId w + of_nat i \<noteq> 0"
proof -
  obtain j where j: "i = Suc j" using assms(1) by (cases i) auto
  define a where "a = nextCallbackId w + of_nat j"
  have a: "nextCallbackId w + of_nat i = a + 1" "a + 1 \<noteq> a" by (simp_all add: j a_def)
  have ids: "cbs ! i = \<lparr>cbWhen = ts, callbackId = a + 1, func = NativeFunction Done\<rparr>"
      "cbs ! (i - 1) = \<lparr>cbWhen = ts, callbackId = a, func = NativeFunction Done\<rparr>"
    using assms(1) make_callbacks_nth[of i 100 ts w] make_callbacks_nth[of j 100 ts w] a(1) j
    by (simp_all add: cbs_def a_def)
  have "check_up cbs i = None \<longleftrightarrow> a < a + 1"
    unfolding check_up_def callback_greater_def ids callback_order_same_time
    using a(2) by (auto simp: not_less_iff_gr_or_eq)
  then show ?thesis by (simp add: less_plus_one a(1))
qed

lemma check_down_ok:
  assumes "i \<in> {2..<101}" and "check_up cbs (i - 1) = None"
  shows "check_down cbs i = None"
  using assms by (auto simp: check_up_def check_down_def numeral_2_eq_2 diff_diff_left[symmetric] split: if_splits)

section \<open>Properties\<close>

text \<open>
  C12. Adding a callback refines insertion into the set of what is pending: the new callback
  has the next id and the time the clock and the delay give, and no other queue changes.
\<close>

theorem add_refines:
  assumes "ids_ok w" and "add r f secs w = (Inr i, w')"
  shows "\<exists>t. addSeconds (clock w (tick w)) secs = Some t \<and> i = nextCallbackId w \<and>
    pending w' = (pending w)(r := insert \<lparr>cbWhen = t, callbackId = i, func = f\<rparr> (pending w r))"
  using add_pending[OF assms] by metis

theorem add_refines_witness:
  "\<exists>t. pending (snd (add 0 (RFunction Done) (Fin 1) demo)) 0 =
     insert \<lparr>cbWhen = t, callbackId = 3, func = RFunction Done\<rparr> (pending demo 0)"
proof -
  have "addSeconds (clock demo (tick demo)) (Fin 1) \<noteq> None" "nextCallbackId demo = 3" by code_simp+
  then obtain i w' where a: "add 0 (RFunction Done) (Fin 1) demo = (Inr i, w')" and n: "nextCallbackId demo = 3"
    using add_Inr by fastforce
  from add_refines[OF demo_ids_ok a] a n show ?thesis by auto
qed

text \<open>
  C13. Cancelling refines the removal of the one callback with the id, and answers whether it
  was there; no other queue changes.
\<close>

theorem cancel_refines:
  assumes "ids_ok w" and "cancel r i w = (found, w')"
  shows "(found \<longleftrightarrow> (\<exists>cb \<in> pending w r. callbackId cb = i)) \<and>
    pending w' = (pending w)(r := {cb \<in> pending w r. callbackId cb \<noteq> i})"
  using cancel_pending[OF assms] by blast

theorem cancel_refines_witness:
  "fst (cancel 1 1 demo) \<and> pending (snd (cancel 1 1 demo)) 1 = {cb \<in> pending demo 1. callbackId cb \<noteq> 1}"
proof -
  have "fst (cancel 1 1 demo)" by code_simp
  with cancel_refines[OF demo_ids_ok, of 1 1 "fst (cancel 1 1 demo)" "snd (cancel 1 1 demo)"] show ?thesis by simp
qed

text \<open>
  C11. Popping refines taking the least due callback of the set, least by time and then by id;
  it answers nothing exactly when nothing is due.
\<close>

theorem pop_refines:
  assumes "queues_ok w" and "pop r t w = (x, w')"
  shows "case x of
      None \<Rightarrow> w' = w \<and> (\<forall>cb \<in> pending w r. t < cbWhen cb)
    | Some cb \<Rightarrow> cb \<in> pending w r \<and> cbWhen cb \<le> t \<and> (\<forall>d \<in> pending w r - {cb}. callback_less cb d) \<and>
        pending w' = (pending w)(r := pending w r - {cb})"
  using pop_pending[OF assms] .

theorem pop_refines_witness:
  "\<exists>cb w'. pop 1 (Timespec 5 0) demo = (Some cb, w') \<and> cb \<in> pending demo 1 \<and> pending w' 1 = pending demo 1 - {cb}"
proof -
  have q: "queues_ok demo" using demo_world_ok by (simp add: world_ok_def)
  have "fst (pop 1 (Timespec 5 0) demo) \<noteq> None" by code_simp
  then obtain cb w' where p: "pop 1 (Timespec 5 0) demo = (Some cb, w')"
    by (cases "pop 1 (Timespec 5 0) demo") auto
  from pop_refines[OF q p] p show ?thesis by auto
qed



text \<open>
  C26. The string \<open>execLater\<close> answers is a ticket for \<open>cancel\<close>: given back at once, it cancels
  just that callback, and every queue is again what it was.
\<close>

theorem execLater_cancel_roundtrip:
  assumes "ids_ok w" and "execLater p d l w = (Inr s, w1)"
  shows "\<exists>w2. cancel_string s l w1 = (True, w2) \<and> heap w2 = heap w"
  by (rule execLater_cancel[OF assms])

theorem execLater_cancel_roundtrip_witness:
  "\<exists>s w1 w2. execLater Done (Fin 3) 1 demo = (Inr s, w1) \<and> cancel_string s 1 w1 = (True, w2) \<and> heap w2 = heap demo"
proof -
  have "\<exists>s. fst (execLater Done (Fin 3) 1 demo) = Inr s"
    by (rule exI[of _ "''3''"]) code_simp
  then obtain s w1 where e: "execLater Done (Fin 3) 1 demo = (Inr s, w1)"
    by (metis prod.collapse)
  from execLater_cancel_roundtrip[OF demo_ids_ok e] e show ?thesis by blast
qed

text \<open>
  The package's own test of the callback order passes exactly while the 64-bit counter of
  ids does not wrap among the hundred callbacks it makes.
\<close>

theorem testCallbackOrdering_passes:
  "fst (testCallbackOrdering w) = Inr () \<longleftrightarrow> unat (nextCallbackId w) + 99 < 2 ^ 64"
proof -
  obtain ts w1 where n: "timestamp_now w = (ts, w1)" by force
  then have id: "nextCallbackId w1 = nextCallbackId w"
    by (auto simp: timestamp_now_def get_current_time_def)
  obtain cbs w2 where m: "make_callbacks 100 ts w1 = (cbs, w2)" by force
  have up: "check_up cbs i = None \<longleftrightarrow> nextCallbackId w + of_nat i \<noteq> 0" if "i \<in> {1..<100}" for i
    using check_up_ok[OF that, of ts w1] m id by simp
  have down: "\<forall>i \<in> {2..<101}. check_down cbs i = None" if "\<forall>i \<in> {1..<100}. check_up cbs i = None"
    by (auto intro!: check_down_ok that[rule_format])
  have "fst (testCallbackOrdering w) = Inr () \<longleftrightarrow> (\<forall>i \<in> {1..<100}. check_up cbs i = None)"
  proof (cases "\<forall>i \<in> {1..<100}. check_up cbs i = None")
    case True
    then have "first_error (check_up cbs) [1..<100] = Inr ()" by (simp add: first_error_ok)
    moreover have "first_error (check_down cbs) (rev [2..<101]) = Inr ()" using down[OF True] by (simp add: first_error_ok)
    ultimately show ?thesis using True by (simp add: testCallbackOrdering_def n m)
  next
    case False
    then have "first_error (check_up cbs) [1..<100] \<noteq> Inr ()" by (subst first_error_ok) simp
    then obtain e where "first_error (check_up cbs) [1..<100] = Inl e"
      by (cases "first_error (check_up cbs) [1..<100]") auto
    then show ?thesis using False by (simp add: testCallbackOrdering_def n m)
  qed
  then show ?thesis using up no_wrap[of "nextCallbackId w"] by simp
qed

end
