(* ===== verification/Running.thy ===== *)
theory Running
  imports QueueSpec
begin

text \<open>
  What running the loops promises: which callbacks run and in which order, what an error
  leaves behind, what the guards give back, how long \<open>wait\<close> waits and what its answer means.
\<close>

section \<open>The example process\<close>

lemma scheduleCallback_queue:
  assumes "getRegistry w l \<noteq> Some s"
  shows "queue (heap (snd (scheduleCallback f d l w)) s) = queue (heap w s)"
proof (cases "getRegistry w l")
  case (Some r)
  have "heap (snd (add r f d w)) s = heap w s" using assms Some
    by (cases "addSeconds (clock w (tick w)) d") (simp_all add: add_Inl add_Inr cond_signal_def)
  then show ?thesis using Some
    by (auto simp: scheduleCallback_def doExecLater_def timer_set_def deref_timestamp_def timestamp_now_def
        get_current_time_def split: prod.splits sum.splits option.splits)
qed (simp add: scheduleCallback_def)

lemma demo_child_queue: "queue (heap demo_child s) = []"
  using create_queue[of 1 0 demo_global s] demo_global_queue by (simp add: demo_child_def)

definition is_done :: "callback \<Rightarrow> bool" where
  "is_done cb \<longleftrightarrow> (case func cb of RFunction p \<Rightarrow> (case p of Done \<Rightarrow> True | _ \<Rightarrow> False) | _ \<Rightarrow> False)"

lemma is_done_func: "is_done cb \<Longrightarrow> func cb = RFunction Done"
  by (auto simp: is_done_def split: cbfun.splits prog.splits)

lemma demo_queue:
  "map (\<lambda>cb. (cbWhen cb, callbackId cb, is_done cb)) (queue (heap demo 0)) = [(Timespec 7 0, 2, True)]"
  "map (\<lambda>cb. (cbWhen cb, callbackId cb, is_done cb)) (queue (heap demo 1)) = [(Timespec 2 0, 1, True)]"
  by code_simp+

lemma demo_queue_other:
  assumes "s \<noteq> 0" "s \<noteq> 1"
  shows "queue (heap demo s) = []"
proof -
  have "getRegistry demo_child 1 = Some 1" "getRegistry demo_one 0 = Some 0" by code_simp+
  then show "queue (heap demo s) = []"
    using assms scheduleCallback_queue[of demo_one 0 s] scheduleCallback_queue[of demo_child 1 s] demo_child_queue
    by (simp add: demo_def demo_one_def)
qed

lemma others_keeps:
  "others (snd (scheduleCallback f d l w)) = others w" "others (snd (create i p w)) = others w"
proof -
  show "others (snd (scheduleCallback f d l w)) = others w"
    by (cases "addSeconds (clock w (tick w)) d")
       (auto simp: scheduleCallback_def doExecLater_def timer_set_def upd_timer_def deref_timestamp_def timestamp_now_def
        get_current_time_def add_Inl add_Inr cond_signal_def split: option.splits prod.splits)
  show "others (snd (create i p w)) = others w"
    by (rule create_cases[of i w p]) (auto simp: link_def table_put_def new_object_def split: option.splits)
qed

lemma demo_ready: "ready (invoke (exec_prog (Suc n))) 1 demo"
proof -
  have "others demo = (\<lambda>_. [])"
    by (simp add: demo_def demo_one_def demo_child_def demo_global_def others_keeps demo_start_def fresh_world_def)
  then have "alone demo" by (simp add: alone_def)
  moreover have "(\<forall>cb \<in> set (queue (heap demo s)). is_done cb) \<and> length (queue (heap demo s)) \<le> 1" for s
  proof (cases "s = 0 \<or> s = 1")
    case True
    then show ?thesis using demo_queue by (auto simp: map_eq_Cons_conv)
  next
    case False
    then show ?thesis using demo_queue_other[of s] by simp
  qed
  ultimately show ?thesis using quiet_Done is_done_func by (simp add: ready_def)
qed

section \<open>What runs\<close>

text \<open>
  C8. If the callbacks leave the queues alone and no other thread interferes, running a loop
  terminates and calls exactly the callbacks of \<open>run_order\<close> - the due ones of the loop, then
  those of its children, depth first, each loop by time and id - and removes exactly those.
\<close>

theorem runs_in_order:
  assumes "world_ok w" and "getRegistry w i = Some r" and "ready call L w" and "L + (next_ref w - r) \<le> n"
  shows "\<exists>w'. execCallbacksOne n call runAll r now w = Some (Inr (), w') \<and>
    trace w' = trace w @ run_order n w now runAll r \<and> (\<forall>s. heap w' s = drained w now runAll r s)"
proof -
  have "forest_ok w" "live w r" using assms(1,2) by (auto simp: world_ok_def live_def)
  from execCallbacksOne_quiet[OF this assms(3,4)] show ?thesis by blast
qed

theorem runs_in_order_witness:
  "\<exists>w'. execCallbacksOne 4 (invoke (exec_prog 1)) True 0 (Timespec 9 0) demo = Some (Inr (), w') \<and>
     trace w' = [EvInvoke 0 2, EvInvoke 1 1]"
proof -
  have "trace demo @ run_order 4 demo (Timespec 9 0) True 0 = [EvInvoke 0 2, EvInvoke 1 1]" by code_simp
  then show ?thesis
    using runs_in_order[OF demo_world_ok demo_values(1) demo_ready[of 0], of 4 True "Timespec 9 0"] demo_values(4)
    by auto
qed

text \<open>
  C9. Whatever the callbacks do: what a function does with callbacks that are not due has no
  influence on running a loop - none of them is called, not even one that a callback schedules
  while the loop runs.
\<close>

theorem runs_only_what_is_due:
  assumes "\<And>cb. cbWhen cb \<le> now \<Longrightarrow> f cb = g cb"
  shows "execCallbacksOne n f runAll r now w = execCallbacksOne n g runAll r now w"
  by (rule execCallbacksOne_agree) (simp add: agree_def assms)

theorem runs_only_what_is_due_witness:
  "execCallbacksOne 4 (invoke (exec_prog 1)) True 0 (Timespec 5 0) demo =
   execCallbacksOne 4 (\<lambda>cb. if cbWhen cb \<le> Timespec 5 0 then invoke (exec_prog 1) cb else (\<lambda>w. None)) True 0 (Timespec 5 0) demo"
  by (rule runs_only_what_is_due) simp

lemma taken_rest:
  assumes "queue_ok q" and "cb \<in> set (drop (length (taken True now q)) q)"
  shows "now < cbWhen cb"
proof -
  have "drop (length (taken True now q)) q = dropWhile (is_due now) q"
    by (simp add: taken_def dropWhile_eq_drop)
  then have "cb \<in> set (dropWhile (is_due now) q)" using assms(2) by simp
  then obtain d ds where d: "dropWhile (is_due now) q = d # ds" by (cases "dropWhile (is_due now) q") auto
  have "\<not> is_due now d" using hd_dropWhile[of "is_due now" q] d by simp
  moreover have "sorted (map cbWhen (d # ds))"
    using queue_sorted_when[of q] assms(1) sorted_wrt_drop[of "(\<le>)" "map cbWhen q" "length (takeWhile (is_due now) q)"] d
    by (simp add: queue_ok_def dropWhile_eq_drop drop_map)
  ultimately show ?thesis using \<open>cb \<in> set (dropWhile (is_due now) q)\<close> d by (auto simp: is_due_def)
qed

lemma drained_not_due:
  assumes q: "queues_ok w" and h: "\<And>s. heap w' s = drained w now True r s"
  shows "\<forall>t \<in> pending_times w' r. now < t"
proof
  fix t assume "t \<in> pending_times w' r"
  then obtain cb s where cb: "t = cbWhen cb" "subtree w' r s" "cb \<in> set (queue (heap w' s))"
    by (auto simp: pending_times_def)
  have "children (heap w' s) = children (heap w s)" for s by (simp add: h drained_def)
  then have "subtree w r s" using cb(2) subtree_shape by blast
  then have "cb \<in> set (drop (length (taken True now (queue (heap w s)))) (queue (heap w s)))"
    using cb(3) by (simp add: h drained_def left_def)
  then show "now < t" using taken_rest[of "queue (heap w s)"] q cb(1) by (simp add: queues_ok_def)
qed



section \<open>Errors\<close>

text \<open>A callback that throws \<open>e\<close> and leaves the queues alone.\<close>

definition throws :: "(callback \<Rightarrow> world \<Rightarrow> unit res option) \<Rightarrow> callback \<Rightarrow> exn \<Rightarrow> bool" where
  "throws call cb e \<longleftrightarrow>
     (\<forall>w. alone w \<longrightarrow> (\<exists>w'. call cb w = Some (Inl e, w') \<and> quiet_core w' = quiet_core w))"

lemma interleave_alone: "alone w \<Longrightarrow> interleave w = Some (w\<lparr>turn := Suc (turn w)\<rparr>)"
  by (simp add: interleave_def alone_def)

lemma quiet_coreD:
  "quiet_core v = quiet_core w \<Longrightarrow>
   heap v = heap w \<and> next_ref v = next_ref w \<and> registries v = registries w \<and> trace v = trace w \<and> others v = others w"
  by (simp add: quiet_core_def)

lemma run_loop_throws:
  assumes "alone w" and "queue (heap w r) = qs @ cb # rest" and "\<forall>c \<in> set qs. quiet call c"
    and "\<forall>c \<in> set qs. cbWhen c \<le> now" and "cbWhen cb \<le> now" and "throws call cb e" and "length qs < n"
  shows "\<exists>w'. run_loop n call True r now w = Some (Inl e, w') \<and> others w' = others w \<and>
    heap w' = (heap w)(r := (heap w r)\<lparr>queue := rest\<rparr>) \<and>
    trace w' = trace w @ map (\<lambda>c. EvInvoke (regId (heap w r)) (callbackId c)) (qs @ [cb])"
  using assms
proof (induction qs arbitrary: w n)
  case Nil
  then obtain m where n: "n = Suc m" by (cases n) auto
  define w0 where "w0 = w\<lparr>turn := Suc (turn w)\<rparr>"
  define w1 where "w1 = note_invoke r cb (upd_registry r (\<lambda>g. g\<lparr>queue := rest\<rparr>) w0)"
  have p: "pop r now w0 = (Some cb, upd_registry r (\<lambda>g. g\<lparr>queue := rest\<rparr>) w0)"
    using Nil by (intro pop_Cons) (simp_all add: w0_def)
  have al: "alone w1" using Nil(1) by (simp add: alone_def w1_def w0_def note_invoke_def)
  obtain w2 where "call cb w1 = Some (Inl e, w2)" and q: "quiet_core w2 = quiet_core w1"
    using Nil(6) al by (auto simp: throws_def)
  then have "run_loop n call True r now w = Some (Inl e, w2)"
    using p interleave_alone[OF Nil(1)] by (simp add: n w0_def w1_def)
  moreover have "others w2 = others w" "heap w2 = (heap w)(r := (heap w r)\<lparr>queue := rest\<rparr>)"
    "trace w2 = trace w @ [EvInvoke (regId (heap w r)) (callbackId cb)]"
    using quiet_coreD[OF q] by (simp_all add: w1_def w0_def note_invoke_def getId_def upd_registry_def)
  ultimately show ?case by (intro exI[of _ w2]) (auto simp: fun_eq_iff)
next
  case (Cons c qs)
  then obtain m where n: "n = Suc m" by (cases n) auto
  define w0 where "w0 = w\<lparr>turn := Suc (turn w)\<rparr>"
  define w1 where "w1 = note_invoke r c (upd_registry r (\<lambda>g. g\<lparr>queue := qs @ cb # rest\<rparr>) w0)"
  have p: "pop r now w0 = (Some c, upd_registry r (\<lambda>g. g\<lparr>queue := qs @ cb # rest\<rparr>) w0)"
    using Cons.prems by (intro pop_Cons) (simp_all add: w0_def)
  have al: "alone w1" using Cons.prems(1) by (simp add: alone_def w1_def w0_def note_invoke_def)
  have "quiet call c" using Cons.prems(3) by simp
  then obtain w2 where c: "call c w1 = Some (Inr (), w2)" and q: "quiet_core w2 = quiet_core w1"
    using al by (auto simp: quiet_def)
  note qd = quiet_coreD[OF q]
  have "alone w2" "queue (heap w2 r) = qs @ cb # rest" "length qs < m"
    using qd al Cons.prems(7) n by (simp_all add: alone_def w1_def note_invoke_def)
  have "\<forall>c \<in> set qs. quiet call c" "\<forall>c \<in> set qs. cbWhen c \<le> now" using Cons.prems(3,4) by simp_all
  from Cons.IH[OF \<open>alone w2\<close> \<open>queue (heap w2 r) = qs @ cb # rest\<close> this Cons.prems(5,6) \<open>length qs < m\<close>]
  obtain w' where w': "run_loop m call True r now w2 = Some (Inl e, w')" "others w' = others w2"
    "heap w' = (heap w2)(r := (heap w2 r)\<lparr>queue := rest\<rparr>)"
    "trace w' = trace w2 @ map (\<lambda>c. EvInvoke (regId (heap w2 r)) (callbackId c)) (qs @ [cb])" by blast
  have "run_loop n call True r now w = Some (Inl e, w')"
    using p c w'(1) interleave_alone[OF Cons.prems(1)] by (simp add: n w0_def w1_def)
  then show ?case using w'(2-4) qd
    by (auto simp: w1_def w0_def note_invoke_def getId_def upd_registry_def fun_eq_iff)
qed

text \<open>
  C22. An error stops the loop: if a due callback throws (and those before it behave), it and
  those before it have been called and are gone, everything after it and every other loop is
  left as it was, no child runs, and the guards have put the current loop back.
\<close>

theorem error_leaves_the_rest:
  assumes "alone w" and "queue (heap w r) = qs @ cb # rest" and "\<forall>c \<in> set qs. quiet call c \<and> cbWhen c \<le> now"
    and "cbWhen cb \<le> now" and "throws call cb e" and "runs_destructors e" and "length qs \<le> n"
  shows "\<exists>w'. execCallbacksOne (Suc n) call True r now w = Some (Inl e, w') \<and>
    heap w' = (heap w)(r := (heap w r)\<lparr>queue := rest\<rparr>) \<and> current_registry w' = current_registry w \<and>
    trace w' = trace w @ map (\<lambda>c. EvInvoke (regId (heap w r)) (callbackId c)) (qs @ [cb])"
proof -
  define w1 where "w1 = snd (guards_enter (getId w r) w)"
  have g: "heap w1 = heap w" "alone w1" "trace w1 = trace w" "guards_enter (getId w r) w = (current_registry w, w1)"
    using assms(1) by (auto simp: w1_def guards_enter_def setCurrentRegistryId_def getCurrentRegistryId_def alone_def)
  have "length qs < Suc n" using assms(7) by simp
  have "queue (heap w1 r) = qs @ cb # rest" "\<forall>c \<in> set qs. quiet call c" "\<forall>c \<in> set qs. cbWhen c \<le> now"
    using assms(2,3) g(1) by simp_all
  from run_loop_throws[OF g(2) this assms(4,5) \<open>length qs < Suc n\<close>, unfolded g(1,3)]
  obtain w' where "run_loop (Suc n) call True r now w1 = Some (Inl e, w')"
    "heap w' = (heap w)(r := (heap w r)\<lparr>queue := rest\<rparr>)"
    "trace w' = trace w @ map (\<lambda>c. EvInvoke (regId (heap w r)) (callbackId c)) (qs @ [cb])" by blast
  then show ?thesis using g(4) assms(6)
    by (auto simp: leaves_frame_def guards_leave_def setCurrentRegistryId_def simp del: run_loop.simps)
qed

theorem error_leaves_the_rest_witness:
  "\<exists>w'. execCallbacksOne 2 (\<lambda>cb w. Some (Inl (StdException ''no''), w)) True 1 (Timespec 5 0) demo =
     Some (Inl (StdException ''no''), w') \<and> queue (heap w' 1) = [] \<and> trace w' = [EvInvoke 1 1]"
proof -
  obtain cb where cb: "queue (heap demo 1) = [cb]" "cbWhen cb = Timespec 2 0" "callbackId cb = 1"
    using demo_queue(2) by (auto simp: map_eq_Cons_conv)
  have "alone demo" using demo_ready[of 0] by (simp add: ready_def)
  moreover have "throws (\<lambda>cb w. Some (Inl (StdException ''no''), w)) cb (StdException ''no'')" by (simp add: throws_def)
  moreover have "trace demo = []" by code_simp
  ultimately show ?thesis
    using error_leaves_the_rest[of demo 1 "[]" cb "[]" "\<lambda>cb w. Some (Inl (StdException ''no''), w)" "Timespec 5 0" "StdException ''no''" 1]
      cb demo_values(8) by (auto simp: numeral_2_eq_2)
qed

section \<open>The guards\<close>

definition count_of :: "world \<Rightarrow> 64 word" where
  "count_of w = exec_callbacks_reentrancy_count w"

definition keeps_count :: "(callback \<Rightarrow> world \<Rightarrow> unit res option) \<Rightarrow> bool" where
  "keeps_count call \<longleftrightarrow>
     (\<forall>cb v y v'. call cb v = Some (y, v') \<and> leaves_frame y \<longrightarrow> count_of v' = count_of v)"

lemma later_count: "later_than v w \<Longrightarrow> count_of v = count_of w"
  using later_thanD(5) by (simp add: count_of_def)

lemma interleave_count: "interleave w = Some v \<Longrightarrow> count_of v = count_of w"
  using bg_run_later[of "others w (turn w)" "w\<lparr>turn := Suc (turn w)\<rparr>" v] later_count[of v "w\<lparr>turn := Suc (turn w)\<rparr>"]
  by (simp add: interleave_def count_of_def)

lemma run_loop_count:
  assumes "keeps_count call" and "run_loop n call runAll r now w = Some (x, w')" and "leaves_frame x"
  shows "count_of w' = count_of w"
  using assms(2)
proof (induction n arbitrary: w)
  case (Suc n)
  obtain w0 where i: "interleave w = Some w0"
    using Suc.prems assms(3) by (cases "interleave w") (auto simp: leaves_frame_def)
  obtain o1 w1 where p: "pop r now w0 = (o1, w1)" by force
  have c1: "count_of w1 = count_of w"
    using interleave_count[OF i] later_count[OF pop_frame[of r now w0]] p by simp
  show ?case
  proof (cases o1)
    case None
    then show ?thesis using Suc.prems i p c1 by simp
  next
    case (Some cb)
    obtain y w2 where y: "call cb (note_invoke r cb w1) = Some (y, w2)"
      using Suc.prems i p Some by (cases "call cb (note_invoke r cb w1)") auto
    have c2: "count_of w2 = count_of w" if "leaves_frame y"
      using assms(1) y that c1 later_count[OF note_invoke_frame[of r cb w1]] unfolding keeps_count_def by metis
    show ?thesis
    proof (cases y)
      case (Inl e)
      then show ?thesis using Suc.prems i p Some y c2 assms(3) by (auto simp: leaves_frame_def)
    next
      case (Inr u)
      then have "count_of w2 = count_of w" using c2 by (simp add: leaves_frame_def)
      then show ?thesis using Suc.IH[of w2] Suc.prems i p Some y Inr by (auto split: if_splits)
    qed
  qed
qed simp

lemma run_each_count:
  assumes "\<And>c v x v'. f c v = Some (x, v') \<Longrightarrow> leaves_frame x \<Longrightarrow> count_of v' = count_of v"
    and "run_each f cs w = Some (x, w')" and "leaves_frame x"
  shows "count_of w' = count_of w"
  using assms(2)
proof (induction cs arbitrary: w)
  case (Cons c cs)
  obtain y v where y: "f c w = Some (y, v)" using Cons.prems by (cases "f c w") auto
  show ?case
  proof (cases y)
    case (Inl e)
    then show ?thesis using Cons.prems y assms(1)[OF y] assms(3) by (auto simp: leaves_frame_def)
  next
    case (Inr u)
    then show ?thesis using Cons.prems Cons.IH[of v] y assms(1)[OF y] by (auto simp: leaves_frame_def)
  qed
qed simp

lemma execCallbacksOne_count:
  assumes "keeps_count call"
  shows "execCallbacksOne n call runAll r now w = Some (x, w') \<Longrightarrow> leaves_frame x \<Longrightarrow>
    count_of w' = count_of w \<and> current_registry w' = current_registry w"
proof (induction n arbitrary: runAll r w x w')
  case (Suc n)
  obtain y w2 w3 where l: "run_loop (Suc n) call runAll r now (snd (guards_enter (getId w r) w)) = Some (y, w2)"
    and c: "case y of Inl e \<Rightarrow> x = Inl e \<and> w3 = w2
       | Inr _ \<Rightarrow> run_each (\<lambda>c. execCallbacksOne n call True c now) (children (heap w2 r)) w2 = Some (x, w3)"
    and w': "w' = (if leaves_frame x then guards_leave (fst (guards_enter (getId w r) w)) w3 else w3)"
    by (rule execCallbacksOne_cases[OF Suc.prems(1)])
  have c3: "count_of w3 = count_of w2"
  proof (cases y)
    case (Inr u)
    then have "run_each (\<lambda>c. execCallbacksOne n call True c now) (children (heap w2 r)) w2 = Some (x, w3)" using c by simp
    from run_each_count[OF _ this Suc.prems(2)] Suc.IH show ?thesis by blast
  qed (use c in simp)
  have "leaves_frame y" using c Suc.prems(2) by (cases y) (auto simp: leaves_frame_def)
  with run_loop_count[OF assms l] c3 have "count_of w3 = count_of (snd (guards_enter (getId w r) w))" by simp
  then show ?case using w' Suc.prems(2)
    by (simp add: count_of_def guards_enter_def guards_leave_def setCurrentRegistryId_def getCurrentRegistryId_def)
qed simp

text \<open>
  C23. The guards: however running a loop ends other than by \<^verbatim>\<open>longjmp\<close>, the current loop is
  again what it was, and so is the count of running calls, provided each callback that ends so
  keeps it.
\<close>

theorem guards_restore:
  assumes "keeps_count call" and "execCallbacksOne n call runAll r now w = Some (x, w')" and "leaves_frame x"
  shows "exec_callbacks_reentrancy_count w' = exec_callbacks_reentrancy_count w \<and>
    current_registry w' = current_registry w"
  using execCallbacksOne_count[OF assms] by (simp add: count_of_def)

theorem guards_restore_witness:
  "case execCallbacksOne 2 (\<lambda>cb w. Some (Inl (StdException ''no''), w)) True 1 (Timespec 5 0) demo of
     None \<Rightarrow> False
   | Some (x, w') \<Rightarrow> exec_callbacks_reentrancy_count w' = exec_callbacks_reentrancy_count demo"
proof -
  let ?y = "execCallbacksOne 2 (\<lambda>cb w. Some (Inl (StdException ''no''), w)) True 1 (Timespec 5 0) demo"
  have "map_option fst ?y = Some (Inl (StdException ''no''))" by code_simp
  then obtain w' where e: "?y = Some (Inl (StdException ''no''), w')" by auto
  have k: "keeps_count (\<lambda>cb w. Some (Inl (StdException ''no''), w))" by (simp add: keeps_count_def)
  have "exec_callbacks_reentrancy_count w' = exec_callbacks_reentrancy_count demo"
    using guards_restore[OF k e] by (simp add: leaves_frame_def)
  then show ?thesis unfolding e by simp
qed

section \<open>A jump past the guards\<close>

text \<open>The callbacks themselves leave the guards' state alone, however they end.\<close>

definition keeps_guards :: "(callback \<Rightarrow> world \<Rightarrow> unit res option) \<Rightarrow> bool" where
  "keeps_guards call \<longleftrightarrow>
     (\<forall>cb v y v'. call cb v = Some (y, v') \<longrightarrow> count_of v' = count_of v \<and> current_registry v' = current_registry v)"

lemma keeps_guards_count: "keeps_guards call \<Longrightarrow> keeps_count call"
  unfolding keeps_guards_def keeps_count_def by blast

lemma later_guards: "later_than v w \<Longrightarrow> count_of v = count_of w \<and> current_registry v = current_registry w"
  using later_thanD(4,5) by (simp add: count_of_def)

lemma run_loop_guards:
  assumes "keeps_guards call" and "run_loop n call runAll r now w = Some (x, w')"
  shows "count_of w' = count_of w \<and> current_registry w' = current_registry w"
  using assms(2)
proof (induction n arbitrary: w)
  case (Suc n)
  show ?case
  proof (cases "interleave w")
    case None
    then show ?thesis using Suc.prems by simp
  next
    case (Some w0)
    obtain o1 w1 where p: "pop r now w0 = (o1, w1)" by force
    have "later_than w0 w"
      using Some bg_run_later[of "others w (turn w)" "w\<lparr>turn := Suc (turn w)\<rparr>" w0] later_than_trans[of "w\<lparr>turn := Suc (turn w)\<rparr>" w w0]
      by (simp add: interleave_def later_than_def main_core_def)
    then have l1: "later_than w1 w" using later_than_trans pop_frame[of r now w0] p by simp
    show ?thesis
    proof (cases o1)
      case None
      then show ?thesis using Suc.prems Some p later_guards[OF l1] by simp
    next
      case cb: (Some cb)
      have l2: "later_than (note_invoke r cb w1) w" by (rule later_than_trans[OF l1 note_invoke_frame])
      obtain y w2 where y: "call cb (note_invoke r cb w1) = Some (y, w2)"
        using Suc.prems Some p cb by (cases "call cb (note_invoke r cb w1)") auto
      have c2: "count_of w2 = count_of w \<and> current_registry w2 = current_registry w"
        using assms(1) y later_guards[OF l2] unfolding keeps_guards_def by metis
      show ?thesis using Suc.prems Some p cb y c2 Suc.IH[of w2] by (auto split: sum.splits if_splits)
    qed
  qed
qed simp

text \<open>A \<^verbatim>\<open>longjmp\<close> out of a callback skips the guards of every frame from there up.\<close>

lemma run_each_jump:
  assumes "\<And>c v x v'. f c v = Some (x, v') \<Longrightarrow> leaves_frame x \<Longrightarrow> count_of v' = count_of v"
    and "\<And>c v v'. f c v = Some (Inl (Longjmp m), v') \<Longrightarrow> \<exists>d. 1 \<le> d \<and> d \<le> n \<and> count_of v' = count_of v + of_nat d"
    and "run_each f cs w = Some (Inl (Longjmp m), w')"
  shows "\<exists>d. 1 \<le> d \<and> d \<le> n \<and> count_of w' = count_of w + of_nat d"
  using assms(3)
proof (induction cs arbitrary: w)
  case (Cons c cs)
  obtain y v where y: "f c w = Some (y, v)" using Cons.prems by (cases "f c w") auto
  show ?case
  proof (cases y)
    case (Inl e)
    then show ?thesis using Cons.prems y assms(2) by simp
  next
    case (Inr u)
    then show ?thesis using Cons.prems Cons.IH[of v] y assms(1)[OF y] by (auto simp: leaves_frame_def)
  qed
qed simp

lemma execCallbacksOne_jump:
  assumes "keeps_guards call"
  shows "execCallbacksOne n call runAll r now w = Some (Inl (Longjmp m), w') \<Longrightarrow>
    \<exists>d. 1 \<le> d \<and> d \<le> n \<and> count_of w' = count_of w + of_nat d \<and> (d = 1 \<longrightarrow> current_registry w' = getId w r)"
proof (induction n arbitrary: runAll r w w')
  case (Suc n)
  let ?w1 = "snd (guards_enter (getId w r) w)"
  have w1: "count_of ?w1 = count_of w + 1" "current_registry ?w1 = getId w r"
    by (simp_all add: count_of_def guards_enter_def setCurrentRegistryId_def Let_def)
  obtain y w2 w3 where l: "run_loop (Suc n) call runAll r now ?w1 = Some (y, w2)"
    and c: "case y of Inl e \<Rightarrow> (Inl (Longjmp m) :: exn + unit) = Inl e \<and> w3 = w2
       | Inr _ \<Rightarrow> run_each (\<lambda>c. execCallbacksOne n call True c now) (children (heap w2 r)) w2 = Some (Inl (Longjmp m), w3)"
    and if_: "w' = (if leaves_frame (Inl (Longjmp m) :: exn + unit) then guards_leave (fst (guards_enter (getId w r) w)) w3 else w3)"
    by (rule execCallbacksOne_cases[OF Suc.prems])
  from if_ have w': "w' = w3" by (simp add: leaves_frame_def)
  note l2 = run_loop_guards[OF assms l]
  show ?case
  proof (cases y)
    case (Inl e)
    then show ?thesis using c w' l2 w1 by (intro exI[of _ 1]) simp
  next
    case (Inr u)
    then have e: "run_each (\<lambda>c. execCallbacksOne n call True c now) (children (heap w2 r)) w2 = Some (Inl (Longjmp m), w3)"
      using c by simp
    have "\<exists>d. 1 \<le> d \<and> d \<le> n \<and> count_of w3 = count_of w2 + of_nat d"
      by (rule run_each_jump[OF _ _ e]) (use execCallbacksOne_count[OF keeps_guards_count[OF assms]] Suc.IH in blast)+
    then obtain d where "1 \<le> d" "d \<le> n" "count_of w3 = count_of w2 + of_nat d" by blast
    then show ?thesis using w' l2 w1 by (intro exI[of _ "Suc d"]) simp
  qed
qed simp



text \<open>The same through the entry point, with a C callback that ends by an R error.\<close>

definition demo_longjmp :: world where
  "demo_longjmp = snd (scheduleCallback (NativeFunction (Throw (Longjmp ''error''))) (Fin 1) 1 demo_child)"

lemma demo_longjmp_passes:
  "case execCallbacks 9 (invoke (exec_prog 9)) (Fin 5) True 1 demo_longjmp of
     None \<Rightarrow> False
   | Some (x, w') \<Rightarrow> x = Inl (Longjmp ''error'') \<and> exec_callbacks_reentrancy_count w' = 1 \<and>
       current_registry demo_longjmp = 0 \<and> current_registry w' = 1 \<and> fst (at_top_level w') = Inr False"
  by code_simp

end
