(* ===== verification/Waiting.thy ===== *)
theory Waiting
  imports Example
begin

text \<open>
  What the answer of \<open>wait\<close> means, that it returns, what an interrupt does to the lock, and
  the two queries it is made from. Then the input handler and the timer, which wait for R.
\<close>

section \<open>The queries\<close>

text \<open>
  C17. \<open>nextTimestamp\<close> is the least time of everything scheduled in a loop and below it, and
  something is due at a moment exactly when that time is not later.
\<close>

theorem next_time_and_due:
  assumes "world_ok w" and "getRegistry w i = Some r"
  shows "least_of (nextTimestamp w True r) (pending_times w r) \<and>
    (due w t True r \<longleftrightarrow> (\<exists>u. nextTimestamp w True r = Some u \<and> u \<le> t)) \<and>
    (due w t True r \<longleftrightarrow> (\<exists>u \<in> pending_times w r. u \<le> t))"
proof -
  have f: "forest_ok w" "queues_ok w" using assms(1) by (simp_all add: world_ok_def)
  have "heap_acyclic w" "r < next_ref w" using f(1) assms(2) forest_okD(2,4)[OF f(1)] by blast+
  then show ?thesis
    using nextTimestamp_least[of w r] due_nextTimestamp[of w r t] due_pending[of w r t] f(2) by blast
qed

theorem next_time_and_due_witness:
  "least_of (nextTimestamp demo True 0) (pending_times demo 0) \<and> nextTimestamp demo True 0 = Some (Timespec 2 0)"
proof -
  have "nextTimestamp demo True 0 = Some (Timespec 2 0)" by code_simp
  with next_time_and_due[OF demo_world_ok demo_values(1)] show ?thesis by blast
qed

section \<open>wait\<close>

text \<open>
  C15. The answer of \<open>wait\<close> is whether something is due at its last look at the clock, and it
  says no only when the time it was to wait until has come. An infinite or negative timeout is
  cut to \<open>3e10\<close> seconds.
\<close>

theorem wait_answer:
  assumes "sys_ok S w" and "getRegistry w i = Some r" and "wait secs True r w = Some (Inr b, w')"
  shows "\<exists>now e. now = clock w (tick w' - 1) \<and>
    addSeconds (clock w (tick w)) (if secs = PosInf \<or> double_neg secs then Fin 30000000000 else secs) = Some e \<and>
    (b \<longleftrightarrow> (\<exists>t \<in> pending_times w' r. t \<le> now)) \<and> (b \<or> e \<le> now)"
proof -
  have r: "r < next_ref w" using live_lt[OF assms(1)] assms(2) by (auto simp: live_def)
  then show ?thesis using wait_result[OF assms(1) r assms(3)] unfolding wait_secs_def by metis
qed

theorem wait_answer_witness:
  "\<exists>b w'. wait (Fin 5) True 1 demo_one = Some (Inr b, w') \<and>
     (b \<longleftrightarrow> (\<exists>t \<in> pending_times w' 1. t \<le> clock demo_one (tick w' - 1)))"
proof -
  have g: "getRegistry demo_one 1 = Some 1" by code_simp
  have "case wait (Fin 5) True 1 demo_one of None \<Rightarrow> False | Some (x, w') \<Rightarrow> x = Inr True" by code_simp
  then obtain w' where w: "wait (Fin 5) True 1 demo_one = Some (Inr True, w')" by (auto split: option.splits)
  from wait_answer[OF demo_one_ok g w] w show ?thesis by blast
qed

lemma wait_answers:
  assumes "sys_ok S w" and "getRegistry w i = Some r"
    and "addSeconds (clock w (tick w)) (wait_secs secs) = Some e"
    and "e \<le> clock w (Suc (tick w) + length (wakes w))" and "\<forall>wk \<in> set (wakes w). \<not> wk_interrupt wk"
  shows "\<exists>b w'. wait secs True r w = Some (Inr b, w')"
proof -
  define w1 where "w1 = lock (w\<lparr>tick := Suc (tick w)\<rparr>)"
  have r: "r < next_ref w1" using live_lt[OF assms(1)] assms(2) by (auto simp: live_def w1_def lock_def)
  have ok: "sys_ok S w1" "0 < lock_depth w1" using assms(1) by (simp_all add: w1_def) (simp add: lock_def)
  have "ts_normal (clock w (tick w))" using sys_ok_parts(3)[OF assms(1)] monotonic_clockD(1) by blast
  then have e: "ts_normal e" using addSeconds_normal[OF assms(3)] by simp
  have "e \<le> clock w1 (tick w1 + length (wakes w))" using assms(4) by (simp add: w1_def lock_def)
  from wait_loop_terminates[OF ok e r this assms(5)]
  obtain v where v: "wait_loop (wakes w) e True r w1 = Some (Inr (), v)" by blast
  have t: "timestamp_in (wait_secs secs) w = (Inr e, w\<lparr>tick := Suc (tick w)\<rparr>)"
    using assms(3) by (simp add: timestamp_in_eq)
  show ?thesis
    unfolding wait_def Let_def wait_secs_def[symmetric] t using v
    by (auto simp: w1_def split: prod.splits)
qed

text \<open>
  C16. \<open>wait\<close> returns: if the clock reaches the expiry time within the wake-ups to come and
  no interrupt arrives, it answers, whatever the other threads do meanwhile.
\<close>

theorem wait_returns:
  assumes "sys_ok S w" and "getRegistry w i = Some r"
    and "addSeconds (clock w (tick w)) (wait_secs secs) = Some e"
    and "e \<le> clock w (Suc (tick w) + length (wakes w))" and "\<forall>wk \<in> set (wakes w). \<not> wk_interrupt wk"
  shows "\<exists>b w'. wait secs True r w = Some (Inr b, w')"
  by (rule wait_answers[OF assms])

theorem wait_returns_witness:
  "\<exists>b w'. wait (Fin 2) True 0 (demo\<lparr>wakes := replicate 3 \<lparr>wk_events = [], wk_interrupt = False\<rparr>\<rparr>) = Some (Inr b, w')"
proof -
  let ?w = "demo\<lparr>wakes := replicate 3 \<lparr>wk_events = [], wk_interrupt = False\<rparr>\<rparr>"
  have ok: "sys_ok {#} ?w" by (simp add: demo_ok)
  have g: "getRegistry ?w 0 = Some 0" using demo_values(1) by (simp add: getRegistry_eq)
  have a: "addSeconds (clock ?w (tick ?w)) (wait_secs (Fin 2)) = Some (Timespec 4 0)" by code_simp
  have l: "Timespec 4 0 \<le> clock ?w (Suc (tick ?w) + length (wakes ?w))" by code_simp
  show ?thesis by (rule wait_returns[OF ok g a l]) (simp add: eval_nat_numeral)
qed

text \<open>
  C25. The lock around \<open>wait\<close>: it is given back on every way out but one. A user interrupt
  jumps past the guard and leaves the lock taken once more; from then on no other thread can
  schedule anything.
\<close>

theorem wait_interrupt_keeps_lock:
  assumes "wait secs recur r w = Some (x, w')"
  shows "(case x of
       Inr b \<Rightarrow> lock_depth w' = lock_depth w
     | Inl e \<Rightarrow> (runs_destructors e \<longrightarrow> lock_depth w' = lock_depth w) \<and>
         (\<forall>m. e = Longjmp m \<longrightarrow> lock_depth w' = Suc (lock_depth w) \<and> bg_step (BgNative p d l) w' = Some w'))"
proof (cases x)
  case (Inl e)
  have "lock_depth w' = lock_depth w" if "runs_destructors e"
    using wait_later[OF assms] later_thanD(3) that Inl by (simp add: leaves_frame_def)
  moreover have "lock_depth w' = Suc (lock_depth w)" if "e = Longjmp m" for m
    using wait_interrupt_lock[of secs recur r w m w'] assms that Inl by simp
  ultimately show ?thesis using Inl by (auto simp: bg_step_def)
next
  case (Inr b)
  then show ?thesis using wait_later[OF assms] later_thanD(3) by (simp add: leaves_frame_def)
qed

theorem wait_interrupt_keeps_lock_witness:
  "\<exists>w'. wait (Fin 5) True 0 (demo_child\<lparr>wakes := [\<lparr>wk_events = [], wk_interrupt = True\<rparr>]\<rparr>) =
     Some (Inl (Longjmp ''interrupt''), w') \<and> lock_depth w' = 1"
proof -
  let ?w = "demo_child\<lparr>wakes := [\<lparr>wk_events = [], wk_interrupt = True\<rparr>]\<rparr>"
  have "map_option fst (wait (Fin 5) True 0 ?w) = Some (Inl (Longjmp ''interrupt''))" "lock_depth ?w = 0" by code_simp+
  then obtain w' where w: "wait (Fin 5) True 0 ?w = Some (Inl (Longjmp ''interrupt''), w')" and d: "lock_depth ?w = 0"
    by auto
  from wait_interrupt_keeps_lock[OF w] w d show ?thesis by auto
qed

section \<open>The input handler\<close>

text \<open>
  While R is busy the handler runs nothing: it empties the pipe and sets the timer a
  millisecond ahead; no queue is touched and nothing is called.
\<close>

theorem handler_waits_for_idle:
  assumes "fst (at_top_level w) = Inr False" and "addSeconds (clock w (tick w)) (Fin (dbl (1 / 1000))) = Some t"
  shows "\<exists>w'. async_input_handler n call w = Some (Inr (), w') \<and> heap w' = heap w \<and> trace w' = trace w \<and>
    wakeAt (timer_state w') = Some t \<and> posix_state w' = posix_state (set_fd False w)"
proof -
  define v where "v = set_fd False w"
  have v: "heap v = heap w" "trace v = trace w" "clock v = clock w" "tick v = tick w" "sys_frames v = sys_frames w"
    "exec_callbacks_reentrancy_count v = exec_callbacks_reentrancy_count w"
    by (auto simp: v_def set_fd_def Let_def)
  have "at_top_level v = (Inr False, v)"
    using assms(1) v by (auto simp: at_top_level_def sys_nframe_def Let_def split: if_splits option.splits)
  moreover have "timestamp_in (Fin (dbl (1 / 1000))) v = (Inr t, v\<lparr>tick := Suc (tick v)\<rparr>)"
    using assms(2) v by (simp add: timestamp_in_eq)
  ultimately show ?thesis using v
    by (simp add: async_input_handler_def v_def[symmetric] timer_set_def upd_timer_def)
qed

theorem handler_waits_for_idle_witness:
  "\<exists>w' t. async_input_handler 5 (invoke (exec_prog 5)) (demo\<lparr>sys_frames := Some 2\<rparr>) = Some (Inr (), w') \<and>
     trace w' = [] \<and> wakeAt (timer_state w') = Some t"
proof -
  let ?w = "demo\<lparr>sys_frames := Some 2\<rparr>"
  have b: "fst (at_top_level ?w) = Inr False" "trace ?w = []"
    "addSeconds (clock ?w (tick ?w)) (Fin (dbl (1 / 1000))) \<noteq> None" by code_simp+
  then obtain t where "addSeconds (clock ?w (tick ?w)) (Fin (dbl (1 / 1000))) = Some t" by blast
  from handler_waits_for_idle[OF b(1) this, of 5 "invoke (exec_prog 5)"] b(2) show ?thesis by auto
qed

text \<open>
  An exception that reaches the handler is swallowed: it is reported on the error stream,
  the queues stay as the callbacks left them, and the timer is set to the next event of the
  global loop, so that the loop goes on.
\<close>

theorem handler_survives_errors:
  assumes "fst (at_top_level w) = Inr True" and "execCallbacksForTopLevel n call (set_fd False w) = Some (Inl e, v)"
    and "runs_destructors e" and "getRegistry v GLOBAL_LOOP = Some r"
  shows "\<exists>w'. async_input_handler n call w = Some (Inr (), w') \<and> heap w' = heap v \<and> trace w' = trace v \<and>
    stderr_log w' = stderr_log v @ [handler_message e] \<and>
    wakeAt (timer_state w') =
      (case nextTimestamp v True r of None \<Rightarrow> wakeAt (timer_state v) | Some t \<Rightarrow> Some t)"
proof -
  let ?w0 = "set_fd False w"
  have "at_top_level ?w0 = (Inr True, ?w0)"
    using assms(1) by (auto simp: at_top_level_def sys_nframe_def set_fd_def Let_def split: if_splits option.splits)
  moreover define v1 where "v1 = v\<lparr>stderr_log := stderr_log v @ [handler_message e]\<rparr>"
  have "getRegistry v1 GLOBAL_LOOP = Some r" "nextTimestamp v1 True r = nextTimestamp v True r"
    using assms(4) nextTimestamp_heap[of v1 v True r] by (simp_all add: v1_def getRegistry_eq)
  ultimately show ?thesis using assms(2,3)
    by (cases "nextTimestamp v True r")
       (simp_all add: async_input_handler_def reset_timer_on_exit_def getGlobalRegistry_def v1_def timer_set_def upd_timer_def)
qed

definition demo_due :: world where
  "demo_due = snd (scheduleCallback (RFunction Done) (Fin 1) 0 demo_global)"

theorem handler_survives_errors_witness:
  "\<exists>w'. async_input_handler 5 (\<lambda>cb w. Some (Inl (StdException ''no''), w)) demo_due = Some (Inr (), w') \<and>
     stderr_log w' \<noteq> []"
proof -
  let ?call = "\<lambda>cb w. Some (Inl (StdException ''no''), w)"
  have t: "fst (at_top_level demo_due) = Inr True" by code_simp
  have "case execCallbacksForTopLevel 5 ?call (set_fd False demo_due) of None \<Rightarrow> False
     | Some (x, v) \<Rightarrow> x = Inl (StdException ''no'') \<and> getRegistry v GLOBAL_LOOP = Some 0" by code_simp
  then obtain v where v: "execCallbacksForTopLevel 5 ?call (set_fd False demo_due) = Some (Inl (StdException ''no''), v)"
    and g: "getRegistry v GLOBAL_LOOP = Some 0" by (auto split: option.splits)
  have e: "runs_destructors (StdException ''no'')" by simp
  from handler_survives_errors[OF t v e g] show ?thesis by auto
qed

section \<open>The timer and the pipe\<close>

text \<open>
  At the head of its loop the timer's thread fires exactly when the wake time has come: it
  then makes the pipe readable, with one byte, and forgets the time; otherwise it goes to wait
  and touches nothing.
\<close>

lemma timer_step_due:
  assumes "bgthread (timer_state w) = Some TLoop" and "\<not> stopped (timer_state w)" and "wakeAt (timer_state w) = Some t"
    and "ts_normal t" and "monotonic_clock (clock w)"
    and "0 \<le> pipe_in (posix_state w)" and "0 \<le> pipe_out (posix_state w)" and "pipe_ok (posix_state w)"
  shows "if t \<le> clock w (tick w)
    then posix_state (timer_step b w) = (posix_state w)\<lparr>hot := True, pipe_bytes := 1\<rparr> \<and>
      wakeAt (timer_state (timer_step b w)) = None
    else posix_state (timer_step b w) = posix_state w \<and> wakeAt (timer_state (timer_step b w)) = Some t \<and>
      bgthread (timer_state (timer_step b w)) = Some TTimedwait"
proof -
  have "ts_normal (clock w (tick w))" using assms(5) monotonic_clockD(1) by blast
  then have late: "diff_secs t (clock w (tick w)) > 0 \<longleftrightarrow> clock w (tick w) < t"
    using diff_secs_pos_iff[OF assms(4)] by blast
  show ?thesis
  proof (cases "clock w (tick w) < t")
    case True
    then show ?thesis using assms(1-3) late
      by (simp add: timer_step_def timestamp_now_def get_current_time_def upd_timer_def)
  next
    case False
    define v where "v = upd_timer (\<lambda>m. m\<lparr>wakeAt := None, bgthread := Some TLoop\<rparr>) (w\<lparr>tick := Suc (tick w)\<rparr>)"
    have "timer_step b w = fd_on v" using assms(1-3) late False
      by (simp add: timer_step_def timestamp_now_def get_current_time_def timer_fire_def v_def)
    moreover have "posix_state v = posix_state w" "wakeAt (timer_state v) = None" by (simp_all add: v_def)
    moreover have "timer_state (fd_on v) = timer_state v" by (simp add: fd_on_def set_fd_def Let_def)
    ultimately show ?thesis using set_fd_posix(1)[of v True] assms(6-8) False by (simp add: fd_on_def)
  qed
qed

text \<open>
  Scheduling into any loop overwrites the one timer: here a callback of the global loop is
  due at time 2, and scheduling one into loop 1 for time 10 moves the timer from 2 to 10.
\<close>

theorem timer_is_overwritten:
  "case scheduleCallback (RFunction Done) (Fin 9) 1 (snd (scheduleCallback (RFunction Done) (Fin 2) 0 demo_child)) of
     (x, w) \<Rightarrow> nextTimestamp w True 0 = Some (Timespec 2 0) \<and> wakeAt (timer_state w) = Some (Timespec 10 0)"
  by code_simp



end
