(* ===== verification/Progress.thy ===== *)
theory Progress
  imports QueueSpec Waiting
begin

text \<open>
  Progress, whatever the callbacks and the other threads do: a callback that is due when its
  loop is run without an error has left the queue when the run returns, called or cancelled.
  The argument needs no assumption on the callbacks: an id that has left no queue must be where
  it was (\<open>still_waits\<close>), and a finished run leaves nothing there that was due.
\<close>

section \<open>Running a loop\<close>

lemma not_own_due:
  assumes "queue_ok (queue g)" and "\<not> own_due t g" and "cb \<in> set (queue g)"
  shows "t < cbWhen cb"
proof -
  obtain c q where q: "queue g = c # q" using assms(3) by (cases "queue g") auto
  have "t < cbWhen c" using assms(2) q by (auto simp: own_due_def)
  moreover have "sorted (map cbWhen (c # q))"
    using queue_sorted_when[of "c # q"] assms(1) q by (simp add: queue_ok_def)
  ultimately show ?thesis using assms(3) q by auto
qed

lemma moved_on_ids:
  assumes "moved_on (ticket_view v) (ticket_view w)"
  shows "made w \<le> made v" and "set (retired_ids (trace w)) \<subseteq> set (retired_ids (trace v))"
  using assms by (auto simp: ticket_view_def)

lemma waits_or_left:
  assumes "sys_ok S w" and "sys_ok T v" and "grows v w" and "no_wrap_yet (made v)" and "cb \<in> set (queue (heap w r))"
  shows "cb \<in> set (queue (heap v r)) \<or> callbackId cb \<in> set (retired_ids (trace v))"
  using still_waits[OF _ _ assms(4) growsD(3)[OF assms(3)] assms(5)] sys_okD(1)[OF assms(1)] sys_okD(1)[OF assms(2)]
  by (auto simp: world_ok_def)

lemma left_for_good:
  assumes "grows v w" and "i \<in> set (retired_ids (trace w))"
  shows "i \<in> set (retired_ids (trace v))"
  using moved_on_ids(2)[OF growsD(3)[OF assms(1)]] assms(2) by blast

lemma no_wrap_before:
  assumes "grows v w" and "no_wrap_yet (made v)"
  shows "no_wrap_yet (made w)"
  using no_wrap_yet_less[OF assms(2)] moved_on_ids(1)[OF growsD(3)[OF assms(1)]] by blast

context callback_runner begin

lemma run_loop_serves:
  assumes "sys_ok S w" and "r < next_ref w" and "run_loop n call True r now w = Some (Inr u, w')"
    and "cb \<in> set (queue (heap w' r))"
  shows "now < cbWhen cb"
  using assms
proof (induction n arbitrary: w)
  case (Suc n)
  from Suc.prems(1-3) show ?case
  proof (cases rule: run_loop_step)
    case (stop v)
    have "queue_ok (queue (heap v r))" using sys_ok_parts(2)[OF stop(3)] by (simp add: queues_ok_def)
    then show ?thesis using not_own_due stop(2,5) Suc.prems(4) by blast
  next
    case (run v c y w1)
    then have "run_loop n call True r now w1 = Some (Inr u, w')" by (cases y) auto
    moreover have "r < next_ref w1" using Suc.prems(2) growsD(2)[OF run(5)] by simp
    ultimately show ?thesis using Suc.IH[OF run(4)] Suc.prems(4) by blast
  qed
qed simp

lemma execCallbacksOne_steps:
  assumes "sys_ok S w" and "r < next_ref w" and "execCallbacksOne (Suc n) call runAll r now w = Some (Inr u, w')"
  obtains w1 w2 a where "sys_ok S w1" and "grows w1 w" and "heap w1 = heap w" and "trace w1 = trace w"
    and "run_loop (Suc n) call runAll r now w1 = Some (Inr a, w2)" and "sys_ok S w2" and "grows w2 w1"
    and "sys_ok S w'" and "grows w' w2"
proof -
  let ?w1 = "snd (guards_enter (getId w r) w)"
  have ok1: "sys_ok S ?w1" and g1: "grows ?w1 w" using assms(1) by simp_all
  have r1: "r < next_ref ?w1" using assms(2) growsD(2)[OF g1] by simp
  obtain y w2 w3 where y: "run_loop (Suc n) call runAll r now ?w1 = Some (y, w2)"
    and body: "case y of Inl e \<Rightarrow> Inr u = Inl e \<and> w3 = w2
       | Inr _ \<Rightarrow> run_each (\<lambda>c. execCallbacksOne n call True c now) (children (heap w2 r)) w2 = Some (Inr u, w3)"
    and w': "w' = (if leaves_frame (Inr u) then guards_leave (fst (guards_enter (getId w r) w)) w3 else w3)"
    using assms(3) by (rule execCallbacksOne_cases)
  obtain a where a: "y = Inr a" using body by (cases y) auto
  note ok2 = run_loop_ok[OF ok1 r1 y]
  have r2: "r < next_ref w2" using r1 growsD(2)[of w2 ?w1] ok2 by simp
  have "heap_acyclic w2" using ok2 sys_ok_parts(1) by blast
  then have cs: "\<forall>c \<in> set (children (heap w2 r)). c < next_ref w2" using heap_acyclicD[OF _ r2] by blast
  have each: "run_each (\<lambda>c. execCallbacksOne n call True c now) (children (heap w2 r)) w2 = Some (Inr u, w3)"
    using body a by simp
  have "sys_ok S w3 \<and> grows w3 w2 \<and> Inr u \<noteq> Inl (Undefined ''freed ThreadArgs'')"
    by (rule run_each_ok[OF _ cs each]) (use ok2 execCallbacksOne_ok in auto)
  then have "sys_ok S w'" "grows w' w2" using grows_trans[OF _ guards_frame(4)] w' by auto
  moreover have "heap ?w1 = heap w" "trace ?w1 = trace w"
    by (simp_all add: guards_enter_def setCurrentRegistryId_def Let_def)
  ultimately show thesis using that[OF ok1 g1 _ _ y[unfolded a]] ok2 by blast
qed

lemma execCallbacksOne_serves:
  assumes "sys_ok S w" and "r < next_ref w" and "execCallbacksOne n call True r now w = Some (Inr u, w')"
    and "cb \<in> set (queue (heap w r))" and "cbWhen cb \<le> now" and "no_wrap_yet (made w')"
  shows "callbackId cb \<in> set (retired_ids (trace w'))"
proof -
  obtain m where n: "n = Suc m" using assms(3) by (cases n) auto
  from execCallbacksOne_steps[OF assms(1,2) assms(3)[unfolded n]] obtain w1 w2 a
    where s: "sys_ok S w1" "grows w1 w" "heap w1 = heap w" "trace w1 = trace w"
      "run_loop (Suc m) call True r now w1 = Some (Inr a, w2)" "sys_ok S w2" "grows w2 w1" "sys_ok S w'" "grows w' w2" .
  have r1: "r < next_ref w1" using assms(2) growsD(2)[OF s(2)] by simp
  have "cb \<notin> set (queue (heap w2 r))"
    using run_loop_serves[OF s(1) r1 s(5)] assms(5) by (meson leD)
  then have "callbackId cb \<in> set (retired_ids (trace w2))"
    using waits_or_left[OF s(1,6,7) no_wrap_before[OF s(9) assms(6)], of cb r] assms(4) s(3) by simp
  then show ?thesis by (rule left_for_good[OF s(9)])
qed

end

text \<open>After \<open>wait\<close> the clock has been read twice more.\<close>

lemma wait_ticks:
  assumes "wait secs recur r w = Some (Inr b, w')"
  shows "tick w < tick w' - 1"
  using assms
proof (cases rule: wait_cases)
  case (loop e y v)
  have "later_than v (lock (w\<lparr>tick := Suc (tick w)\<rparr>))"
    by (rule wait_loop_later[OF loop(2)]) (simp add: lock_def)
  from later_thanD(2)[OF this] loop(3) show ?thesis by (cases y) (auto simp: lock_def unlock_def)
qed simp

lemma execCallbacks_cases:
  assumes "execCallbacks n call secs runAll i w = Some (Inr b, w')"
  obtains (waited) r where "getRegistry w i = Some r" and "wait secs True r w = Some (Inr False, w')"
    | (ran) r w1 u w3 where "getRegistry w i = Some r" and "wait secs True r w = Some (Inr True, w1)"
      and "execCallbacksOne n call runAll r (clock w1 (tick w1)) (w1\<lparr>tick := Suc (tick w1)\<rparr>) = Some (Inr u, w3)"
      and "w' = pruneRegistries w3"
  using assms
  by (auto simp: execCallbacks_def timestamp_now_def get_current_time_def split: option.splits sum.splits if_splits)

context callback_runner begin

lemma execCallbacks_serves:
  assumes "sys_ok S w" and "getRegistry w i = Some r" and "execCallbacks n call secs True i w = Some (Inr b, w')"
    and "cb \<in> set (queue (heap w r))" and "cbWhen cb \<le> clock w (tick w)" and "no_wrap_yet (made w')"
  shows "callbackId cb \<in> set (retired_ids (trace w'))"
proof -
  have r: "r < next_ref w" by (rule getRegistry_lt[OF assms(1,2)])
  have mono: "clock w j \<le> clock w k" if "j \<le> k" for j k
    using monotonic_clockD(2)[OF sys_ok_parts(3)[OF assms(1)] that] .
  have late: "cbWhen cb \<le> clock w (tick v - 1) \<and> cbWhen cb \<le> clock w (tick v)"
    if "wait secs True r w = Some (Inr x, v)" for x v
    using wait_ticks[OF that] mono[of "tick w" "tick v - 1"] mono[of "tick w" "tick v"] assms(5) by force
  show ?thesis using assms(3)
  proof (cases rule: execCallbacks_cases)
    case (waited r')
    then have w: "wait secs True r w = Some (Inr False, w')" using assms(2) by simp
    have "cb \<notin> set (queue (heap w' r))"
    proof
      assume "cb \<in> set (queue (heap w' r))"
      then have "cbWhen cb \<in> pending_times w' r" unfolding pending_times_def using subtree.self by blast
      then show False using wait_result[OF assms(1) r w] late[OF w] by blast
    qed
    then show ?thesis
      using waits_or_left[OF assms(1) wait_sys_ok[OF assms(1) w] wait_grows[OF w] assms(6,4)] by blast
  next
    case (ran r' w1 u w3)
    let ?w2 = "w1\<lparr>tick := Suc (tick w1)\<rparr>"
    have w: "wait secs True r w = Some (Inr True, w1)" using ran(1,2) assms(2) by simp
    have g1: "grows ?w2 w" by (rule grows_trans[OF wait_grows[OF w] later_grows[OF later_than_tick]])
    have ok2: "sys_ok S ?w2" using wait_sys_ok[OF assms(1) w] by simp
    have r2: "r < next_ref ?w2" using r growsD(2)[OF g1] by simp
    have one: "execCallbacksOne n call True r (clock w1 (tick w1)) ?w2 = Some (Inr u, w3)" using ran(1,3) assms(2) by simp
    have g3: "grows w3 ?w2" using execCallbacksOne_ok[OF ok2 r2 one] by blast
    have gp: "grows w' w3" using prune_grows ran(4) by simp
    have nw3: "no_wrap_yet (made w3)" by (rule no_wrap_before[OF gp assms(6)])
    have "callbackId cb \<in> set (retired_ids (trace w3))"
      using waits_or_left[OF assms(1) ok2 g1 no_wrap_before[OF g3 nw3] assms(4)]
    proof
      assume "cb \<in> set (queue (heap ?w2 r))"
      moreover have "cbWhen cb \<le> clock w1 (tick w1)" using late[OF w] growsD(1)[OF wait_grows[OF w]] by simp
      ultimately show ?thesis by (rule execCallbacksOne_serves[OF ok2 r2 one _ _ nw3])
    qed (rule left_for_good[OF g3])
    then show ?thesis by (rule left_for_good[OF gp])
  qed
qed

lemma top_level_serves:
  assumes "sys_ok S w" and "getRegistry w GLOBAL_LOOP = Some r" and "execCallbacksForTopLevel n call w = Some (Inr any, w')"
    and "cb \<in> set (queue (heap w r))" and "cbWhen cb \<le> clock w (tick w)" and "no_wrap_yet (made w')"
  shows "callbackId cb \<in> set (retired_ids (trace w'))"
proof -
  have "20 = Suc 19" by simp
  note loop = assms(3)[unfolded execCallbacksForTopLevel_def this top_level_loop.simps(2)]
  obtain b w1 where y: "execCallbacks n call (Fin 0) True GLOBAL_LOOP w = Some (Inr b, w1)"
    and rest: "if b then top_level_loop 19 n call True w1 = Some (Inr any, w') else w' = w1"
    using loop by (auto split: option.splits prod.splits sum.splits if_splits)
  have "sys_ok S w1" using execCallbacks_ok[OF assms(1) y] by blast
  then have g: "grows w' w1" using rest top_level_loop_ok by (auto split: if_splits)
  have "callbackId cb \<in> set (retired_ids (trace w1))"
    by (rule execCallbacks_serves[OF assms(1,2) y assms(4,5) no_wrap_before[OF g assms(6)]])
  then show ?thesis by (rule left_for_good[OF g])
qed

lemma handler_run:
  assumes "sys_ok S w" and "fst (at_top_level w) = Inr True"
    and "execCallbacksForTopLevel n call (set_fd False w) = Some (Inr any, v)"
    and "async_input_handler n call w = Some (x, w')"
  shows "grows w' v" and "grows w' w"
proof -
  let ?w0 = "set_fd False w"
  have "at_top_level ?w0 = (Inr True, ?w0)"
    using assms(2) by (auto simp: at_top_level_def sys_nframe_def set_fd_def Let_def split: if_splits option.splits)
  then have "reset_timer_on_exit v = (x, w')" using assms(3,4) by (simp add: async_input_handler_def)
  then show g: "grows w' v" using reset_timer_on_exit_frame(2)[of v] by simp
  have "sys_ok S ?w0" using assms(1) by simp
  then have "grows v ?w0" using top_level_loop_ok assms(3) unfolding execCallbacksForTopLevel_def by blast
  then show "grows w' w" using grows_trans[OF later_grows[OF set_fd_later] grows_trans[OF _ g]] by blast
qed

lemma handler_serves:
  assumes "sys_ok S w" and "getRegistry w GLOBAL_LOOP = Some r" and "fst (at_top_level w) = Inr True"
    and "execCallbacksForTopLevel n call (set_fd False w) = Some (Inr any, v)"
    and "async_input_handler n call w = Some (x, w')" and "no_wrap_yet (made w')"
    and "cb \<in> set (queue (heap w r))" and "cbWhen cb \<le> clock w (tick w)"
  shows "callbackId cb \<in> set (retired_ids (trace w'))"
proof -
  let ?w0 = "set_fd False w"
  have same: "heap ?w0 = heap w" "clock ?w0 = clock w" "tick ?w0 = tick w" "registries ?w0 = registries w"
    by (simp_all add: set_fd_def Let_def)
  note g = handler_run(1)[OF assms(1,3,4,5)]
  have "callbackId cb \<in> set (retired_ids (trace v))"
    by (rule top_level_serves[OF _ _ assms(4) _ _ no_wrap_before[OF g assms(6)]])
       (use assms(1,2,7,8) same in \<open>simp_all add: getRegistry_eq\<close>)
  then show ?thesis by (rule left_for_good[OF g])
qed

end

section \<open>From scheduling to the pipe\<close>

text \<open>A callback that is scheduled arms the timer for its time at the latest.\<close>

lemma execLater_arms:
  assumes ok: "sys_ok S w" and nw: "no_wrap_yet (made w)" and r: "getRegistry w l = Some r"
    and e: "execLater p d l w = (Inr s, w1)" and t: "addSeconds (clock w (tick w)) d = Some t"
  obtains t' cb where "cb = \<lparr>cbWhen = t, callbackId = nextCallbackId w, func = RFunction p\<rparr>"
    and "cb \<in> set (queue (heap w1 r))" and "s = toString (nextCallbackId w)"
    and "wakeAt (timer_state w1) = Some t'" and "t' \<le> t" and "ts_normal t'"
    and "sys_ok S w1" and "getRegistry w1 l = Some r"
proof -
  define w0 where "w0 = snd (ensureInitialized w)"
  note k = ensureInitialized_keeps[of w, folded w0_def]
  let ?cb = "\<lparr>cbWhen = t, callbackId = nextCallbackId w0, func = RFunction p\<rparr>"
  have ok0: "sys_ok S w0" unfolding w0_def using ok ensureInitialized_frame(1) by simp
  have r0: "getRegistry w0 l = Some r" using getRegistry_registries[OF k(2)] r by simp
  note lt = getRegistry_lt[OF ok0 r0]
  have ids: "ids_ok w0" using ids_counted_ok sys_okD(1)[OF ok0] nw k(4) by (simp add: world_ok_def)
  obtain u where "ensureInitialized w = (Inr u, w0)"
    using e by (auto simp: execLater_def w0_def split: sum.splits prod.splits)
  then obtain i where i: "doExecLater r (RFunction p) d True w0 = (Inr i, w1)" "s = toString i"
    using e r0 by (auto simp: execLater_def split: sum.splits prod.splits)
  then obtain wa where a: "add r (RFunction p) d w0 = (Inr i, wa)"
    and w1: "w1 = snd (let (t, w2) = deref_timestamp (nextTimestamp wa True r) wa in (i, timer_set t w2))"
    by (auto simp: doExecLater_def split: prod.splits sum.splits)
  have t0: "addSeconds (clock w0 (tick w0)) d = Some t" using t k by simp
  then have i0: "i = nextCallbackId w0" and pend: "pending wa = (pending w0)(r := insert ?cb (pending w0 r))"
    using add_pending[OF ids a] by (metis option.inject)+
  then have "?cb \<in> pending wa r" by simp
  with i0 have cb: "i = nextCallbackId w0" "?cb \<in> set (queue (heap wa r))" by (simp_all only: pending_def)
  have same: "next_ref wa = next_ref w0" "registries wa = registries w0"
    using a unfolding add_Inr[OF t0] by (auto simp: cond_signal_def)
  have oka: "sys_ok S wa" by (rule add_sys_ok[OF _ lt a]) (simp add: ok0)
  have lta: "r < next_ref wa" using lt same(1) by simp
  have "t \<in> pending_times wa r" using cb(2) subtree.self by (force simp: pending_times_def)
  then obtain t' where t': "nextTimestamp wa True r = Some t'" "t' \<le> t"
    using nextTimestamp_least[OF sys_ok_parts(1,2)[OF oka] lta] by (auto simp: least_of_def split: option.splits)
  then have w1: "w1 = timer_set t' wa" using w1 by (simp add: deref_timestamp_def)
  have "heap w1 = heap wa" "registries w1 = registries w" using same(2) k(2) by (simp_all add: w1 timer_set_def)
  moreover from this have "getRegistry w1 l = Some r" using getRegistry_registries[of w1 w] r by simp
  ultimately show thesis
    using that[OF refl, of t'] cb i(2) k(3) t'(2) nextTimestamp_normal(1)[OF oka lta t'(1)] oka timer_set_sys_ok
    by (simp add: w1)
qed

lemma retired_ids_iff: "i \<in> set (retired_ids es) \<longleftrightarrow> (\<exists>l. EvInvoke l i \<in> set es) \<or> EvCancel i \<in> set es"
  by (induction es rule: retired_ids.induct) auto

section \<open>Properties\<close>

lemma left_meanwhile:
  assumes "sys_ok S w" and "grows v w" and "no_wrap_yet (made w)" and "cb \<in> pending w r"
    and "callbackId cb \<in> set (retired_ids (trace v))"
  shows "\<exists>xs. retired_ids (trace v) = retired_ids (trace w) @ xs \<and> callbackId cb \<in> set xs"
proof -
  have "ids_counted w" using sys_okD(1)[OF assms(1)] by (simp add: world_ok_def)
  note c = conservedD(4)[OF ids_countedD(2)[OF this assms(3)], of r]
  obtain xs where "retired_ids (trace v) = retired_ids (trace w) @ xs"
    using growsD(3)[OF assms(2)] by (auto simp: ticket_view_def)
  with c assms(4,5) show ?thesis by (auto simp: pending_def)
qed

definition demo_native :: world where
  "demo_native = snd (scheduleCallback (NativeFunction Done) (Fin 0) 0 demo_global)"

lemma demo_native_reachable: "reachable demo_native"
proof -
  have "lock_depth demo_global = 0" by code_simp
  then have "bg_step (BgNative Done (Fin 0) 0) demo_global = Some demo_native"
    by (simp add: bg_step_def demo_native_def)
  then show ?thesis by (rule reachable.more[OF demo_global_reachable step.background])
qed

text \<open>
  C5. Nothing that is due is left behind: if running all callbacks of a loop returns without an
  error, then every callback of the loop that was due when the run began has left its queue
  during the run, taken to be called or cancelled by another one - whatever the callbacks do,
  run loops themselves included, and whatever other threads schedule meanwhile.
\<close>

theorem run_serves_what_is_due:
  assumes "reachable w" and "getRegistry w i = Some r"
    and "execCallbacks m (invoke (exec_prog n)) secs True i w = Some (Inr b, w')" and "no_wrap_yet (made w')"
    and "cb \<in> pending w r" and "cbWhen cb \<le> clock w (tick w)"
  shows "\<exists>xs. retired_ids (trace w') = retired_ids (trace w) @ xs \<and> callbackId cb \<in> set xs"
proof -
  note ok = reachable_sys_ok[OF assms(1)]
  have g: "grows w' w" using runner.execCallbacks_ok[OF ok assms(3)] by blast
  have "callbackId cb \<in> set (retired_ids (trace w'))"
    using runner.execCallbacks_serves[OF ok assms(2,3) _ assms(6,4)] assms(5) by (simp add: pending_def)
  then show ?thesis by (rule left_meanwhile[OF ok g no_wrap_before[OF g assms(4)] assms(5)])
qed

theorem run_serves_what_is_due_witness:
  "\<exists>b w'. execCallbacks 4 (invoke (exec_prog 1)) (Fin 0) True 0 demo_native = Some (Inr b, w') \<and>
     1 \<in> set (retired_ids (trace w'))"
proof -
  have "case execCallbacks 4 (invoke (exec_prog 1)) (Fin 0) True 0 demo_native of None \<Rightarrow> False
    | Some (x, w') \<Rightarrow> x = Inr True \<and> made w' = 1" by code_simp
  then obtain w' where e: "execCallbacks 4 (invoke (exec_prog 1)) (Fin 0) True 0 demo_native = Some (Inr True, w')"
    and "made w' = 1" by (auto split: option.splits)
  then have nw: "no_wrap_yet (made w')" by (simp add: no_wrap_yet_def)
  have g: "getRegistry demo_native 0 = Some 0" by code_simp
  have q: "map (\<lambda>cb. (callbackId cb, cbWhen cb)) (queue (heap demo_native 0)) = [(1, Timespec 0 0)]"
    "Timespec 0 0 \<le> clock demo_native (tick demo_native)" by code_simp+
  then obtain cb where "cb \<in> pending demo_native 0" "callbackId cb = 1" "cbWhen cb = Timespec 0 0"
    by (auto simp: map_eq_Cons_conv pending_def)
  with run_serves_what_is_due[OF demo_native_reachable g e nw] q(2) e show ?thesis by fastforce
qed


definition demo_later :: world where
  "demo_later = snd (execLater Done (Fin 0) 0 demo_global)"


end
