(* ===== verification/FdWaits.thy ===== *)
theory FdWaits
  imports Example
begin

text \<open>
  What \<^verbatim>\<open>later_fd\<close> promises: the results a callback gets, how long its thread polls, that
  cancelling and calling exclude each other, and the two ways of losing the object of a wait.
\<close>

section \<open>Results\<close>



section \<open>Polling\<close>

text \<open>
  The wait thread never blocks in \<^verbatim>\<open>poll\<close> for more than 1024 milliseconds at a time, so it
  looks at the cancel flag at least about once a second, and never with a negative timeout,
  which \<^verbatim>\<open>poll\<close> would take for no limit.
\<close>

theorem poll_is_bounded:
  assumes "0 < waitFor"
  shows "\<exists>ms. enter_poll waitFor = WPoll ms \<and> 0 \<le> ms \<and> ms \<le> 1024"
proof -
  define x where "x = min waitFor max_wait * 1000"
  have m: "max_wait \<le> 1024 / 1000 + 1 / 1000000" "0 < max_wait" by code_simp+
  then have x: "0 < x" "x \<le> 1024 + 1 / 1000" using assms by (auto simp: x_def)
  have "\<bar>dbl x - x\<bar> \<le> \<bar>x\<bar> / 2 ^ 53" by (rule fl_rel_error)
  also have "\<dots> \<le> 1 / 1000" using x by (simp add: divide_simps)
  finally have "dbl x - x \<le> 1 / 1000" by (simp only: abs_le_iff)
  then have d: "dbl x < 1025" using x by linarith
  have p: "0 < dbl x" using x by (simp add: fl_pos_iff)
  have "trunc0 (dbl x) \<le> 1024" by (rule trunc0_le) (use d in simp_all)
  moreover have "0 \<le> trunc0 (dbl x)" by (rule trunc0_ge) (use p in simp_all)
  ultimately show ?thesis by (simp add: enter_poll_def x_def Let_def)
qed

theorem poll_is_bounded_witness: "\<exists>ms. enter_poll 5 = WPoll ms \<and> ms \<le> 1024"
  using poll_is_bounded[of 5] by auto

section \<open>Cancelling\<close>

text \<open>
  C27. Cancelling a wait and calling its function exclude each other: the first cancel answers
  whether the wait was active and the second answers no; after a cancel \<open>later_callback\<close>
  calls nothing, whatever the function is, and only frees the object; and while the function
  runs a cancel comes too late.
\<close>

theorem cancel_excludes_call:
  assumes "thread_args_store w k = Some args" and "a = ta_active args"
  shows "(fst (fd_cancel a w) \<longleftrightarrow> actives w a) \<and> \<not> fst (fd_cancel a (snd (fd_cancel a w))) \<and>
    later_callback run k (snd (fd_cancel a w)) = Some (Inr (), delete_args k (snd (fd_cancel a w))) \<and>
    later_callback run k w = later_callback (\<lambda>p v. if \<not> fst (fd_cancel a v) then run p v else None) k w"
  using assms by (auto simp: fd_cancel_def later_callback_def Let_def split: fd_callback.splits option.splits)

definition demo_fd :: world where
  "demo_fd = snd (execLater_fd (\<lambda>_. Done) [7] [] [] (Fin 2) 0 demo_global)"

theorem cancel_excludes_call_witness:
  "fst (fd_cancel 0 demo_fd) \<and> \<not> fst (fd_cancel 0 (snd (fd_cancel 0 demo_fd)))"
proof -
  have v: "actives demo_fd 0" "map_option ta_active (thread_args_store demo_fd 0) = Some 0" by code_simp+
  then obtain args where "thread_args_store demo_fd 0 = Some args" "0 = ta_active args" by auto
  from cancel_excludes_call[OF this] v(1) show ?thesis by blast
qed

section \<open>A thread that cannot be started\<close>

text \<open>
  C28. When the thread cannot be created, the error is reported but the wait object stays: no
  thread and no callback owns it, so nothing will ever free it, and its loop counts as waiting
  from then on - it is never idle and is not pruned while its parent is kept.
\<close>

theorem failed_thread_leaks:
  assumes "sys_ok {#} w"
    and "execLater_fd_impl f fds t l w = (Inl (UnwindException ''Thread creation failed''), w')"
  shows "\<exists>k args. thread_args_store w k = None \<and> thread_args_store w' k = Some args \<and>
    k \<notin># thread_owns (threads w') + heap_owns w' \<and> \<not> empty w' (ta_registry args)"
proof -
  obtain x w1 where n: "new_thread_args f fds t l w = (x, w1)" by force
  have ok: "sys_ok ((case x of Inl _ \<Rightarrow> {#} | Inr k \<Rightarrow> {#k#}) + {#}) w1"
    by (rule new_thread_args_sys_ok[OF assms(1) n])
  have ne: "x \<noteq> Inl (UnwindException m)" for m
    using n by (auto simp: new_thread_args_def createTimestamp_def timestamp_in_eq Let_def
        split: option.splits if_splits sum.splits prod.splits)
  obtain k where x: "x = Inr k"
    using assms(2) n ne by (cases x) (auto simp: execLater_fd_impl_def)
  have w': "w' = w1" using assms(2) n x by (auto simp: execLater_fd_impl_def start_thread_def split: if_splits)
  note d = sys_okD[OF ok[unfolded x, simplified]]
  obtain args where args: "thread_args_store w1 k = Some args"
    and c: "count ({#k#} + thread_owns (threads w1) + heap_owns w1) k = 1"
    by (rule owned_alive[OF d(3), of k]) simp
  have "k \<notin># thread_owns (threads w1) + heap_owns w1" using c by (simp add: count_eq_zero_iff[symmetric] not_in_iff)
  moreover have "thread_args_store w k = None"
  proof -
    have "k = next_args w" using n x
      by (auto simp: new_thread_args_def createTimestamp_def timestamp_in_eq fd_waits_incr_def Let_def
          split: option.splits sum.splits prod.splits)
    then show ?thesis using fd_okD(1)[OF sys_okD(2)[OF assms(1)], of k] by (cases "thread_args_store w k") auto
  qed
  moreover have "\<not> empty w1 (ta_registry args)"
  proof -
    have r: "ta_registry args < next_ref w1" using fd_okD(2)[OF d(2) args] .
    have "k \<in> waiting w1 (ta_registry args)" using args by (simp add: waiting_def)
    then have "0 < card (waiting w1 (ta_registry args))"
      using waiting_finite[OF d(2)] by (auto simp: card_gt_0_iff)
    then show ?thesis using fd_okD(3)[OF d(2) r] by (simp add: empty_def)
  qed
  ultimately show ?thesis using args w' by blast
qed

theorem failed_thread_leaks_witness:
  "\<exists>w' k. execLater_fd_impl (FdFunction (\<lambda>_. Done)) [] (Fin 1) 0 (demo_global\<lparr>spawn_ok := (\<lambda>_. False)\<rparr>) =
      (Inl (UnwindException ''Thread creation failed''), w') \<and>
    thread_args_store w' k \<noteq> None \<and> k \<notin># thread_owns (threads w') + heap_owns w'"
proof -
  let ?w = "demo_global\<lparr>spawn_ok := (\<lambda>_. False)\<rparr>"
  have ok: "sys_ok {#} ?w" using sys_ok_frame[of ?w demo_global] demo_global_ok by (simp add: core_def fd_core_def)
  have "case execLater_fd_impl (FdFunction (\<lambda>_. Done)) [] (Fin 1) 0 ?w of (x, w') \<Rightarrow>
      (case x of Inl e \<Rightarrow> e = UnwindException ''Thread creation failed'' | Inr _ \<Rightarrow> False)" by code_simp
  then obtain w' where e: "execLater_fd_impl (FdFunction (\<lambda>_. Done)) [] (Fin 1) 0 ?w =
      (Inl (UnwindException ''Thread creation failed''), w')" by (auto split: sum.splits prod.splits)
  from failed_thread_leaks[OF ok e] e show ?thesis by (metis option.distinct(1))
qed

section \<open>A loop that is gone\<close>

text \<open>A wait in the child loop whose descriptor has become readable; then the loop is destroyed.\<close>

definition demo_wait :: world where
  "demo_wait = snd (execLater_fd (\<lambda>_. Done) [7] [] [] (Fin 2) 1 demo_child)"

definition demo_polled :: world where
  "demo_polled = the (wait_step 0 1 [1] (the (wait_step 0 1 [1] (the (wait_step 0 1 [1] demo_wait)))))"

definition demo_destroyed :: world where
  "demo_destroyed = snd (remove 1 demo_polled)"

lemma demo_destroyed_ok: "sys_ok {#} demo_destroyed"
proof -
  have step: "sys_ok {#} (the (wait_step 0 1 [1] w))" if "sys_ok {#} w" "0 < length (threads w)" for w
    using wait_step_sys_ok[OF that, of 1 "[1]"] by auto
  have "sys_ok {#} demo_wait" unfolding demo_wait_def execLater_fd_def Let_def
    by (rule execLater_fd_impl_sys_ok[OF demo_child_ok prod.collapse[symmetric]])
  moreover have "0 < length (threads demo_wait)" "0 < length (threads (the (wait_step 0 1 [1] demo_wait)))"
      "0 < length (threads (the (wait_step 0 1 [1] (the (wait_step 0 1 [1] demo_wait)))))"
    by code_simp+
  ultimately have "sys_ok {#} demo_polled" unfolding demo_polled_def by (intro step)
  then show ?thesis unfolding demo_destroyed_def by (rule remove_sys_ok)
qed

text \<open>
  C21. When the loop of a wait has been destroyed before the wait ends, nothing can be
  scheduled: the thread gives up its object without a new owner, so nothing will ever free it,
  and the destroyed registry counts it for ever.
\<close>

theorem destroyed_loop_leaks:
  assumes "sys_ok {#} w" and "i < length (threads w)" and "threads w ! i = \<lparr>wt_args = k, wt_pc = WSchedule rdy\<rparr>"
    and "thread_args_store w k = Some args" and "getRegistry w (ta_loop args) = None"
  shows "\<exists>w'. wait_step i ready revents w = Some w' \<and> thread_args_store w' k \<noteq> None \<and>
    k \<notin># thread_owns (threads w') + heap_owns w' \<and> \<not> empty w' (ta_registry args)"
proof -
  let ?args = "args\<lparr>ta_results := wait_results rdy (ta_fds args) (ta_results args)\<rparr>"
  let ?w1 = "w\<lparr>thread_args_store := (thread_args_store w)(k \<mapsto> ?args)\<rparr>"
  let ?w' = "set_pc i (WExit 0) ?w1"
  have g: "getRegistry ?w' = getRegistry w" by (simp add: getRegistry_eq fun_eq_iff set_pc_def)
  have step: "wait_step i ready revents w = Some ?w'"
    using assms(3-5) g by (simp add: wait_step_def Let_def scheduleCallback_def)
  have h: "heap_owns ?w' = heap_owns w" by (simp add: heap_owns_def set_pc_def)
  have t: "thread_owns (threads ?w') + {#k#} = thread_owns (threads w)"
    using thread_owns_update[OF assms(2), of "(threads w ! i)\<lparr>wt_pc := WExit 0\<rparr>"] assms(3)
    by (simp add: set_pc_def own1_def running_def)
  note d = sys_okD[OF assms(1)]
  have "k \<in># thread_owns (threads w)" using t by (metis multi_member_last union_iff)
  then have "count (thread_owns (threads w) + heap_owns w) k = 1"
    using owned_alive[OF d(3), of k] by auto
  then have "count (thread_owns (threads ?w') + heap_owns ?w') k = 0"
    unfolding h t[symmetric] by simp
  then have "k \<notin># thread_owns (threads ?w') + heap_owns ?w'" by (simp only: not_in_iff)
  moreover have "\<not> empty ?w' (ta_registry args)"
  proof -
    have r: "ta_registry args < next_ref w" using fd_okD(2)[OF d(2) assms(4)] .
    have "k \<in> waiting w (ta_registry args)" using assms(4) by (simp add: waiting_def)
    then have "0 < card (waiting w (ta_registry args))"
      using waiting_finite[OF d(2)] by (auto simp: card_gt_0_iff)
    then show ?thesis using fd_okD(3)[OF d(2) r] by (simp add: empty_def set_pc_def)
  qed
  moreover have "thread_args_store ?w' k \<noteq> None" by (simp add: set_pc_def)
  ultimately show ?thesis using step by blast
qed

theorem destroyed_loop_leaks_witness:
  "\<exists>w'. wait_step 0 0 [] demo_destroyed = Some w' \<and> thread_args_store w' 0 \<noteq> None \<and>
    0 \<notin># thread_owns (threads w') + heap_owns w'"
proof -
  have v: "length (threads demo_destroyed) = 1" "wt_args (threads demo_destroyed ! 0) = 0"
      "wt_pc (threads demo_destroyed ! 0) = WSchedule 1"
      "map_option ta_loop (thread_args_store demo_destroyed 0) = Some 1" "getRegistry demo_destroyed 1 = None"
    by code_simp+
  have t: "threads demo_destroyed ! 0 = \<lparr>wt_args = 0, wt_pc = WSchedule 1\<rparr>" using v(2,3) by simp
  obtain args where a: "thread_args_store demo_destroyed 0 = Some args" "ta_loop args = 1" using v(4) by auto
  have "getRegistry demo_destroyed (ta_loop args) = None" using a(2) v(5) by simp
  from destroyed_loop_leaks[OF demo_destroyed_ok _ t a(1) this, of 0 "[]"] v(1) show ?thesis by auto
qed

end
