(* ===== verification/Delivery.thy ===== *)
theory Delivery
  imports Progress FdWaits
begin

text \<open>
  From a descriptor to its callback: what the thread of \<^verbatim>\<open>later_fd\<close> does once \<^verbatim>\<open>poll\<close> has
  answered, followed by the run of the loop, and a process in which all of this happens.
\<close>

section \<open>The steps of the thread\<close>

lemma scheduleCallback_effect:
  fixes f :: cbfun
  assumes "ids_ok w" and "getRegistry w l = Some r" and "addSeconds (clock w (tick w)) d = Some t"
  defines "v \<equiv> snd (scheduleCallback f d l w)"
  shows "\<lparr>cbWhen = t, callbackId = nextCallbackId w, func = f\<rparr> \<in> pending v r" and "registries v = registries w"
    and "thread_args_store v = thread_args_store w" and "threads v = threads w" and "clock v = clock w"
    and "tick w \<le> tick v"
proof -
  note a = add_Inr[OF assms(3), of r f]
  have "snd (add r f d w) = snd (add r f d w)" ..
  obtain wa where wa: "add r f d w = (Inr (nextCallbackId w), wa)" using a by blast
  have "\<lparr>cbWhen = t, callbackId = nextCallbackId w, func = f\<rparr> \<in> pending wa r"
    using add_pending[OF assms(1) wa] assms(3) by (metis fun_upd_same insertI1 option.inject)
  moreover have "registries wa = registries w" "thread_args_store wa = thread_args_store w" "threads wa = threads w"
    "clock wa = clock w" "tick w \<le> tick wa"
    using wa unfolding a by (auto simp: cond_signal_def)
  ultimately show "\<lparr>cbWhen = t, callbackId = nextCallbackId w, func = f\<rparr> \<in> pending v r" and "registries v = registries w"
    and "thread_args_store v = thread_args_store w" and "threads v = threads w" and "clock v = clock w"
    and "tick w \<le> tick v"
    using wa unfolding v_def
    by (simp_all add: scheduleCallback_def doExecLater_def assms(2) deref_timestamp_def timer_set_def upd_timer_def
        timestamp_now_def get_current_time_def pending_def split: option.split)
qed

lemma scheduleCallback_threads: "threads (snd (scheduleCallback f d l w)) = threads w"
proof -
  have "threads (snd (add r f d w)) = threads w" for r
    by (cases "addSeconds (clock w (tick w)) d") (simp_all add: add_Inl add_Inr cond_signal_def)
  then show ?thesis
    by (auto simp: scheduleCallback_def doExecLater_def deref_timestamp_def timer_set_def upd_timer_def timestamp_now_def
        get_current_time_def case_prod_unfold Let_def split: option.split sum.split)
qed

lemma wait_step_threads: "wait_step i c cs w = Some v \<Longrightarrow> length (threads v) = length (threads w)"
  by (auto simp: wait_step_def scheduleCallback_threads Let_def set_pc_def timestamp_now_def get_current_time_def
      delete_args_def fd_waits_decr_def split: wait_pc.splits option.splits if_splits)

text \<open>The three steps after \<^verbatim>\<open>poll\<close> has answered, up to the scheduling.\<close>

lemma wait_thread_schedules:
  assumes "i < length (threads w)" and "threads w ! i = \<lparr>wt_args = k, wt_pc = WPoll ms\<rparr>"
    and "thread_args_store w k = Some args" and "actives w (ta_active args)" and "answer \<noteq> 0"
    and "wait_step i answer revents w = Some w1" and "wait_step i a as w1 = Some w2" and "wait_step i b bs w2 = Some w3"
  obtains v where "w3 = snd (scheduleCallback (LaterCallback k) (Fin 0) (ta_loop args) v)"
    and "heap v = heap w" and "nextCallbackId v = nextCallbackId w" and "clock v = clock w" and "tick v = tick w"
    and "registries v = registries w" and "wt_pc (threads v ! i) = WExit 0"
    and "map_option ta_results (thread_args_store v k) =
      Some (wait_results answer (set_revents revents (ta_fds args)) (ta_results args))"
proof -
  let ?fds = "set_revents revents (ta_fds args)"
  let ?args = "args\<lparr>ta_fds := ?fds\<rparr>"
  let ?w1 = "set_pc i (WCheck answer) (w\<lparr>thread_args_store := (thread_args_store w)(k \<mapsto> ?args)\<rparr>)"
  let ?w2 = "set_pc i (WSchedule answer) ?w1"
  let ?args' = "?args\<lparr>ta_results := wait_results answer ?fds (ta_results args)\<rparr>"
  let ?v = "set_pc i (WExit 0) (?w2\<lparr>thread_args_store := (thread_args_store ?w2)(k \<mapsto> ?args')\<rparr>)"
  have w1: "w1 = ?w1" using assms(2,3,6) by (simp add: wait_step_def Let_def)
  have at1: "threads ?w1 ! i = \<lparr>wt_args = k, wt_pc = WCheck answer\<rparr>" using assms(1,2) by (simp add: set_pc_def)
  have w2: "w2 = ?w2" using assms(4,5,7) at1 unfolding w1 by (simp add: wait_step_def Let_def) (simp add: set_pc_def)
  have at2: "threads ?w2 ! i = \<lparr>wt_args = k, wt_pc = WSchedule answer\<rparr>" using assms(1,2) by (simp add: set_pc_def)
  have w3: "w3 = snd (scheduleCallback (LaterCallback k) (Fin 0) (ta_loop args) ?v)"
    using assms(8) at2 unfolding w2 by (simp add: wait_step_def Let_def) (simp add: set_pc_def)
  show thesis by (rule that[OF w3]) (use assms(1) in \<open>simp_all add: set_pc_def\<close>)
qed


section \<open>An example\<close>

text \<open>Running a loop in which only a finished wait is queued, while no other thread moves.\<close>

lemma run_one_wait:
  assumes "others w (turn w) = []" and "others w (Suc (turn w)) = []" and "queue (heap w r) = [cb]" and "cbWhen cb \<le> now"
    and "func cb = LaterCallback k" and "children (heap w r) = []" and "thread_args_store w k = Some args"
    and "case ta_callback args of FdFunction f \<Rightarrow> f (ta_results args) = Done | FdNative f \<Rightarrow> False"
  shows "\<exists>w'. execCallbacksOne 2 (invoke (exec_prog 1)) True r now w = Some (Inr (), w') \<and> made w' = made w"
proof -
  define w1 where "w1 = snd (guards_enter (getId w r) w)"
  have w1: "others w1 = others w" "turn w1 = turn w" "heap w1 = heap w" "thread_args_store w1 = thread_args_store w" "made w1 = made w"
    by (simp_all add: w1_def guards_enter_def setCurrentRegistryId_def Let_def)
  let ?u = "w1\<lparr>turn := Suc (turn w1)\<rparr>"
  have i1: "interleave w1 = Some ?u" using assms(1) w1 by (simp add: interleave_def)
  have "queue (heap ?u r) = cb # []" using assms(3) w1 by simp
  from pop_Cons[OF this assms(4)]
  have p1: "pop r now ?u = (Some cb, upd_registry r (\<lambda>g. g\<lparr>queue := []\<rparr>) ?u)" .
  define v where "v = note_invoke r cb (upd_registry r (\<lambda>g. g\<lparr>queue := []\<rparr>) ?u)"
  define v' where "v' = delete_args k (v\<lparr>actives := (actives v)(ta_active args := False),
    trace := trace v @ [EvFdCallback k (ta_results args)]\<rparr>)"
  define v'' where "v'' = delete_args k (v\<lparr>actives := (actives v)(ta_active args := False)\<rparr>)"
  have a: "thread_args_store v k = Some args" using assms(7) w1(4) by (simp add: v_def note_invoke_def)
  have "invoke (exec_prog (Suc 0)) cb v = Some (Inr (), if actives v (ta_active args) then v' else v'')"
    using a assms(5,8)
    by (auto simp: invoke_def later_callback_def v'_def v''_def leaves_frame_def split: fd_callback.splits)
  then obtain z where c: "invoke (exec_prog (Suc 0)) cb v = Some (Inr (), z)" and z: "z = v' \<or> z = v''" by auto
  have vz: "others v = others w" "turn v = Suc (turn w)" "queue (heap v r) = []" "children (heap v r) = []" "made v = made w"
    using w1 assms(6) by (simp_all add: v_def note_invoke_def)
  have del: "others (delete_args k y) = others y" "turn (delete_args k y) = turn y" "made (delete_args k y) = made y"
    "queue (heap (delete_args k y) r) = queue (heap y r)" "children (heap (delete_args k y) r) = children (heap y r)" for y
    by (simp_all add: delete_args_def fd_waits_decr_def split: option.split)
  have zz: "others z = others w" "turn z = Suc (turn w)" "queue (heap z r) = []" "children (heap z r) = []" "made z = made w"
    using z by (elim disjE; simp add: v'_def v''_def del vz)+
  let ?z = "z\<lparr>turn := Suc (turn z)\<rparr>"
  have i2: "interleave z = Some ?z" using assms(2) zz by (simp add: interleave_def)
  have p2: "pop r now ?z = (None, ?z)" by (rule pop_None) (simp add: zz own_due_def)
  have "run_loop 2 (invoke (exec_prog 1)) True r now w1 = Some (Inr (), ?z)"
    using i1 p1 c i2 p2 by (simp add: numeral_2_eq_2 v_def)
  then show ?thesis using zz unfolding numeral_2_eq_2
    by (simp add: w1_def case_prod_unfold Let_def leaves_frame_def guards_leave_def setCurrentRegistryId_def del: run_loop.simps)
qed

lemma wait_without_wakes:
  assumes "wait secs recur r w = Some (Inr b, w')" and "wakes w = []"
  shows "w' = w\<lparr>tick := tick w'\<rparr>"
  using assms(1)
proof (cases rule: wait_cases)
  case (loop e y v)
  then obtain u where y: "y = Inr u" by (cases y) auto
  from loop(2) have "v = lock (w\<lparr>tick := Suc (tick w)\<rparr>)\<lparr>tick := tick v, wakes := []\<rparr>"
    by (cases rule: wait_loop_cases) (auto simp: y assms(2) lock_def)
  moreover have "w' = unlock (v\<lparr>tick := Suc (tick v)\<rparr>)" using loop(3) y by simp
  ultimately show ?thesis using assms(2) by (cases w; cases v) (simp add: lock_def unlock_def)
qed simp

lemma wait_finds_due:
  assumes "sys_ok S w" and "getRegistry w l = Some r" and "wakes w = []" and "cb \<in> set (queue (heap w r))"
    and "cbWhen cb \<le> clock w (tick w)" and "addSeconds (clock w (tick w)) (Fin 0) = Some t"
  shows "\<exists>n. tick w \<le> n \<and> wait (Fin 0) True r w = Some (Inr True, w\<lparr>tick := n\<rparr>)"
proof -
  have mono: "clock w i \<le> clock w j" if "i \<le> j" for i j
    using monotonic_clockD(2)[OF sys_ok_parts(3)[OF assms(1)] that] .
  have "t = clock w (tick w)"
    using addSeconds_zeroD[OF assms(6)] monotonic_clockD(1)[OF sys_ok_parts(3)[OF assms(1)]] by blast
  then have "t \<le> clock w (Suc (tick w) + length (wakes w))" using mono[of "tick w"] by simp
  moreover have "addSeconds (clock w (tick w)) (wait_secs (Fin 0)) = Some t" using assms(6) by (simp add: wait_secs_def)
  ultimately obtain b w' where b: "wait (Fin 0) True r w = Some (Inr b, w')"
    using wait_answers[OF assms(1,2)] assms(3) by fastforce
  have w': "w' = w\<lparr>tick := tick w'\<rparr>" by (rule wait_without_wakes[OF b assms(3)])
  have "cbWhen cb \<in> pending_times w r" unfolding pending_times_def using assms(4) subtree.self by blast
  moreover have "pending_times w' r = pending_times w r" by (subst w') (rule pending_times_heap, simp)
  moreover have "cbWhen cb \<le> clock w (tick w' - 1)"
    using wait_ticks[OF b] mono[of "tick w" "tick w' - 1"] assms(5) by force
  ultimately have b1: "b" using wait_result[OF assms(1) getRegistry_lt[OF assms(1,2)] b] by metis
  have "tick w \<le> tick w'" using wait_ticks[OF b] by simp
  with w' b b1 show ?thesis by metis
qed

definition demo_polling :: world where
  "demo_polling = the (wait_step 0 0 [] demo_fd)"

lemma demo_polling_reachable: "reachable demo_polling"
proof -
  have "step demo_global demo_fd" unfolding demo_fd_def
    by (rule step.entry[of 0 "ExecLaterFd (\<lambda>_. Done) [7] [] [] (Fin 2) 0"])
       (simp add: api_def ret_def apfst_def map_prod_def case_prod_unfold)
  then have "reachable demo_fd" by (rule reachable.more[OF demo_global_reachable])
  moreover have "lock_depth demo_fd = 0" "length (threads demo_fd) = 1" by code_simp+
  then have "bg_step (BgWaitThread 0 0 []) demo_fd = Some demo_polling"
    using wait_step_sys_ok[OF reachable_sys_ok[OF calculation], of 0 0 "[]"] by (auto simp: bg_step_def demo_polling_def)
  ultimately show ?thesis by (rule reachable.more[OF _ step.background])
qed

definition demo_answered :: world where
  "demo_answered = the (wait_step 0 1 [1] demo_polling)"

definition demo_checked :: world where
  "demo_checked = the (wait_step 0 0 [] demo_answered)"

definition demo_served :: world where
  "demo_served = the (wait_step 0 0 [] demo_checked)"

lemma demo_threads: "length (threads demo_polling) = 1"
  by code_simp

lemma demo_polling_thread:
  "wt_args (threads demo_polling ! 0) = 0" "case wt_pc (threads demo_polling ! 0) of WPoll ms \<Rightarrow> True | _ \<Rightarrow> False"
  by code_simp+

lemma demo_polling_wait:
  "map_option (\<lambda>a. (ta_active a, ta_loop a, length (ta_fds a), ta_results a)) (thread_args_store demo_polling 0) = Some (0, 0, 1, [0])"
  "actives demo_polling 0"
  by code_simp+

lemma demo_polling_loop:
  "getRegistry demo_polling 0 = Some 0" "nextCallbackId demo_polling = 1"
  "addSeconds (clock demo_polling (tick demo_polling)) (Fin 0) \<noteq> None"
  by code_simp+

lemma demo_served_steps:
  "wait_step 0 1 [1] demo_polling = Some demo_answered" "wait_step 0 0 [] demo_answered = Some demo_checked"
  "wait_step 0 0 [] demo_checked = Some demo_served" "sys_ok {#} demo_served"
proof -
  have ex: "wait_step 0 c cs z = Some (the (wait_step 0 c cs z)) \<and> sys_ok {#} (the (wait_step 0 c cs z)) \<and>
      length (threads (the (wait_step 0 c cs z))) = 1" if "sys_ok {#} z" "length (threads z) = 1" for c cs z
    using wait_step_sys_ok[OF that(1), of 0 c cs] that(2) wait_step_threads by fastforce
  show "wait_step 0 1 [1] demo_polling = Some demo_answered" "wait_step 0 0 [] demo_answered = Some demo_checked"
    "wait_step 0 0 [] demo_checked = Some demo_served" "sys_ok {#} demo_served"
    using ex[of demo_polling 1 "[1]"] ex[of demo_answered 0 "[]"] ex[of demo_checked 0 "[]"]
      reachable_sys_ok[OF demo_polling_reachable] demo_threads
    by (simp_all add: demo_answered_def demo_checked_def demo_served_def)
qed

lemma demo_served_queue:
  "map (\<lambda>cb. (cbWhen cb \<le> clock demo_served (tick demo_served), case func cb of LaterCallback k \<Rightarrow> k = 0 | _ \<Rightarrow> False))
     (queue (heap demo_served 0)) = [(True, True)]"
  by code_simp

lemma demo_served_callback:
  "case thread_args_store demo_served 0 of None \<Rightarrow> False | Some args \<Rightarrow>
     (case ta_callback args of FdNative f \<Rightarrow> False | FdFunction f \<Rightarrow>
        (case f (ta_results args) of Done \<Rightarrow> True | _ \<Rightarrow> False))"
  by code_simp

lemma demo_served_values:
  "wakes demo_served = []" "others demo_served (turn demo_served) = []" "others demo_served (Suc (turn demo_served)) = []"
  by code_simp+

lemma demo_served_loop:
  "children (heap demo_served 0) = []" "made demo_served = 1" "getRegistry demo_served 0 = Some 0"
  by code_simp+

lemma demo_served_time: "addSeconds (clock demo_served (tick demo_served)) (Fin 0) \<noteq> None"
  by code_simp

lemma prune_made: "made (pruneRegistries w) = made w"
proof -
  have "made (fold orphan cs v) = made v" for cs v by (induction cs arbitrary: v) (simp_all add: orphan_def)
  then have "made (prune_step i v) = made v" for i v
    by (simp add: prune_step_def remove_def Let_def split: option.split)
  then have "made (fold prune_step ks v) = made v" for ks v by (induction ks arbitrary: v) simp_all
  then show ?thesis by (simp add: pruneRegistries_def)
qed

lemma demo_served_run:
  "\<exists>w'. execCallbacks 2 (invoke (exec_prog 1)) (Fin 0) True 0 demo_served = Some (Inr True, w') \<and> made w' = 1"
proof -
  note f = demo_served_values demo_served_loop demo_served_time
  obtain cb where cb: "queue (heap demo_served 0) = [cb]" "cbWhen cb \<le> clock demo_served (tick demo_served)"
    "func cb = LaterCallback 0"
  proof -
    obtain cb where "queue (heap demo_served 0) = [cb]" "cbWhen cb \<le> clock demo_served (tick demo_served)"
      "case func cb of LaterCallback k \<Rightarrow> k = 0 | _ \<Rightarrow> False"
      using demo_served_queue by (auto simp: map_eq_Cons_conv)
    then show thesis using that by (cases "func cb") auto
  qed
  obtain args where args: "thread_args_store demo_served 0 = Some args"
    "case ta_callback args of FdFunction f \<Rightarrow> f (ta_results args) = Done | FdNative f \<Rightarrow> False"
    using demo_served_callback by (auto split: option.splits fd_callback.splits prog.splits)
  obtain t where "addSeconds (clock demo_served (tick demo_served)) (Fin 0) = Some t" using f(7) by blast
  then obtain n where n: "tick demo_served \<le> n" "wait (Fin 0) True 0 demo_served = Some (Inr True, demo_served\<lparr>tick := n\<rparr>)"
    using wait_finds_due[OF demo_served_steps(4) f(6,1)] cb(1,2) by auto
  let ?w = "demo_served\<lparr>tick := Suc n\<rparr>"
  have "clock demo_served (tick demo_served) \<le> clock demo_served n"
    using monotonic_clockD(2)[OF sys_ok_parts(3)[OF demo_served_steps(4)] n(1)] .
  then have late: "cbWhen cb \<le> clock demo_served n" using cb(2) by simp
  from run_one_wait[of ?w 0 cb "clock demo_served n" 0 args]
  obtain w' where "execCallbacksOne 2 (invoke (exec_prog 1)) True 0 (clock demo_served n) ?w = Some (Inr (), w')" "made w' = 1"
    using f cb late args by auto
  then have "execCallbacks 2 (invoke (exec_prog 1)) (Fin 0) True 0 demo_served = Some (Inr True, pruneRegistries w')"
    using f(6) n(2) by (simp add: execCallbacks_def timestamp_now_def get_current_time_def)
  moreover have "made (pruneRegistries w') = 1" using \<open>made w' = 1\<close> prune_made by simp
  ultimately show ?thesis by blast
qed


end
