(* ===== verification/Recovery.thy ===== *)
theory Recovery
  imports Progress
begin

text \<open>
  Errors do not stall the loop: each attempt to run it, however it ends, takes at least one
  callback out of its queue if one was due, and the input handler sets the timer for what is
  left, so the next attempt comes.
\<close>

section \<open>Running a loop\<close>

text \<open>How many callbacks have left a queue so far.\<close>

definition retired :: "world \<Rightarrow> nat" where
  "retired w = length (retired_ids (trace w))"

lemma grows_retired: "grows v w \<Longrightarrow> retired w \<le> retired v"
  by (drule growsD(3)) (auto simp: retired_def ticket_view_def)

lemma note_invoke_retired: "retired (note_invoke r cb w) = Suc (retired w)"
  by (simp add: retired_def note_invoke_def)

lemma retired_more:
  assumes "sys_ok S w" and "grows v w" and "no_wrap_yet (made w)" and "cb \<in> set (queue (heap w r))"
    and "callbackId cb \<in> set (retired_ids (trace v))"
  shows "retired w < retired v"
proof -
  have "ids_counted w" using sys_okD(1)[OF assms(1)] by (simp add: world_ok_def)
  note conservedD(4)[OF ids_countedD(2)[OF this assms(3)], of r]
  then have "callbackId cb \<notin> set (retired_ids (trace w))" using assms(4) by auto
  moreover obtain xs where "retired_ids (trace v) = retired_ids (trace w) @ xs"
    using growsD(3)[OF assms(2)] by (auto simp: ticket_view_def)
  ultimately show ?thesis using assms(5) by (cases xs) (auto simp: retired_def)
qed

context callback_runner begin

lemma run_loop_progress:
  assumes ok: "sys_ok S w" and r: "r < next_ref w" and run: "run_loop (Suc n) call runAll r now w = Some (x, w')"
    and cb: "cb \<in> set (queue (heap w r))" "cbWhen cb \<le> now" and nw: "no_wrap_yet (made w')"
  shows "retired w < retired w'"
proof -
  note g = conjunct1[OF conjunct2[OF run_loop_ok[OF ok r run]]]
  note nw0 = no_wrap_before[OF g nw]
  obtain v where v: "interleave w = Some v" "sys_ok S v" "later_than v w"
    by (rule interleave_sys_ok[OF ok])
  have rv: "r < next_ref v" using r later_thanD(6)[OF v(3)] by simp
  obtain m v1 where p: "pop r now v = (m, v1)" by (cases "pop r now v")
  show ?thesis
  proof (cases m)
    case None
    then have v1: "v1 = v" "\<not> own_due now (heap v r)" using p by (cases rule: pop_cases[of r now v]; simp)+
    then have w': "w' = v" using run v(1) p None by simp
    have "queue_ok (queue (heap v r))" using sys_ok_parts(2)[OF v(2)] by (simp add: queues_ok_def)
    then have "cb \<notin> set (queue (heap v r))" using not_own_due[OF _ v1(2)] cb(2) by (meson leD)
    then have "callbackId cb \<in> set (retired_ids (trace v))"
      using waits_or_left[OF ok v(2) later_grows[OF v(3)] _ cb(1)] nw w' by simp
    then show ?thesis unfolding w' by (rule retired_more[OF ok later_grows[OF v(3)] nw0 cb(1)])
  next
    case (Some c)
    have l1: "later_than v1 w" using later_than_trans[OF v(3) pop_frame[of r now v]] p by simp
    have ok1: "sys_ok (later_arg (func c) + S) (note_invoke r c v1)"
      using pop_sys_ok[OF v(2) rv, of now, unfolded p] Some by simp
    obtain y u where u: "call c (note_invoke r c v1) = Some (y, u)"
      using run v(1) p Some by (auto split: option.splits)
    have okU: "sys_ok S u" and gU: "grows u (note_invoke r c v1)" by (rule call_ok[OF ok1 u], rule call_grows[OF ok1 u])
    have "r < next_ref u" using r growsD(2)[OF gU] later_thanD(6)[OF l1] by (simp add: note_invoke_def)
    then have gW: "grows w' u"
      using run v(1) p Some u run_loop_ok[OF okU, of r n runAll now x w']
      by (auto split: sum.splits if_splits)
    have "retired w \<le> retired v1" by (rule grows_retired[OF later_grows[OF l1]])
    then show ?thesis using grows_retired[OF gU] grows_retired[OF gW] by (simp add: note_invoke_retired)
  qed
qed

lemma execCallbacksOne_progress:
  assumes ok: "sys_ok S w" and r: "r < next_ref w" and run: "execCallbacksOne n call runAll r now w = Some (x, w')"
    and cb: "cb \<in> set (queue (heap w r))" "cbWhen cb \<le> now" and nw: "no_wrap_yet (made w')"
  shows "retired w < retired w'"
proof -
  obtain m where n: "n = Suc m" using run by (cases n) auto
  let ?w1 = "snd (guards_enter (getId w r) w)"
  have ok1: "sys_ok S ?w1" and g1: "grows ?w1 w" using ok by simp_all
  have same: "heap ?w1 = heap w" "trace ?w1 = trace w"
    by (simp_all add: guards_enter_def setCurrentRegistryId_def Let_def)
  have r1: "r < next_ref ?w1" using r growsD(2)[OF g1] by simp
  obtain y w2 w3 where y: "run_loop (Suc m) call runAll r now ?w1 = Some (y, w2)"
    and body: "case y of Inl e \<Rightarrow> x = Inl e \<and> w3 = w2
       | Inr _ \<Rightarrow> run_each (\<lambda>c. execCallbacksOne m call True c now) (children (heap w2 r)) w2 = Some (x, w3)"
    and w': "w' = (if leaves_frame x then guards_leave (fst (guards_enter (getId w r) w)) w3 else w3)"
    using run[unfolded n] by (rule execCallbacksOne_cases)
  note ok2 = run_loop_ok[OF ok1 r1 y]
  have r2: "r < next_ref w2" using r1 growsD(2)[of w2 ?w1] ok2 by simp
  have "heap_acyclic w2" using ok2 sys_ok_parts(1) by blast
  then have cs: "\<forall>c \<in> set (children (heap w2 r)). c < next_ref w2" using heap_acyclicD[OF _ r2] by blast
  have "grows w3 w2"
  proof (cases y)
    case (Inr a)
    then have each: "run_each (\<lambda>c. execCallbacksOne m call True c now) (children (heap w2 r)) w2 = Some (x, w3)"
      using body by simp
    have "sys_ok S w3 \<and> grows w3 w2 \<and> x \<noteq> Inl (Undefined ''freed ThreadArgs'')"
      by (rule run_each_ok[OF _ cs each]) (use ok2 execCallbacksOne_ok in auto)
    then show ?thesis by blast
  qed (use body in simp)
  then have g: "grows w' w2" using grows_trans[OF _ guards_frame(4)] w' by auto
  have "retired ?w1 < retired w2"
    by (rule run_loop_progress[OF ok1 r1 y _ cb(2) no_wrap_before[OF g nw]]) (simp add: same cb(1))
  then show ?thesis using grows_retired[OF g] same by (simp add: retired_def)
qed

text \<open>However a run ends, it has retired something if something of the loop was due when it began.\<close>

lemma execCallbacks_progress:
  assumes ok: "sys_ok S w" and i: "getRegistry w i = Some r"
    and run: "execCallbacks n call secs runAll i w = Some (x, w')" and wait: "wait secs True r w = Some (Inr b, w1)"
    and cb: "cb \<in> set (queue (heap w r))" "cbWhen cb \<le> clock w (tick w)" and nw: "no_wrap_yet (made w')"
  shows "retired w < retired w'"
proof -
  have r: "r < next_ref w" by (rule getRegistry_lt[OF ok i])
  have mono: "clock w j \<le> clock w k" if "j \<le> k" for j k
    using monotonic_clockD(2)[OF sys_ok_parts(3)[OF ok] that] .
  have late: "cbWhen cb \<le> clock w (tick w1 - 1)" "cbWhen cb \<le> clock w (tick w1)"
    using wait_ticks[OF wait] mono[of "tick w" "tick w1 - 1"] mono[of "tick w" "tick w1"] cb(2) by force+
  have ok1: "sys_ok S w1" and g1: "grows w1 w" by (rule wait_sys_ok[OF ok wait], rule wait_grows[OF wait])
  note nw0 = no_wrap_before
  show ?thesis
  proof (cases b)
    case False
    then have w': "w' = w1" using run i wait by (simp add: execCallbacks_def)
    have "cb \<notin> set (queue (heap w1 r))"
    proof
      assume "cb \<in> set (queue (heap w1 r))"
      then have "cbWhen cb \<in> pending_times w1 r" unfolding pending_times_def using subtree.self by blast
      then show False using wait_result[OF ok r wait] late(1) False by metis
    qed
    then have "callbackId cb \<in> set (retired_ids (trace w1))"
      using waits_or_left[OF ok ok1 g1 _ cb(1)] nw w' by simp
    then show ?thesis unfolding w' by (rule retired_more[OF ok g1 no_wrap_before[OF g1 nw[unfolded w']] cb(1)])
  next
    case True
    let ?w2 = "w1\<lparr>tick := Suc (tick w1)\<rparr>"
    have g2: "grows ?w2 w" by (rule grows_trans[OF g1 later_grows[OF later_than_tick]])
    have ok2: "sys_ok S ?w2" using ok1 by simp
    have r2: "r < next_ref ?w2" using r growsD(2)[OF g2] by simp
    obtain y w3 where one: "execCallbacksOne n call runAll r (clock w1 (tick w1)) ?w2 = Some (y, w3)"
      and w': "w' = (case y of Inl _ \<Rightarrow> w3 | Inr _ \<Rightarrow> pruneRegistries w3)"
      using run i wait True
      by (auto simp: execCallbacks_def timestamp_now_def get_current_time_def split: option.splits sum.splits)
    have g3: "grows w3 ?w2" using execCallbacksOne_ok[OF ok2 r2 one] by blast
    have gp: "grows w' w3" using w' prune_grows[of w3] by (cases y) auto
    note nw3 = no_wrap_before[OF gp nw]
    note nw2 = no_wrap_before[OF g3 nw3]
    have "retired w < retired w3"
      using waits_or_left[OF ok ok2 g2 nw2 cb(1)]
    proof
      assume q: "cb \<in> set (queue (heap ?w2 r))"
      have "cbWhen cb \<le> clock w1 (tick w1)" using late(2) growsD(1)[OF g1] by simp
      from execCallbacksOne_progress[OF ok2 r2 one q this nw3] grows_retired[OF g2] show ?thesis by simp
    next
      assume "callbackId cb \<in> set (retired_ids (trace ?w2))"
      from retired_more[OF ok g2 no_wrap_before[OF g2 nw2] cb(1) this] grows_retired[OF g3] show ?thesis by simp
    qed
    then show ?thesis using grows_retired[OF gp] by simp
  qed
qed

lemma top_level_progress:
  assumes ok: "sys_ok S w" and i: "getRegistry w GLOBAL_LOOP = Some r"
    and run: "execCallbacksForTopLevel n call w = Some (x, w')" and wait: "wait (Fin 0) True r w = Some (Inr b, w1)"
    and cb: "cb \<in> set (queue (heap w r))" "cbWhen cb \<le> clock w (tick w)" and nw: "no_wrap_yet (made w')"
  shows "retired w < retired w'"
proof -
  have "20 = Suc 19" by simp
  note loop = run[unfolded execCallbacksForTopLevel_def this top_level_loop.simps(2)]
  obtain y w2 where y: "execCallbacks n call (Fin 0) True GLOBAL_LOOP w = Some (y, w2)"
    and rest: "w' = w2 \<or> top_level_loop 19 n call True w2 = Some (x, w')"
    using loop by (auto split: option.splits prod.splits sum.splits if_splits)
  have "sys_ok S w2" using execCallbacks_ok[OF ok y] by blast
  then have g: "grows w' w2" using rest top_level_loop_ok by auto
  from execCallbacks_progress[OF ok i y wait cb no_wrap_before[OF g nw]] grows_retired[OF g] show ?thesis by simp
qed

end

section \<open>The handler\<close>

lemma reset_timer_on_exit_rearms:
  assumes reset: "reset_timer_on_exit w = (Inr (), w')" and q: "getRegistry w' GLOBAL_LOOP = Some q"
    and t: "nextTimestamp w' True q = Some t"
  shows "wakeAt (timer_state w') = Some t"
proof -
  obtain r where r: "getRegistry w GLOBAL_LOOP = Some r"
    and w': "w' = (case nextTimestamp w True r of None \<Rightarrow> w | Some u \<Rightarrow> timer_set u w)"
    using reset by (auto simp: reset_timer_on_exit_def getGlobalRegistry_def split: option.splits)
  have "getRegistry w' = getRegistry w" "heap w' = heap w" "next_ref w' = next_ref w"
    unfolding w' by (auto simp: timer_set_def upd_timer_def getRegistry_eq fun_eq_iff split: option.split)
  then have "nextTimestamp w True r = Some t" using t q r nextTimestamp_heap[of w' w True r] by simp
  then show ?thesis unfolding w' by (simp add: timer_set_def upd_timer_def)
qed

lemma grows_stderr: "grows (v\<lparr>stderr_log := l\<rparr>) v"
  by (rule later_grows) (simp add: later_than_def main_core_def)

lemma handler_ends:
  assumes "fst (at_top_level w) = Inr True" and "async_input_handler n call w = Some (x, w')"
  obtains y v u where "execCallbacksForTopLevel n call (set_fd False w) = Some (y, v)" and "grows u v"
    and "x \<noteq> Inr () \<and> w' = u \<or> reset_timer_on_exit u = (x, w')"
proof -
  let ?w0 = "set_fd False w"
  have "at_top_level ?w0 = (Inr True, ?w0)"
    using assms(1) by (auto simp: at_top_level_def sys_nframe_def set_fd_def Let_def split: if_splits option.splits)
  note h = assms(2)[unfolded async_input_handler_def this, simplified]
  obtain y v where yv: "execCallbacksForTopLevel n call ?w0 = Some (y, v)"
    using h by (auto split: option.splits)
  show thesis
  proof (cases "\<exists>e. y = Inl e \<and> runs_destructors e")
    case True
    then obtain e where "y = Inl e" "runs_destructors e" by blast
    then show thesis using h yv by (intro that[OF yv grows_stderr[where v = v and l = "stderr_log v @ [handler_message e]"]]) simp
  next
    case False
    then show thesis using h yv by (intro that[OF yv grows_refl]) (auto split: sum.splits)
  qed
qed

text \<open>
  C7. Errors do not stall callbacks: if R is idle and a callback of the global loop is due when
  R calls the input handler, and \<^verbatim>\<open>wait\<close> is not interrupted, then whatever the callbacks do -
  throw, jump, run loops - at least one more callback has been taken or cancelled when the handler
  ends; and when it returns to R, the timer is set for the next time of all that remains.
\<close>

theorem handler_makes_progress:
  assumes "reachable w" and "getRegistry w GLOBAL_LOOP = Some r" and "fst (at_top_level w) = Inr True"
    and "wait (Fin 0) True r (set_fd False w) = Some (Inr b, w1)"
    and "cb \<in> pending w r" and "cbWhen cb \<le> clock w (tick w)"
    and "async_input_handler n (invoke (exec_prog m)) w = Some (x, w')" and "no_wrap_yet (made w')"
  shows "length (retired_ids (trace w)) < length (retired_ids (trace w')) \<and>
    (x = Inr () \<longrightarrow> (\<forall>q t. getRegistry w' GLOBAL_LOOP = Some q \<and> nextTimestamp w' True q = Some t \<longrightarrow>
       wakeAt (timer_state w') = Some t))"
proof -
  let ?w0 = "set_fd False w"
  have same: "heap ?w0 = heap w" "clock ?w0 = clock w" "tick ?w0 = tick w" "registries ?w0 = registries w" "trace ?w0 = trace w"
    by (simp_all add: set_fd_def Let_def)
  have ok0: "sys_ok {#} ?w0" using reachable_sys_ok[OF assms(1)] by simp
  from handler_ends[OF assms(3,7)] obtain y v u where v: "execCallbacksForTopLevel n (invoke (exec_prog m)) ?w0 = Some (y, v)"
    and u: "grows u v" "x \<noteq> Inr () \<and> w' = u \<or> reset_timer_on_exit u = (x, w')" .
  have "grows w' u" using u(2) reset_timer_on_exit_frame(2)[of u] by auto
  then have g: "grows w' v" by (rule grows_trans[OF u(1)])
  have "retired ?w0 < retired v"
    by (rule runner.top_level_progress[OF ok0 _ v assms(4) _ _ no_wrap_before[OF g assms(8)]])
       (use assms(2,5,6) same in \<open>simp_all add: getRegistry_eq pending_def\<close>)
  then have "retired w < retired w'" using grows_retired[OF g] same by (simp add: retired_def)
  moreover have "wakeAt (timer_state w') = Some t"
    if "x = Inr ()" "getRegistry w' GLOBAL_LOOP = Some q" "nextTimestamp w' True q = Some t" for q t
    using u(2) that reset_timer_on_exit_rearms by blast
  ultimately show ?thesis by (simp add: retired_def)
qed

definition demo_failing :: world where
  "demo_failing = snd (scheduleCallback (NativeFunction (Throw (StdException ''no''))) (Fin 0) 0 demo_global)"

lemma demo_failing_reachable: "reachable demo_failing"
proof -
  have "lock_depth demo_global = 0" by code_simp
  then have "bg_step (BgNative (Throw (StdException ''no'')) (Fin 0) 0) demo_global = Some demo_failing"
    by (simp add: bg_step_def demo_failing_def)
  then show ?thesis by (rule reachable.more[OF demo_global_reachable step.background])
qed

theorem handler_makes_progress_witness:
  "\<exists>w'. async_input_handler 4 (invoke (exec_prog 1)) demo_failing = Some (Inr (), w') \<and>
     retired_ids (trace w') \<noteq> []"
proof -
  have g: "getRegistry demo_failing GLOBAL_LOOP = Some 0" "fst (at_top_level demo_failing) = Inr True" by code_simp+
  have w: "case wait (Fin 0) True 0 (set_fd False demo_failing) of None \<Rightarrow> False | Some (x, _) \<Rightarrow> x = Inr True" by code_simp
  then obtain w1 where w1: "wait (Fin 0) True 0 (set_fd False demo_failing) = Some (Inr True, w1)"
    by (auto split: option.splits)
  have "map (\<lambda>cb. cbWhen cb \<le> clock demo_failing (tick demo_failing)) (queue (heap demo_failing 0)) = [True]" by code_simp
  then obtain cb where cb: "cb \<in> pending demo_failing 0" "cbWhen cb \<le> clock demo_failing (tick demo_failing)"
    by (auto simp: map_eq_Cons_conv pending_def)
  have "case async_input_handler 4 (invoke (exec_prog 1)) demo_failing of None \<Rightarrow> False
    | Some (x, w') \<Rightarrow> x = Inr () \<and> made w' = 1" by code_simp
  then obtain w' where h: "async_input_handler 4 (invoke (exec_prog 1)) demo_failing = Some (Inr (), w')"
    and "made w' = 1" by (auto split: option.splits)
  then have nw: "no_wrap_yet (made w')" by (simp add: no_wrap_yet_def)
  from handler_makes_progress[OF demo_failing_reachable g(1,2) w1 cb h nw] h show ?thesis by auto
qed

end
