(* ===== verification/Loops.thy ===== *)
theory Loops
  imports Example
begin

text \<open>
  What the operations on the table of loops do: making, deleting and releasing a loop, and
  which loops survive pruning.
\<close>

section \<open>create\<close>

lemma create_new:
  assumes "world_ok w" and "\<not> exists_loop i w"
    and "(pid = -1 \<and> po = None) \<or> (pid \<noteq> -1 \<and> po \<noteq> None \<and> getRegistry w pid = po)"
  defines "v \<equiv> table_put i \<lparr>h_registry = next_ref w, r_ref_exists = True\<rparr> (link po (next_ref w) (snd (new_object i w)))"
  shows "getRegistry v = (getRegistry w)(i := Some (next_ref w))" and "empty v (next_ref w)"
    and "referenced v (next_ref w)" and "parent (heap v (next_ref w)) = po" and "\<not> live w (next_ref w)"
    and "\<And>s. s < next_ref w \<Longrightarrow> queue (heap v s) = queue (heap w s)"
proof -
  have f: "forest_ok w" using assms(1) by (simp add: world_ok_def)
  have nl: "\<not> live w (next_ref w)" using forest_okD(10)[OF f] by blast
  then show "\<not> live w (next_ref w)" .
  have po: "po \<noteq> Some (next_ref w)"
    using assms(3) nl by (auto simp: live_def)
  have reg: "registries (link po (next_ref w) (snd (new_object i w))) = registries w"
    by (simp add: link_def split: option.splits)
  show "getRegistry v = (getRegistry w)(i := Some (next_ref w))"
    using forest_okD(1)[OF f] by (auto simp: v_def getRegistry_table_put reg getRegistry_eq fun_eq_iff smap_find_put)
  have h: "heap v (next_ref w) = (new_registry i)\<lparr>parent := po\<rparr>"
    using po by (auto simp: v_def link_def new_registry_def split: option.splits)
  show "empty v (next_ref w)" "parent (heap v (next_ref w)) = po" by (simp_all add: empty_def h)
  show "referenced v (next_ref w)"
    using forest_okD(1)[OF f] h by (simp add: referenced_def v_def reg smap_find_put)
  show "queue (heap v s) = queue (heap w s)" if "s < next_ref w" for s
    using that by (auto simp: v_def link_def split: option.splits)
qed

text \<open>
  C19. Making a loop: it fails, leaving the table as it was, exactly when the id is taken or
  the parent does not exist; otherwise the table gains just this loop, which is empty, is held
  by an R object and hangs below the parent.
\<close>

theorem create_effect:
  assumes "world_ok w" and "create i pid w = (x, w')"
  shows "world_ok w' \<and> (case x of
      Inl e \<Rightarrow> getRegistry w' = getRegistry w \<and>
        (exists_loop i w \<and> e = UnwindException ''Can't create event loop because it already exists.'' \<or>
         \<not> exists_loop i w \<and> pid \<noteq> -1 \<and> \<not> exists_loop pid w \<and>
           e = UnwindException ''Can't create registry. Parent does not exist.'')
    | Inr _ \<Rightarrow> \<not> exists_loop i w \<and> (pid = -1 \<or> exists_loop pid w) \<and>
        (\<exists>r. getRegistry w' = (getRegistry w)(i := Some r) \<and> \<not> live w r \<and> empty w' r \<and> referenced w' r \<and>
           parent (heap w' r) = (if pid = -1 then None else getRegistry w pid)))"
proof -
  have ok: "world_ok w'" by (rule create_world_ok[OF assms])
  show ?thesis
  proof (rule create_cases[of i w pid])
    assume "exists_loop i w"
      "create i pid w = (Inl (UnwindException ''Can't create event loop because it already exists.''), w)"
    then show ?thesis using ok assms(2) by simp
  next
    assume "\<not> exists_loop i w" "pid \<noteq> -1" "getRegistry w pid = None"
      "create i pid w = (Inl (UnwindException ''Can't create registry. Parent does not exist.''), snd (new_object i w))"
    then show ?thesis using ok assms(2) by (auto simp: exists_loop_iff)
  next
    fix po
    assume ne: "\<not> exists_loop i w" and po: "(pid = -1 \<and> po = None) \<or> (pid \<noteq> -1 \<and> po \<noteq> None \<and> getRegistry w pid = po)"
      and c: "create i pid w = (Inr (), table_put i \<lparr>h_registry = next_ref w, r_ref_exists = True\<rparr>
          (link po (next_ref w) (snd (new_object i w))))"
    note n = create_new[OF assms(1) ne po]
    have "pid = -1 \<or> exists_loop pid w" "po = (if pid = -1 then None else getRegistry w pid)"
      using po by (auto simp: exists_loop_iff)
    then show ?thesis using ok assms(2) c n ne by (auto intro!: exI[of _ "next_ref w"])
  qed
qed

theorem create_effect_witness:
  "\<exists>w' r. create 7 1 demo = (Inr (), w') \<and> getRegistry w' = (getRegistry demo)(7 := Some r) \<and> empty w' r"
proof -
  have "fst (create 7 1 demo) = Inr ()" by code_simp
  then obtain w' where c: "create 7 1 demo = (Inr (), w')" by (cases "create 7 1 demo") auto
  from create_effect[OF demo_world_ok c] c show ?thesis by auto
qed

section \<open>remove\<close>

text \<open>
  C20. Deleting a loop: it answers whether the loop was there; the table loses just this loop,
  its children lose their parent and its parent loses it as a child, no queue changes, and
  deleting it again answers no.
\<close>

theorem remove_deletes_one:
  assumes "world_ok w"
  shows "world_ok (snd (remove i w)) \<and> (fst (remove i w) \<longleftrightarrow> exists_loop i w) \<and>
    getRegistry (snd (remove i w)) = (getRegistry w)(i := None) \<and>
    (\<forall>s. queue (heap (snd (remove i w)) s) = queue (heap w s)) \<and>
    (\<forall>c. live (snd (remove i w)) c \<longrightarrow> parent (heap (snd (remove i w)) c) =
       (if parent (heap w c) = getRegistry w i then None else parent (heap w c))) \<and>
    fst (remove i (snd (remove i w))) = False"
proof (cases "getRegistry w i")
  case None
  have "remove i w = (False, w)" by (rule remove_None[OF None])
  moreover have "getRegistry w = (getRegistry w)(i := None)" using fun_upd_idem[of "getRegistry w" i None] None by simp
  moreover have "\<not> exists_loop i w" using None by (simp add: exists_loop_iff)
  ultimately show ?thesis using assms None by simp
next
  case (Some r)
  have f: "forest_ok w" using assms by (simp add: world_ok_def)
  have l: "live w r" using Some by (auto simp: live_def)
  note e = remove_effect[OF Some live_not_own_parent[OF f l]]
  have g: "getRegistry (snd (remove i w)) = (getRegistry w)(i := None)" by (simp add: getRegistry_remove fun_eq_iff)
  have p: "parent (heap (snd (remove i w)) c) = (if parent (heap w c) = Some r then None else parent (heap w c))"
    if "live (snd (remove i w)) c" for c
  proof -
    have "live w c" using that by (auto simp: live_def g split: if_splits)
    then have "c \<in> set (children (heap w r)) \<longleftrightarrow> parent (heap w c) = Some r"
      using forest_okD(7)[OF f, of c r] forest_okD(9)[OF f l, of c] by blast
    then show ?thesis by (simp add: e(8)[of c])
  qed
  have "fst (remove i (snd (remove i w))) = False"
    by (subst remove_None) (simp_all add: g)
  moreover have "exists_loop i w" using Some by (auto simp: exists_loop_iff)
  ultimately show ?thesis using remove_world_ok[OF assms] e(1,6) g p Some by simp
qed

theorem remove_deletes_one_witness:
  "fst (remove 0 demo) \<and> getRegistry (snd (remove 0 demo)) = (getRegistry demo)(0 := None)"
proof -
  have "exists_loop 0 demo" using demo_values(1) by (auto simp: exists_loop_iff)
  with remove_deletes_one[OF demo_world_ok, of 0] show ?thesis by blast
qed

section \<open>Pruning\<close>

lemma remove_find:
  "smap_find (registries (snd (remove i w))) k = (if k = i then None else smap_find (registries w) k) \<or>
   snd (remove i w) = w"
  by (cases "getRegistry w i") (auto simp: remove_None remove_def smap_find_erase split: option.splits)

lemma prune_step_find:
  "smap_find (registries (prune_step i w)) k \<in> {None, smap_find (registries w) k}"
  using remove_find[of i w k] by (auto simp: prune_step_def split: option.splits)

lemma prune_find:
  "smap_find (registries (pruneRegistries w)) k \<in> {None, smap_find (registries w) k}"
proof -
  have "smap_find (registries (fold prune_step ks v)) k \<in> {None, smap_find (registries w) k}"
    if "smap_find (registries v) k \<in> {None, smap_find (registries w) k}" for ks v
    using that
  proof (induction ks arbitrary: v)
    case (Cons i ks)
    have "smap_find (registries (prune_step i v)) k \<in> {None, smap_find (registries w) k}"
      using prune_step_find[of i v k] Cons.prems by auto
    from Cons.IH[OF this] show ?case by simp
  qed simp
  then show ?thesis by (simp add: pruneRegistries_def)
qed

text \<open>
  The release of a loop by R counts once: it answers whether the loop was there and held,
  and a second release answers no.
\<close>

theorem release_counts_once:
  assumes "world_ok w" and "notifyRRefDeleted i w = (b, w')"
  shows "world_ok w' \<and> (b \<longleftrightarrow> (\<exists>r. getRegistry w i = Some r \<and> referenced w r)) \<and> fst (notifyRRefDeleted i w') = False"
proof -
  have f: "forest_ok w" using assms(1) by (simp add: world_ok_def)
  have ok: "world_ok w'" using notifyRRefDeleted_world_ok[OF assms(1), of i] assms(2) by simp
  show ?thesis
  proof (cases "smap_find (registries w) i")
    case None
    then show ?thesis using assms(2) ok by (auto simp: notifyRRefDeleted_def getRegistry_eq)
  next
    case (Some h)
    have g: "getRegistry w i = Some (h_registry h)" using Some by (simp add: getRegistry_eq)
    have r: "referenced w (h_registry h) \<longleftrightarrow> r_ref_exists h"
      using forest_okD(3)[OF f g] Some by (simp add: referenced_def)
    show ?thesis
    proof (cases "r_ref_exists h")
      case False
      then show ?thesis using assms(2) ok Some g r by (auto simp: notifyRRefDeleted_def)
    next
      case True
      define v where "v = table_put i (h\<lparr>r_ref_exists := False\<rparr>) w"
      have w': "w' = pruneRegistries v" "b" using assms(2) Some True by (auto simp: notifyRRefDeleted_def v_def)
      have "smap_find (registries v) i = Some (h\<lparr>r_ref_exists := False\<rparr>)"
        using table_put_same(5)[OF assms(1) Some, of False i] by (simp add: v_def)
      then have "smap_find (registries w') i \<in> {None, Some (h\<lparr>r_ref_exists := False\<rparr>)}"
        using prune_find[of v i] w'(1) by simp
      then have "fst (notifyRRefDeleted i w') = False" by (auto simp: notifyRRefDeleted_def)
      then show ?thesis using ok g r True w'(2) by auto
    qed
  qed
qed

theorem release_counts_once_witness:
  "\<exists>w'. notifyRRefDeleted 1 demo = (True, w') \<and> fst (notifyRRefDeleted 1 w') = False"
proof -
  have "fst (notifyRRefDeleted 1 demo)" by code_simp
  then obtain w' where n: "notifyRRefDeleted 1 demo = (True, w')" by (cases "notifyRRefDeleted 1 demo") auto
  from release_counts_once[OF demo_world_ok n] n show ?thesis by blast
qed

text \<open>
  C18. Pruning keeps exactly the loops that can still matter: those an R object holds, and those
  that have work and a parent that is kept. One pass is enough when children have larger ids
  than their parents, which is how R gives ids.
\<close>

theorem prune_keeps_exactly:
  assumes "world_ok w" and "ids_ordered w"
  shows "world_ok (pruneRegistries w) \<and>
    (\<forall>k. exists_loop k (pruneRegistries w) \<longleftrightarrow> (\<exists>r. getRegistry w k = Some r \<and> kept w r))"
  using prune_exists_iff[OF assms] pruneRegistries_world_ok[OF assms(1)] by blast

theorem prune_keeps_exactly_witness:
  "exists_loop 1 (pruneRegistries demo)"
proof -
  have "referenced demo 1" by code_simp
  then have "kept demo 1" by (rule kept.by_ref)
  then show ?thesis using prune_keeps_exactly[OF demo_world_ok demo_ids_ordered] demo_values(2) by blast
qed

text \<open>
  With ids out of order one pass is not enough: loop 2, with work to do, hangs below loop
  5; both are released, loop 5 last. The pass looks at loop 2 before loop 5 is gone and leaves
  it, an orphan that nothing will run; only the next pass removes it.
\<close>

definition demo_disorder :: world where
  "demo_disorder = snd (notifyRRefDeleted 2
     (snd (scheduleCallback (RFunction Done) (Fin 5) 2 (snd (create 2 5 (snd (create 5 (-1) demo_global)))))))"

theorem one_pass_needs_ordered_ids:
  "\<not> ids_ordered demo_disorder \<and> exists_loop 2 (snd (notifyRRefDeleted 5 demo_disorder)) \<and>
   \<not> exists_loop 5 (snd (notifyRRefDeleted 5 demo_disorder)) \<and>
   \<not> exists_loop 2 (pruneRegistries (snd (notifyRRefDeleted 5 demo_disorder)))"
proof -
  have v: "getRegistry demo_disorder 2 = Some 2" "parent (heap demo_disorder 2) = Some 1"
    "regId (heap demo_disorder 1) = 5" "regId (heap demo_disorder 2) = 2" by code_simp+
  have "live demo_disorder 2" using v(1) by (auto simp: live_def)
  then have "\<not> ids_ordered demo_disorder" using ids_orderedD[of demo_disorder 2 1] v(2-4) by auto
  moreover have "exists_loop 2 (snd (notifyRRefDeleted 5 demo_disorder))" by code_simp
  moreover have "\<not> exists_loop 5 (snd (notifyRRefDeleted 5 demo_disorder))" by code_simp
  moreover have "\<not> exists_loop 2 (pruneRegistries (snd (notifyRRefDeleted 5 demo_disorder)))" by code_simp
  ultimately show ?thesis by blast
qed

end
