(* ===== verification/Tinycthread.thy ===== *)
theory Tinycthread
  imports Timestamp
begin

text \<open>
  \<^verbatim>\<open>tinycthread.c\<close>: mutexes, condition variables, threads and thread storage. On POSIX the
  functions translate the results of pthreads; on Windows they implement the semantics on
  top of critical sections, events and thread-local slots, which is what most of the code
  and most of this theory is about. What the operating system answers is an argument.
\<close>

section \<open>Results\<close>

datatype thrd_result = Thrd_error | Thrd_success | Thrd_timedout | Thrd_busy | Thrd_nomem

text \<open>The POSIX branches: \<open>0\<close> is success, \<open>ETIMEDOUT\<close> is known to \<^verbatim>\<open>timedwait\<close> and \<^verbatim>\<open>timedlock\<close>.\<close>

definition posix_result :: "int \<Rightarrow> thrd_result" where
  "posix_result rc = (if rc = 0 then Thrd_success else Thrd_error)"

definition ETIMEDOUT :: int where
  "ETIMEDOUT = 110"

definition EBUSY :: int where
  "EBUSY = 16"

definition tct_cnd_timedwait_posix :: "int \<Rightarrow> thrd_result" where
  "tct_cnd_timedwait_posix ret = (if ret = ETIMEDOUT then Thrd_timedout else posix_result ret)"

definition tct_mtx_timedlock_posix :: "int \<Rightarrow> thrd_result" where
  "tct_mtx_timedlock_posix ret =
     (if ret = 0 then Thrd_success else if ret = ETIMEDOUT then Thrd_timedout else Thrd_error)"

definition tct_mtx_trylock_posix :: "int \<Rightarrow> thrd_result" where
  "tct_mtx_trylock_posix rc = (if rc = 0 then Thrd_success else Thrd_busy)"

text \<open>
  The fallback without \<^verbatim>\<open>pthread_mutex_timedlock\<close> polls: each element of the list is an
  answer of \<^verbatim>\<open>trylock\<close> with the time read after it. The result comes with the naps taken;
  \<open>None\<close> is still polling.
\<close>

definition nap :: "timespec \<Rightarrow> timespec \<Rightarrow> timespec" where
  "nap ts cur =
     (let sec = tv_sec ts - tv_sec cur; nsec = tv_nsec ts - tv_nsec cur;
          (sec, nsec) = (if nsec < 0 then (sec - 1, nsec + 1000000000) else (sec, nsec))
      in if sec \<noteq> 0 \<or> nsec > 5000000 then Timespec 0 5000000 else Timespec sec nsec)"

definition expired :: "timespec \<Rightarrow> timespec \<Rightarrow> bool" where
  "expired ts cur \<longleftrightarrow> tv_sec cur > tv_sec ts \<or> (tv_sec cur = tv_sec ts \<and> tv_nsec cur \<ge> tv_nsec ts)"

definition polling_result :: "int \<Rightarrow> thrd_result" where
  "polling_result rc =
     (if rc = 0 then Thrd_success else if rc = ETIMEDOUT \<or> rc = EBUSY then Thrd_timedout else Thrd_error)"

fun timedlock_polling :: "(int \<times> timespec) list \<Rightarrow> timespec \<Rightarrow> (thrd_result \<times> timespec list) option" where
  "timedlock_polling [] ts = None"
| "timedlock_polling ((rc, cur) # rest) ts =
     (if rc \<noteq> EBUSY then Some (polling_result rc, [])
      else if expired ts cur then Some (polling_result rc, [])
      else map_option (apsnd ((#) (nap ts cur))) (timedlock_polling rest ts))"

section \<open>Windows mutexes\<close>

text \<open>A critical section or mutex object: who owns it, and how many times.\<close>

record win_mtx =
  mTimed :: bool
  mRecursive :: bool
  mAlreadyLocked :: bool
  cs_owner :: "nat option"
  cs_count :: nat

datatype wait_answer = Object0 | Abandoned | WaitTimeout | WaitFailed

text \<open>\<open>None\<close>: the calling thread is blocked.\<close>

definition os_enter :: "nat \<Rightarrow> win_mtx \<Rightarrow> win_mtx option" where
  "os_enter t m =
     (case cs_owner m of
        None \<Rightarrow> Some (m\<lparr>cs_owner := Some t, cs_count := 1\<rparr>)
      | Some u \<Rightarrow> if u = t then Some (m\<lparr>cs_count := Suc (cs_count m)\<rparr>) else None)"

definition os_leave :: "nat \<Rightarrow> win_mtx \<Rightarrow> bool \<times> win_mtx" where
  "os_leave t m =
     (if cs_owner m = Some t
      then (True, if cs_count m \<le> 1 then m\<lparr>cs_owner := None, cs_count := 0\<rparr>
                  else m\<lparr>cs_count := cs_count m - 1\<rparr>)
      else (False, m))"

definition tct_mtx_init_win32 :: "bool \<Rightarrow> bool \<Rightarrow> bool \<Rightarrow> win_mtx \<Rightarrow> thrd_result \<times> win_mtx" where
  "tct_mtx_init_win32 timed recursive created m =
     (let m1 = m\<lparr>mAlreadyLocked := False, mRecursive := recursive, mTimed := timed,
                 cs_owner := None, cs_count := 0\<rparr>
      in if \<not> timed then (Thrd_success, m1)
         else if \<not> created then (Thrd_error, m1) else (Thrd_success, m1))"

text \<open>
  What init and destroy take from Windows and give back: handles and critical sections that
  are open.
\<close>

record win_res =
  open_handles :: nat
  open_sections :: nat

definition mtx_init_res :: "bool \<Rightarrow> bool \<Rightarrow> win_res \<Rightarrow> win_res" where
  "mtx_init_res timed created s =
     (if \<not> timed then s\<lparr>open_sections := Suc (open_sections s)\<rparr>
      else if created then s\<lparr>open_handles := Suc (open_handles s)\<rparr> else s)"

definition tct_mtx_destroy_win32 :: "win_mtx \<Rightarrow> win_res \<Rightarrow> win_res" where
  "tct_mtx_destroy_win32 m s =
     (if \<not> mTimed m then s\<lparr>open_sections := open_sections s - 1\<rparr>
      else s\<lparr>open_handles := open_handles s - 1\<rparr>)"

text \<open>On POSIX, the attribute that is set, and the result.\<close>

definition tct_mtx_init_posix :: "bool \<Rightarrow> int \<Rightarrow> bool \<times> thrd_result" where
  "tct_mtx_init_posix recursive ret = (recursive, posix_result ret)"

text \<open>\<open>while(mAlreadyLocked) Sleep(1)\<close> never ends: no one else can get at the flag.\<close>

definition mark_locked :: "win_mtx \<Rightarrow> (thrd_result \<times> win_mtx) option" where
  "mark_locked m =
     (if \<not> mRecursive m
      then if mAlreadyLocked m then None else Some (Thrd_success, m\<lparr>mAlreadyLocked := True\<rparr>)
      else Some (Thrd_success, m))"

definition tct_mtx_lock_win32 :: "wait_answer \<Rightarrow> nat \<Rightarrow> win_mtx \<Rightarrow> (thrd_result \<times> win_mtx) option" where
  "tct_mtx_lock_win32 a t m =
     (if \<not> mTimed m then Option.bind (os_enter t m) mark_locked
      else case a of
             Object0 \<Rightarrow> Option.bind (os_enter t m) mark_locked
           | Abandoned \<Rightarrow> map_option (Pair Thrd_error) (os_enter t m)
           | _ \<Rightarrow> Some (Thrd_error, m))"

text \<open>Milliseconds as a \<^verbatim>\<open>DWORD\<close>: the products and sums wrap.\<close>

definition timedlock_ms :: "timespec \<Rightarrow> timespec \<Rightarrow> 32 word" where
  "timedlock_ms ts cur =
     (if expired ts cur then 0
      else of_int (tv_sec ts - tv_sec cur) * 1000
           + of_int (trunc0 (of_int (tv_nsec ts - tv_nsec cur) / 1000000)) + 1)"

definition tct_mtx_timedlock_win32 :: "wait_answer \<Rightarrow> nat \<Rightarrow> win_mtx \<Rightarrow> (thrd_result \<times> win_mtx) option" where
  "tct_mtx_timedlock_win32 a t m =
     (if \<not> mTimed m then Some (Thrd_error, m)
      else case a of
             Object0 \<Rightarrow> Option.bind (os_enter t m) mark_locked
           | WaitTimeout \<Rightarrow> Some (Thrd_timedout, m)
           | Abandoned \<Rightarrow> map_option (Pair Thrd_error) (os_enter t m)
           | WaitFailed \<Rightarrow> Some (Thrd_error, m))"

text \<open>
  For a timed mutex that is not recursive the code gives back the wrong kind of object; the
  outcome of that call is not defined.
\<close>

definition tct_mtx_trylock_win32 :: "nat \<Rightarrow> win_mtx \<Rightarrow> (thrd_result \<times> win_mtx) option" where
  "tct_mtx_trylock_win32 t m =
     (case os_enter t m of
        None \<Rightarrow> Some (Thrd_busy, m)
      | Some m1 \<Rightarrow>
          if \<not> mRecursive m1
          then if mAlreadyLocked m1
               then if mTimed m1 then None else Some (Thrd_busy, snd (os_leave t m1))
               else Some (Thrd_success, m1\<lparr>mAlreadyLocked := True\<rparr>)
          else Some (Thrd_success, m1))"

definition tct_mtx_unlock_win32 :: "nat \<Rightarrow> win_mtx \<Rightarrow> thrd_result \<times> win_mtx" where
  "tct_mtx_unlock_win32 t m =
     (let m1 = m\<lparr>mAlreadyLocked := False\<rparr>; (left, m2) = os_leave t m1
      in if mTimed m1 \<and> \<not> left then (Thrd_error, m2) else (Thrd_success, m2))"

text \<open>A mutex no thread has.\<close>

definition mtx_free :: "win_mtx \<Rightarrow> bool" where
  "mtx_free m \<longleftrightarrow> cs_owner m = None \<and> cs_count m = 0 \<and> \<not> mAlreadyLocked m"

lemma lock_free:
  assumes "mtx_free m" and "mTimed m \<longrightarrow> a = Object0"
  shows "tct_mtx_lock_win32 a t m =
    Some (Thrd_success, m\<lparr>cs_owner := Some t, cs_count := 1, mAlreadyLocked := \<not> mRecursive m\<rparr>)"
  using assms by (auto simp: mtx_free_def tct_mtx_lock_win32_def os_enter_def mark_locked_def)

lemma unlock_restores:
  "mtx_free m \<Longrightarrow>
   tct_mtx_unlock_win32 t (m\<lparr>cs_owner := Some t, cs_count := 1, mAlreadyLocked := b\<rparr>) = (Thrd_success, m)"
  by (auto simp: mtx_free_def tct_mtx_unlock_win32_def os_leave_def Let_def)

lemma trylock_held_plain:
  assumes "mtx_free m" and "\<not> mRecursive m" and "\<not> mTimed m"
  shows "tct_mtx_trylock_win32 u (m\<lparr>cs_owner := Some t, cs_count := 1, mAlreadyLocked := True\<rparr>) =
    Some (Thrd_busy, m\<lparr>cs_owner := Some t, cs_count := 1, mAlreadyLocked := True\<rparr>)"
  using assms by (auto simp: tct_mtx_trylock_win32_def os_enter_def os_leave_def)

lemma lock_held_plain:
  assumes "\<not> mRecursive m" and "\<not> mTimed m"
  shows "tct_mtx_lock_win32 a u (m\<lparr>cs_owner := Some t, cs_count := 1, mAlreadyLocked := True\<rparr>) = None"
  using assms by (auto simp: tct_mtx_lock_win32_def os_enter_def mark_locked_def)

section \<open>Windows condition variables\<close>

record win_cnd =
  mWaitersCount :: "32 word"
  has_one :: bool
  has_all :: bool
  event_one :: bool
  event_all :: bool

text \<open>The two events are made one after the other; \<open>None\<close> is a \<^verbatim>\<open>NULL\<close> event.\<close>

definition tct_cnd_init_win32 :: "bool \<Rightarrow> bool \<Rightarrow> win_cnd \<times> win_res \<Rightarrow> thrd_result \<times> win_cnd \<times> win_res" where
  "tct_cnd_init_win32 one_ok all_ok = (\<lambda>(c, s).
     (let c1 = c\<lparr>mWaitersCount := 0\<rparr>;
          s1 = s\<lparr>open_sections := Suc (open_sections s)\<rparr>
      in if \<not> one_ok then (Thrd_error, c1\<lparr>has_one := False, has_all := False\<rparr>, s1)
         else let c2 = c1\<lparr>has_one := True, event_one := False\<rparr>;
                  s2 = s1\<lparr>open_handles := Suc (open_handles s1)\<rparr>
              in if \<not> all_ok
                 then (Thrd_error, c2\<lparr>has_one := False, has_all := False\<rparr>,
                       s2\<lparr>open_handles := open_handles s2 - 1\<rparr>)
                 else (Thrd_success, c2\<lparr>has_all := True, event_all := False\<rparr>,
                       s2\<lparr>open_handles := Suc (open_handles s2)\<rparr>)))"

definition tct_cnd_destroy_win32 :: "win_cnd \<Rightarrow> win_res \<Rightarrow> win_res" where
  "tct_cnd_destroy_win32 c s =
     (let s1 = (if has_one c then s\<lparr>open_handles := open_handles s - 1\<rparr> else s);
          s2 = (if has_all c then s1\<lparr>open_handles := open_handles s1 - 1\<rparr> else s1)
      in s2\<lparr>open_sections := open_sections s2 - 1\<rparr>)"

definition tct_cnd_signal_win32 :: "bool \<Rightarrow> win_cnd \<Rightarrow> thrd_result \<times> win_cnd" where
  "tct_cnd_signal_win32 os_ok c =
     (if mWaitersCount c > 0
      then if \<not> os_ok then (Thrd_error, c) else (Thrd_success, c\<lparr>event_one := True\<rparr>)
      else (Thrd_success, c))"

definition tct_cnd_broadcast_win32 :: "bool \<Rightarrow> win_cnd \<Rightarrow> thrd_result \<times> win_cnd" where
  "tct_cnd_broadcast_win32 os_ok c =
     (if mWaitersCount c > 0
      then if \<not> os_ok then (Thrd_error, c) else (Thrd_success, c\<lparr>event_all := True\<rparr>)
      else (Thrd_success, c))"

text \<open>How \<^verbatim>\<open>WaitForMultipleObjects\<close> ends; the event for one waiter resets itself.\<close>

datatype cnd_answer = SignalOne | SignalAll | CndTimeout | CndFailed

text \<open>
  \<^verbatim>\<open>_cnd_timedwait_win32\<close> in three parts: before the wait, what happens during it (\<open>env\<close>),
  and after it.
\<close>

definition cnd_before :: "nat \<Rightarrow> win_cnd \<times> win_mtx \<Rightarrow> win_cnd \<times> win_mtx" where
  "cnd_before t = (\<lambda>(c, m). (c\<lparr>mWaitersCount := mWaitersCount c + 1\<rparr>, snd (tct_mtx_unlock_win32 t m)))"

definition relock :: "nat \<Rightarrow> thrd_result \<Rightarrow> win_cnd \<Rightarrow> win_mtx \<Rightarrow> (thrd_result \<times> win_cnd \<times> win_mtx) option" where
  "relock t res c m = map_option (\<lambda>(_, m'). (res, c, m')) (tct_mtx_lock_win32 Object0 t m)"

definition cnd_after ::
    "nat \<Rightarrow> cnd_answer \<Rightarrow> bool \<Rightarrow> win_cnd \<times> win_mtx \<Rightarrow> (thrd_result \<times> win_cnd \<times> win_mtx) option" where
  "cnd_after t result reset_ok = (\<lambda>(c, m).
     (case result of
        CndTimeout \<Rightarrow> relock t Thrd_timedout c m
      | CndFailed \<Rightarrow> relock t Thrd_error c m
      | _ \<Rightarrow>
          let c1 = (if result = SignalOne then c\<lparr>event_one := False\<rparr> else c);
              c2 = c1\<lparr>mWaitersCount := mWaitersCount c1 - 1\<rparr>;
              lastWaiter = (result = SignalAll \<and> mWaitersCount c2 = 0)
          in if lastWaiter
             then if \<not> reset_ok then relock t Thrd_error c2 m
                  else relock t Thrd_success (c2\<lparr>event_all := False\<rparr>) m
             else relock t Thrd_success c2 m))"

definition cnd_timedwait_win32 ::
    "nat \<Rightarrow> (win_cnd \<times> win_mtx \<Rightarrow> win_cnd \<times> win_mtx) \<Rightarrow> cnd_answer \<Rightarrow> bool \<Rightarrow> win_cnd \<times> win_mtx
      \<Rightarrow> (thrd_result \<times> win_cnd \<times> win_mtx) option" where
  "cnd_timedwait_win32 t env result reset_ok cm = cnd_after t result reset_ok (env (cnd_before t cm))"

text \<open>The timeout in milliseconds, cut to 32 bits.\<close>

definition ts_ms :: "timespec \<Rightarrow> 64 word" where
  "ts_ms ts = of_int (tv_sec ts * 1000 + tv_nsec ts div 1000000)"

definition cnd_delta :: "timespec \<Rightarrow> timespec \<Rightarrow> 32 word" where
  "cnd_delta ts now = (if ts_ms ts > ts_ms now then ucast (ts_ms ts - ts_ms now) else 0)"

definition tct_cnd_wait_win32 ::
    "nat \<Rightarrow> (win_cnd \<times> win_mtx \<Rightarrow> win_cnd \<times> win_mtx) \<Rightarrow> cnd_answer \<Rightarrow> bool \<Rightarrow> win_cnd \<times> win_mtx
      \<Rightarrow> (thrd_result \<times> win_cnd \<times> win_mtx) option" where
  "tct_cnd_wait_win32 t env result reset_ok cm = cnd_timedwait_win32 t env result reset_ok cm"

text \<open>\<open>answer\<close> is how the wait of so many milliseconds ends; \<open>now\<close> is \<open>None\<close> when the time cannot be read.\<close>

definition tct_cnd_timedwait_win32 ::
    "nat \<Rightarrow> (win_cnd \<times> win_mtx \<Rightarrow> win_cnd \<times> win_mtx) \<Rightarrow> (32 word \<Rightarrow> cnd_answer) \<Rightarrow> bool \<Rightarrow>
      timespec option \<Rightarrow> timespec \<Rightarrow> win_cnd \<times> win_mtx \<Rightarrow> (thrd_result \<times> win_cnd \<times> win_mtx) option" where
  "tct_cnd_timedwait_win32 t env answer reset_ok now ts cm =
     (case now of
        None \<Rightarrow> Some (Thrd_error, cm)
      | Some now \<Rightarrow> cnd_timedwait_win32 t env (answer (cnd_delta ts now)) reset_ok cm)"

text \<open>
  \<open>_tthread_timespec_get\<close>, which stands in for a missing \<^verbatim>\<open>timespec_get\<close>: seconds and
  milliseconds on Windows, seconds and microseconds from \<^verbatim>\<open>gettimeofday\<close>. The result is the
  base, or \<open>0\<close>, and the time if it was written.
\<close>

definition TIME_UTC :: int where
  "TIME_UTC = 1"

datatype time_source = Ftime int int | ClockGettime "timespec option" | Gettimeofday int int

definition tthread_timespec_get :: "time_source \<Rightarrow> int \<Rightarrow> int \<times> timespec option" where
  "tthread_timespec_get src base =
     (if base \<noteq> TIME_UTC then (0, None)
      else case src of
             Ftime time millitm \<Rightarrow> (base, Some (Timespec time (1000000 * millitm)))
           | ClockGettime None \<Rightarrow> (0, None)
           | ClockGettime (Some t) \<Rightarrow> (base, Some t)
           | Gettimeofday sec usec \<Rightarrow> (base, Some (Timespec sec (1000 * usec))))"

text \<open>The mutex is held again on every path; only a signalled waiter leaves the count.\<close>

lemma cnd_timedwait_relocks:
  assumes "mtx_free m" and "fst (env (cnd_before t (c, m\<lparr>cs_owner := Some t, cs_count := 1, mAlreadyLocked := \<not> mRecursive m\<rparr>)))
      = c1" and "snd (env (cnd_before t (c, m\<lparr>cs_owner := Some t, cs_count := 1, mAlreadyLocked := \<not> mRecursive m\<rparr>))) = m"
  shows "\<exists>res c'. cnd_timedwait_win32 t env result reset_ok
        (c, m\<lparr>cs_owner := Some t, cs_count := 1, mAlreadyLocked := \<not> mRecursive m\<rparr>)
      = Some (res, c', m\<lparr>cs_owner := Some t, cs_count := 1, mAlreadyLocked := \<not> mRecursive m\<rparr>) \<and>
      mWaitersCount c' = mWaitersCount c1 - (if result = SignalOne \<or> result = SignalAll then 1 else 0)"
proof -
  let ?m = "m\<lparr>cs_owner := Some t, cs_count := 1, mAlreadyLocked := \<not> mRecursive m\<rparr>"
  have e: "env (cnd_before t (c, ?m)) = (c1, m)" using assms(2,3) by (simp add: prod_eq_iff)
  have l: "relock t res c2 m = Some (res, c2, ?m)" for res c2
    using lock_free[OF assms(1), of Object0 t] by (simp add: relock_def)
  show ?thesis unfolding cnd_timedwait_win32_def e cnd_after_def
    by (cases result) (auto simp: l Let_def)
qed

end
