(* ===== verification/ThreadUtils.thy ===== *)
theory ThreadUtils
  imports Tinycthread Fd
begin

text \<open>
  \<^verbatim>\<open>threadutils.h\<close>: the classes \<^verbatim>\<open>Mutex\<close>, \<^verbatim>\<open>Guard\<close> and \<^verbatim>\<open>ConditionVariable\<close> turn the result
  codes of tinycthread into exceptions and scopes. The locale \<open>mutex\<close> is what a guard needs
  of a mutex; the recursive Windows mutex meets it at every depth.
\<close>

section \<open>Mutex\<close>

definition throw_unless_success :: "string \<Rightarrow> thrd_result \<Rightarrow> exn + unit" where
  "throw_unless_success msg res = (if res \<noteq> Thrd_success then Inl (StdException msg) else Inr ())"

definition Mutex_new :: "thrd_result \<Rightarrow> exn + unit" where
  "Mutex_new res = throw_unless_success ''Mutex creation failed'' res"

definition Mutex_lock :: "thrd_result \<Rightarrow> exn + unit" where
  "Mutex_lock res = throw_unless_success ''Mutex failed to lock'' res"

definition Mutex_tryLock :: "thrd_result \<Rightarrow> exn + bool" where
  "Mutex_tryLock res =
     (if res = Thrd_success then Inr True
      else if res = Thrd_busy then Inr False
      else Inl (StdException ''Mutex failed to trylock''))"

definition Mutex_unlock :: "thrd_result \<Rightarrow> exn + unit" where
  "Mutex_unlock res = throw_unless_success ''Mutex failed to unlock'' res"

section \<open>Guard\<close>

text \<open>
  A block under a guard: the constructor locks, the destructor unlocks when the block is left
  by returning or by an exception. A destructor that throws ends the process. \<open>None\<close> is a
  block that has not been left, or a lock not obtained.
\<close>

definition terminated :: exn where
  "terminated = Undefined ''std::terminate''"

definition guarded ::
    "('m \<Rightarrow> (thrd_result \<times> 'm) option) \<Rightarrow> ('m \<Rightarrow> thrd_result \<times> 'm) \<Rightarrow>
      ('m \<times> 's \<Rightarrow> ((exn + 'a) \<times> 'm \<times> 's) option) \<Rightarrow> 'm \<times> 's \<Rightarrow> ((exn + 'a) \<times> 'm \<times> 's) option" where
  "guarded lock unlock body ms =
     (case lock (fst ms) of
        None \<Rightarrow> None
      | Some (res, m1) \<Rightarrow>
          (case Mutex_lock res of
             Inl e \<Rightarrow> Some (Inl e, m1, snd ms)
           | Inr _ \<Rightarrow>
               (case body (m1, snd ms) of
                  None \<Rightarrow> None
                | Some (x, m2, s2) \<Rightarrow>
                    if leaves_frame x
                    then let (res', m3) = unlock m2
                         in case Mutex_unlock res' of
                              Inl e \<Rightarrow> Some (Inl terminated, m3, s2)
                            | Inr _ \<Rightarrow> Some (x, m3, s2)
                    else Some (x, m2, s2))))"

section \<open>ConditionVariable\<close>

definition ConditionVariable_new :: "bool \<Rightarrow> bool \<Rightarrow> thrd_result \<Rightarrow> exn + unit" where
  "ConditionVariable_new time_integral time_signed res =
     (if \<not> time_integral then Inl (StdException ''Integral time_t type expected'')
      else if \<not> time_signed then Inl (StdException ''Signed time_t type expected'')
      else throw_unless_success ''Condition variable failed to initialize'' res)"

definition ConditionVariable_signal :: "thrd_result \<Rightarrow> exn + unit" where
  "ConditionVariable_signal res = throw_unless_success ''Condition variable failed to signal'' res"

definition ConditionVariable_broadcast :: "thrd_result \<Rightarrow> exn + unit" where
  "ConditionVariable_broadcast res = throw_unless_success ''Condition variable failed to broadcast'' res"

definition ConditionVariable_wait :: "thrd_result \<Rightarrow> exn + unit" where
  "ConditionVariable_wait res = throw_unless_success ''Condition variable failed to wait'' res"

text \<open>\<open>now\<close> is what \<^verbatim>\<open>timespec_get\<close> gives, \<open>wait\<close> how a wait until a time ends.\<close>

definition ConditionVariable_timedwait ::
    "timespec option \<Rightarrow> double \<Rightarrow> (timespec \<Rightarrow> thrd_result) \<Rightarrow> exn + bool" where
  "ConditionVariable_timedwait now timeoutSecs wait =
     (case now of
        None \<Rightarrow> Inl (StdException ''timespec_get failed'')
      | Some ts \<Rightarrow>
          (case addSeconds ts timeoutSecs of
             None \<Rightarrow> Inl (Undefined ''addSeconds'')
           | Some ts \<Rightarrow>
               (let res = wait ts
                in if res = Thrd_success then Inr True
                   else if res = Thrd_timedout then Inr False
                   else Inl (StdException ''Condition variable failed to timedwait''))))"

section \<open>What a guard needs of a mutex\<close>

text \<open>\<open>held n m\<close>: the calling thread has the mutex \<open>n\<close> times.\<close>

locale mutex =
  fixes lock :: "'m \<Rightarrow> (thrd_result \<times> 'm) option"
    and unlock :: "'m \<Rightarrow> thrd_result \<times> 'm"
    and held :: "nat \<Rightarrow> 'm \<Rightarrow> bool"
  assumes lock_held: "held n m \<Longrightarrow> \<exists>m1. lock m = Some (Thrd_success, m1) \<and> held (Suc n) m1"
    and unlock_held: "held (Suc n) m \<Longrightarrow> \<exists>m1. unlock m = (Thrd_success, m1) \<and> held n m1"
begin

text \<open>A guarded block gives back what it took unless it is left by \<^verbatim>\<open>longjmp\<close>.\<close>

lemma guarded_balanced:
  assumes h: "held n m"
    and body: "\<And>m1 x m2 s2. held (Suc n) m1 \<Longrightarrow> body (m1, s) = Some (x, m2, s2) \<Longrightarrow> held (Suc n) m2"
    and g: "guarded lock unlock body (m, s) = Some (x, m', s')"
  shows "held (if leaves_frame x then n else Suc n) m'"
proof -
  obtain m1 where m1: "lock m = Some (Thrd_success, m1)" "held (Suc n) m1"
    using lock_held[OF h] by blast
  then obtain y m2 s2 where b: "body (m1, s) = Some (y, m2, s2)"
    using g by (auto simp: guarded_def Mutex_lock_def throw_unless_success_def split: option.splits)
  obtain m3 where m3: "unlock m2 = (Thrd_success, m3)" "held n m3"
    using unlock_held[OF body[OF m1(2) b]] by blast
  show ?thesis
  proof (cases "leaves_frame y")
    case True
    then have "x = y" "m' = m3"
      using g m1 b m3 by (simp_all add: guarded_def Mutex_lock_def Mutex_unlock_def throw_unless_success_def)
    then show ?thesis using True m3 by (auto simp: terminated_def leaves_frame_def)
  next
    case False
    then have "x = y" "m' = m2" "s' = s2"
      using g m1 b by (simp_all add: guarded_def Mutex_lock_def throw_unless_success_def)
    then show ?thesis using False body[OF m1(2) b] b m1(2) by auto
  qed
qed

end

text \<open>A recursive mutex that only one thread uses or holds, \<open>n\<close> levels deep.\<close>

definition held_by :: "nat \<Rightarrow> nat \<Rightarrow> win_mtx \<Rightarrow> bool" where
  "held_by t n m \<longleftrightarrow>
     mRecursive m \<and> \<not> mTimed m \<and> cs_count m = n \<and> cs_owner m = (if n = 0 then None else Some t)"

interpretation recursive: mutex "tct_mtx_lock_win32 Object0 t" "tct_mtx_unlock_win32 t" "held_by t" for t
proof
  show "\<exists>m1. tct_mtx_lock_win32 Object0 t m = Some (Thrd_success, m1) \<and> held_by t (Suc n) m1"
    if "held_by t n m" for n m
    using that by (cases n) (auto simp: held_by_def tct_mtx_lock_win32_def os_enter_def mark_locked_def)
  show "\<exists>m1. tct_mtx_unlock_win32 t m = (Thrd_success, m1) \<and> held_by t n m1" if "held_by t (Suc n) m" for n m
    using that by (cases n) (auto simp: held_by_def tct_mtx_unlock_win32_def os_leave_def)
qed

end
