(* ===== verification/ThreadStorage.thy ===== *)
theory ThreadStorage
  imports Tinycthread
begin

text \<open>
  \<^verbatim>\<open>tinycthread.c\<close>, second part: starting and joining threads, and thread-specific storage on
  Windows, where each thread has a linked list of its values so that destructors can run
  when it ends. The list is modelled as it is, with nodes and pointers.
\<close>

section \<open>Threads\<close>

text \<open>
  \<open>tct_thrd_create\<close>: memory for the start information, and what the system call answers. The
  result comes with the number of start records that are left to the new thread, which
  frees its record itself.
\<close>

definition tct_thrd_create :: "bool \<Rightarrow> bool \<Rightarrow> nat \<Rightarrow> thrd_result \<times> nat" where
  "tct_thrd_create alloc_ok create_ok records =
     (if \<not> alloc_ok then (Thrd_nomem, records)
      else let records1 = Suc records
           in if \<not> create_ok then (Thrd_error, records1 - 1) else (Thrd_success, records1))"

definition thrd_wrapper_function :: "(nat \<Rightarrow> 's \<Rightarrow> int \<times> 's) \<Rightarrow> nat \<Rightarrow> nat \<times> 's \<Rightarrow> int \<times> nat \<times> 's" where
  "thrd_wrapper_function f arg = (\<lambda>(records, s).
     (let records1 = records - 1; (res, s1) = f arg s in (res, records1, s1)))"

text \<open>Joining: each answer of the system is an argument; \<open>want\<close> is whether a result is asked for.\<close>

definition tct_thrd_join_posix :: "int \<Rightarrow> int \<Rightarrow> bool \<Rightarrow> thrd_result \<times> int option" where
  "tct_thrd_join_posix rc pres want =
     (if rc \<noteq> 0 then (Thrd_error, None) else (Thrd_success, if want then Some pres else None))"

definition tct_thrd_join_win32 :: "bool \<Rightarrow> int option \<Rightarrow> bool \<Rightarrow> thrd_result \<times> int option" where
  "tct_thrd_join_win32 wait_failed code want =
     (if wait_failed then (Thrd_error, None)
      else if want
      then case code of Some c \<Rightarrow> (Thrd_success, Some c) | None \<Rightarrow> (Thrd_error, None)
      else (Thrd_success, None))"

definition tct_thrd_detach :: "bool \<Rightarrow> thrd_result" where
  "tct_thrd_detach ok = (if ok then Thrd_success else Thrd_error)"

text \<open>Sleeping on POSIX, and what is left of a sleep cut short on Windows.\<close>

definition tct_thrd_sleep_posix :: "bool \<Rightarrow> bool \<Rightarrow> int" where
  "tct_thrd_sleep_posix slept interrupted = (if slept then 0 else if interrupted then -1 else -2)"

definition sleep_ms :: "timespec \<Rightarrow> 32 word" where
  "sleep_ms d =
     of_int (tv_sec d * 1000 + tv_nsec d div 1000000 + (if tv_nsec d mod 1000000 = 0 then 0 else 1))"

definition sleep_remaining :: "timespec \<Rightarrow> timespec \<Rightarrow> timespec" where
  "sleep_remaining start now =
     (let sec = tv_sec now - tv_sec start; nsec = tv_nsec now - tv_nsec start
      in if nsec < 0 then Timespec (sec - 1) (nsec + 1000000000) else Timespec sec nsec)"

section \<open>Thread-specific storage\<close>

text \<open>A node of the list; value \<open>0\<close> is \<^verbatim>\<open>NULL\<close>.\<close>

record tss_data =
  tss_value :: nat
  tss_key :: nat
  tss_next :: "nat option"

record tss =
  nodes :: "nat \<Rightarrow> tss_data option"
  next_node :: nat
  tss_head :: "nat option"
  tss_tail :: "nat option"
  tls :: "nat \<Rightarrow> nat option"
  tss_dtors :: "nat \<Rightarrow> bool"

definition tss_fresh :: tss where
  "tss_fresh = \<lparr>nodes = (\<lambda>_. None), next_node = 0, tss_head = None, tss_tail = None,
     tls = (\<lambda>_. None), tss_dtors = (\<lambda>_. False)\<rparr>"

text \<open>\<open>None\<close> is a step on a freed node.\<close>

definition upd_node :: "nat \<Rightarrow> (tss_data \<Rightarrow> tss_data) \<Rightarrow> tss \<Rightarrow> tss option" where
  "upd_node a f s =
     (case nodes s a of None \<Rightarrow> None | Some d \<Rightarrow> Some (s\<lparr>nodes := (nodes s)(a \<mapsto> f d)\<rparr>))"

definition tct_tss_create :: "nat option \<Rightarrow> bool \<Rightarrow> tss \<Rightarrow> thrd_result \<times> nat option \<times> tss" where
  "tct_tss_create slot dtor s =
     (case slot of
        None \<Rightarrow> (Thrd_error, None, s)
      | Some k \<Rightarrow> (Thrd_success, Some k, s\<lparr>tss_dtors := (tss_dtors s)(k := dtor)\<rparr>))"

definition tct_tss_get :: "nat \<Rightarrow> tss \<Rightarrow> nat option" where
  "tct_tss_get key s =
     (case tls s key of None \<Rightarrow> Some 0 | Some a \<Rightarrow> map_option tss_value (nodes s a))"

text \<open>\<open>tct_tss_set\<close>: a new node is linked after the tail; the tail stays where it is.\<close>

definition tss_link :: "nat \<Rightarrow> tss \<Rightarrow> tss option" where
  "tss_link a s =
     map_option (\<lambda>s1. if tss_head s1 = None then s1\<lparr>tss_head := Some a\<rparr> else s1)
       (case tss_tail s of
          Some t \<Rightarrow> upd_node t (\<lambda>d. d\<lparr>tss_next := Some a\<rparr>) s
        | None \<Rightarrow> Some (s\<lparr>tss_tail := Some a\<rparr>))"

definition tct_tss_set :: "bool \<Rightarrow> bool \<Rightarrow> nat \<Rightarrow> nat \<Rightarrow> tss \<Rightarrow> (thrd_result \<times> tss) option" where
  "tct_tss_set alloc_ok tls_ok key val s =
     (case tls s key of
        Some a \<Rightarrow> map_option (Pair Thrd_success) (upd_node a (\<lambda>d. d\<lparr>tss_value := val\<rparr>) s)
      | None \<Rightarrow>
          if \<not> alloc_ok then Some (Thrd_error, s)
          else let a = next_node s;
                   s1 = s\<lparr>next_node := Suc a,
                          nodes := (nodes s)(a \<mapsto> \<lparr>tss_value = 0, tss_key = key, tss_next = None\<rparr>)\<rparr>
               in case tss_link a s1 of
                    None \<Rightarrow> None
                  | Some s2 \<Rightarrow>
                      if \<not> tls_ok then Some (Thrd_error, s2\<lparr>nodes := (nodes s2)(a := None)\<rparr>)
                      else map_option (Pair Thrd_success)
                             (upd_node a (\<lambda>d. d\<lparr>tss_value := val\<rparr>) (s2\<lparr>tls := (tls s2)(key \<mapsto> a)\<rparr>)))"

text \<open>The list from a node on; \<open>None\<close> if it runs into a freed node or is longer than the fuel.\<close>

fun tss_walk :: "nat \<Rightarrow> tss \<Rightarrow> nat option \<Rightarrow> nat list option" where
  "tss_walk n s None = Some []"
| "tss_walk 0 s (Some a) = None"
| "tss_walk (Suc n) s (Some a) =
     (case nodes s a of None \<Rightarrow> None | Some d \<Rightarrow> map_option ((#) a) (tss_walk n s (tss_next d)))"

definition tss_list :: "tss \<Rightarrow> nat list option" where
  "tss_list s = tss_walk (Suc (next_node s)) s (tss_head s)"

text \<open>
  One pass of \<open>_tinycthread_tss_cleanup\<close> over the list: values are cleared before their
  destructor is called. The result is the calls made and whether another pass is needed.
\<close>

fun cleanup_pass :: "nat list \<Rightarrow> tss \<Rightarrow> (nat \<times> nat) list \<Rightarrow> bool \<Rightarrow> (tss \<times> (nat \<times> nat) list \<times> bool) option" where
  "cleanup_pass [] s calls again = Some (s, calls, again)"
| "cleanup_pass (a # as) s calls again =
     (case nodes s a of
        None \<Rightarrow> None
      | Some d \<Rightarrow>
          if tss_value d \<noteq> 0
          then let s1 = s\<lparr>nodes := (nodes s)(a \<mapsto> d\<lparr>tss_value := 0\<rparr>)\<rparr>
               in if tss_dtors s1 (tss_key d)
                  then cleanup_pass as s1 (calls @ [(tss_key d, tss_value d)]) True
                  else cleanup_pass as s1 calls again
          else cleanup_pass as s calls again)"

definition TCT_TSS_DTOR_ITERATIONS :: nat where
  "TCT_TSS_DTOR_ITERATIONS = 4"

fun cleanup_passes :: "nat \<Rightarrow> tss \<Rightarrow> (nat \<times> nat) list \<Rightarrow> (tss \<times> (nat \<times> nat) list) option" where
  "cleanup_passes 0 s calls = Some (s, calls)"
| "cleanup_passes (Suc i) s calls =
     Option.bind (tss_list s) (\<lambda>as.
       Option.bind (cleanup_pass as s calls False) (\<lambda>(s1, calls1, again).
         if again then cleanup_passes i s1 calls1 else Some (s1, calls1)))"

text \<open>The destructors are taken not to set values again; then the list is freed.\<close>

definition tss_cleanup :: "tss \<Rightarrow> (tss \<times> (nat \<times> nat) list) option" where
  "tss_cleanup s =
     Option.bind (cleanup_passes TCT_TSS_DTOR_ITERATIONS s []) (\<lambda>(s1, calls).
       map_option (\<lambda>as. (s1\<lparr>nodes := (\<lambda>a. if a \<in> set as then None else nodes s1 a),
                            tss_head := None, tss_tail := None\<rparr>, calls))
         (tss_list s1))"

text \<open>The two other places that clean up: the loader's callback and the end of a thread.\<close>

datatype dll_reason = ProcessAttach | ThreadAttach | ThreadDetach | ProcessDetach

definition tss_callback :: "dll_reason \<Rightarrow> tss \<Rightarrow> (tss \<times> (nat \<times> nat) list) option" where
  "tss_callback reason s =
     (if tss_head s \<noteq> None \<and> (reason = ThreadDetach \<or> reason = ProcessDetach) then tss_cleanup s
      else Some (s, []))"

definition tct_thrd_exit_win32 :: "int \<Rightarrow> tss \<Rightarrow> (32 word \<times> tss \<times> (nat \<times> nat) list) option" where
  "tct_thrd_exit_win32 res s =
     map_option (Pair (of_int res)) (if tss_head s \<noteq> None then tss_cleanup s else Some (s, []))"

definition thrd_wrapper_function_win32 ::
    "(nat \<Rightarrow> tss \<Rightarrow> int \<times> tss) \<Rightarrow> nat \<Rightarrow> nat \<times> tss \<Rightarrow> (32 word \<times> nat \<times> tss \<times> (nat \<times> nat) list) option" where
  "thrd_wrapper_function_win32 f arg rs =
     (let (res, records, s) = thrd_wrapper_function f arg rs
      in map_option (\<lambda>(s1, calls). (of_int res, records, s1, calls))
           (if tss_head s \<noteq> None then tss_cleanup s else Some (s, [])))"

text \<open>\<open>tct_tss_delete\<close>: the predecessor is searched from the head.\<close>

fun find_prev :: "nat \<Rightarrow> tss \<Rightarrow> nat \<Rightarrow> nat \<Rightarrow> nat option" where
  "find_prev 0 s data prev = None"
| "find_prev (Suc n) s data prev =
     (case nodes s prev of
        None \<Rightarrow> None
      | Some d \<Rightarrow>
          if tss_next d = Some data then Some prev
          else case tss_next d of None \<Rightarrow> None | Some p \<Rightarrow> find_prev n s data p)"

definition tct_tss_delete :: "nat \<Rightarrow> tss \<Rightarrow> tss option" where
  "tct_tss_delete key s =
     map_option (\<lambda>s1. s1\<lparr>tss_dtors := (tss_dtors s1)(key := False), tls := (tls s1)(key := None)\<rparr>)
       (case tls s key of
          None \<Rightarrow> Some s
        | Some a \<Rightarrow>
            (case nodes s a of
               None \<Rightarrow> None
             | Some d \<Rightarrow>
                 Option.bind
                   (if tss_head s = Some a then Some (None, s\<lparr>tss_head := tss_next d\<rparr>)
                    else case tss_head s of
                           None \<Rightarrow> Some (None, s)
                         | Some h \<Rightarrow> map_option (\<lambda>p. (Some p, s)) (find_prev (Suc (next_node s)) s a h))
                   (\<lambda>(prev, s1).
                      let s2 = (if tss_tail s1 = Some a then s1\<lparr>tss_tail := prev\<rparr> else s1)
                      in Some (s2\<lparr>nodes := (nodes s2)(a := None)\<rparr>))))"

section \<open>Facts\<close>

lemma tct_thrd_create_records:
  "tct_thrd_create alloc_ok create_ok n = (res, m) \<Longrightarrow>
   (res = Thrd_success \<and> m = Suc n) \<or> (res \<noteq> Thrd_success \<and> m = n)"
  by (auto simp: tct_thrd_create_def split: if_splits)

lemma upd_node_Some: "nodes s a = Some d \<Longrightarrow> upd_node a f s = Some (s\<lparr>nodes := (nodes s)(a \<mapsto> f d)\<rparr>)"
  by (simp add: upd_node_def)

text \<open>Slots point to live nodes of their own.\<close>

definition tss_ok :: "tss \<Rightarrow> bool" where
  "tss_ok s \<longleftrightarrow>
     (\<forall>k a. tls s k = Some a \<longrightarrow> a < next_node s \<and> (\<exists>d. nodes s a = Some d \<and> tss_key d = k)) \<and>
     (\<forall>t. tss_tail s = Some t \<longrightarrow> t < next_node s \<and> nodes s t \<noteq> None)"

lemma tss_okD: "tss_ok s \<Longrightarrow> tls s k = Some a \<Longrightarrow> a < next_node s \<and> (\<exists>d. nodes s a = Some d \<and> tss_key d = k)"
  unfolding tss_ok_def by blast

lemma tss_fresh_ok: "tss_ok tss_fresh"
  by (simp add: tss_ok_def tss_fresh_def)

lemma tss_set_get:
  assumes ok: "tss_ok s"
  shows "\<exists>s'. tct_tss_set True True k v s = Some (Thrd_success, s') \<and> tss_ok s' \<and>
    (\<forall>j. tct_tss_get j s' = (if j = k then Some v else tct_tss_get j s))"
proof (cases "tls s k")
  case (Some a)
  then obtain d where d: "nodes s a = Some d" "tss_key d = k" "a < next_node s" using ok by (auto simp: tss_ok_def)
  have neq: "b \<noteq> a" if "tls s j = Some b" "j \<noteq> k" for j b
    using tss_okD[OF ok that(1)] that(2) d(1,2) by auto
  let ?s = "s\<lparr>nodes := (nodes s)(a \<mapsto> d\<lparr>tss_value := v\<rparr>)\<rparr>"
  have "tct_tss_set True True k v s = Some (Thrd_success, ?s)"
    using Some d(1) by (simp add: tct_tss_set_def upd_node_Some)
  moreover have "tss_ok ?s" using ok d tss_okD[OF ok] unfolding tss_ok_def by (auto simp del: not_None_eq) fastforce
  moreover have "tct_tss_get j ?s = (if j = k then Some v else tct_tss_get j s)" for j
    using Some neq[of j] by (auto simp: tct_tss_get_def split: option.split)
  ultimately show ?thesis by blast
next
  case None
  let ?a = "next_node s"
  let ?d = "\<lparr>tss_value = 0, tss_key = k, tss_next = None\<rparr>"
  let ?s1 = "s\<lparr>next_node := Suc ?a, nodes := (nodes s)(?a \<mapsto> ?d)\<rparr>"
  obtain s2 where s2: "tss_link ?a ?s1 = Some s2" "tls s2 = tls s" "next_node s2 = Suc ?a"
    "nodes s2 ?a = Some ?d" "tss_tail s2 \<noteq> None"
    "\<And>b. b \<noteq> ?a \<Longrightarrow> map_option (\<lambda>d. (tss_value d, tss_key d)) (nodes s2 b) = map_option (\<lambda>d. (tss_value d, tss_key d)) (nodes s b)"
    "\<And>t. tss_tail s2 = Some t \<Longrightarrow> t \<noteq> ?a \<Longrightarrow> tss_tail s = Some t"
  proof (cases "tss_tail s")
    case None
    then show thesis
      by (intro that[of "if tss_head s = None then ?s1\<lparr>tss_tail := Some ?a, tss_head := Some ?a\<rparr>
            else ?s1\<lparr>tss_tail := Some ?a\<rparr>"]) (auto simp: tss_link_def split: if_splits)
  next
    case (Some t)
    then obtain e where "nodes s t = Some e" "t < ?a" using ok by (auto simp: tss_ok_def)
    then show thesis using Some
      by (intro that[of "if tss_head s = None then ?s1\<lparr>nodes := (nodes ?s1)(t \<mapsto> e\<lparr>tss_next := Some ?a\<rparr>), tss_head := Some ?a\<rparr>
            else ?s1\<lparr>nodes := (nodes ?s1)(t \<mapsto> e\<lparr>tss_next := Some ?a\<rparr>)\<rparr>"])
         (auto simp: tss_link_def upd_node_def split: if_splits)
  qed
  let ?s = "s2\<lparr>tls := (tls s)(k \<mapsto> ?a), nodes := (nodes s2)(?a \<mapsto> ?d\<lparr>tss_value := v\<rparr>)\<rparr>"
  have set: "tct_tss_set True True k v s = Some (Thrd_success, ?s)"
    using None s2 by (simp add: tct_tss_set_def upd_node_def Let_def)
  have old: "b < ?a" if "tls s j = Some b" for j b using ok that by (auto simp: tss_ok_def)
  have keep: "\<exists>d'. nodes s2 b = Some d' \<and> tss_key d' = tss_key e \<and> tss_value d' = tss_value e"
    if "nodes s b = Some e" "b \<noteq> ?a" for b e
    using s2(6)[OF that(2)] that(1) by auto
  have "tss_ok ?s" unfolding tss_ok_def
  proof (intro conjI allI impI)
    fix j b assume j: "tls ?s j = Some b"
    show "b < next_node ?s" using j old[of j b] s2(3) by (auto split: if_splits)
    show "\<exists>d. nodes ?s b = Some d \<and> tss_key d = j"
    proof (cases "j = k")
      case True
      then show ?thesis using j by simp
    next
      case False
      then have "tls s j = Some b" using j by simp
      moreover from this obtain e where "nodes s b = Some e" "tss_key e = j" using ok by (auto simp: tss_ok_def)
      ultimately show ?thesis using old[of j b] keep[of b e] by auto
    qed
  next
    fix t assume t: "tss_tail ?s = Some t"
    show "t < next_node ?s"
      using t s2(3) s2(7)[of t] ok by (cases "t = ?a") (auto simp: tss_ok_def less_Suc_eq)
    show "nodes ?s t \<noteq> None"
      using t s2(7)[of t] ok keep[of t] by (cases "t = ?a") (auto simp: tss_ok_def)
  qed
  moreover have "tct_tss_get j ?s = (if j = k then Some v else tct_tss_get j s)" for j
  proof (cases "j = k")
    case False
    show ?thesis
    proof (cases "tls s j")
      case None
      then show ?thesis using False by (simp add: tct_tss_get_def)
    next
      case (Some b)
      moreover from this obtain e where "nodes s b = Some e" using tss_okD[OF ok, of j b] by auto
      ultimately show ?thesis using False old[of j b] keep[of b e] by (auto simp: tct_tss_get_def)
    qed
  qed (simp add: tct_tss_get_def)
  ultimately show ?thesis using set by blast
qed

section \<open>Setting several keys\<close>

text \<open>
  The list of a thread that has set \<open>n\<close> keys, each for the first time: each slot has its node,
  but only the first node has a successor, and that is the last; those between are cut off.
\<close>

fun set_keys :: "(nat \<times> nat) list \<Rightarrow> tss \<Rightarrow> tss option" where
  "set_keys [] s = Some s"
| "set_keys ((k, v) # kvs) s =
     (case tct_tss_set True True k v s of Some (Thrd_success, s1) \<Rightarrow> set_keys kvs s1 | _ \<Rightarrow> None)"

definition tss_chain :: "(nat \<times> nat) list \<Rightarrow> tss \<Rightarrow> bool" where
  "tss_chain kvs s \<longleftrightarrow>
     next_node s = length kvs \<and> distinct (map fst kvs) \<and>
     tss_head s = (if kvs = [] then None else Some 0) \<and> tss_tail s = (if kvs = [] then None else Some 0) \<and>
     (\<forall>a < length kvs. nodes s a = Some \<lparr>tss_value = snd (kvs ! a), tss_key = fst (kvs ! a),
        tss_next = (if a = 0 \<and> 2 \<le> length kvs then Some (length kvs - 1) else None)\<rparr>) \<and>
     (\<forall>a < length kvs. tls s (fst (kvs ! a)) = Some a) \<and> (\<forall>k. k \<notin> fst ` set kvs \<longrightarrow> tls s k = None)"

lemma tss_chain_fresh: "tss_chain [] (tss_fresh\<lparr>tss_dtors := d\<rparr>)"
  by (simp add: tss_chain_def tss_fresh_def)

lemma tss_chain_snoc:
  assumes "tss_chain kvs s" and "k \<notin> fst ` set kvs"
  shows "\<exists>s'. tct_tss_set True True k v s = Some (Thrd_success, s') \<and> tss_chain (kvs @ [(k, v)]) s' \<and>
    tss_dtors s' = tss_dtors s"
proof (cases "kvs = []")
  case True
  then show ?thesis using assms
    by (auto simp: tss_chain_def tct_tss_set_def tss_link_def upd_node_def Let_def)
next
  case False
  define n where "n = length kvs"
  have n: "0 < n" using False by (simp add: n_def)
  note c = assms(1)[unfolded tss_chain_def, folded n_def]
  have none: "tls s k = None" and tail: "tss_tail s = Some 0" and head: "tss_head s = Some 0" and next_node: "next_node s = n"
    using c assms(2) False by simp_all
  have nd: "nodes s a = Some \<lparr>tss_value = snd (kvs ! a), tss_key = fst (kvs ! a),
      tss_next = (if a = 0 \<and> 2 \<le> n then Some (n - 1) else None)\<rparr>" if "a < n" for a
    using c that by simp
  let ?s1 = "s\<lparr>next_node := Suc n, nodes := (nodes s)(n \<mapsto> \<lparr>tss_value = 0, tss_key = k, tss_next = None\<rparr>)\<rparr>"
  let ?d = "\<lparr>tss_value = snd (kvs ! 0), tss_key = fst (kvs ! 0), tss_next = Some n\<rparr>"
  let ?s2 = "?s1\<lparr>nodes := (nodes ?s1)(0 \<mapsto> ?d)\<rparr>"
  have link: "tss_link n ?s1 = Some ?s2"
    using nd[OF n] n tail head by (simp add: tss_link_def upd_node_def)
  let ?s' = "?s2\<lparr>tls := (tls s)(k \<mapsto> n), nodes := (nodes ?s2)(n \<mapsto> \<lparr>tss_value = v, tss_key = k, tss_next = None\<rparr>)\<rparr>"
  have "tct_tss_set True True k v s = Some (Thrd_success, ?s')"
    using none link n by (simp add: tct_tss_set_def next_node upd_node_def Let_def)
  moreover have "k \<noteq> fst (kvs ! a)" if "a < n" for a using assms(2) that by (metis imageI n_def nth_mem)
  then have "tss_chain (kvs @ [(k, v)]) ?s'"
    unfolding tss_chain_def using n nd c assms(2) False
    by (auto simp: n_def[symmetric] nth_append less_Suc_eq)
  ultimately show ?thesis by simp
qed

lemma set_keys_snoc:
  "set_keys (kvs @ [(k, v)]) s =
     Option.bind (set_keys kvs s) (\<lambda>s1. case tct_tss_set True True k v s1 of Some (Thrd_success, s2) \<Rightarrow> Some s2 | _ \<Rightarrow> None)"
  by (induction kvs s rule: set_keys.induct) (auto split: option.splits prod.splits thrd_result.splits)

lemma set_keys_chain:
  assumes "distinct (map fst kvs)"
  shows "\<exists>s. set_keys kvs (tss_fresh\<lparr>tss_dtors := d\<rparr>) = Some s \<and> tss_chain kvs s \<and> tss_dtors s = d"
  using assms
proof (induction kvs rule: rev_induct)
  case Nil
  then show ?case using tss_chain_fresh by (simp add: tss_fresh_def)
next
  case (snoc kv kvs)
  obtain k v where kv: "kv = (k, v)" by (cases kv)
  obtain s where s: "set_keys kvs (tss_fresh\<lparr>tss_dtors := d\<rparr>) = Some s" "tss_chain kvs s" "tss_dtors s = d"
    using snoc by auto
  have "k \<notin> fst ` set kvs" using snoc.prems kv by auto
  from tss_chain_snoc[OF s(2) this, of v] obtain s' where
    "tct_tss_set True True k v s = Some (Thrd_success, s')" "tss_chain (kvs @ [(k, v)]) s'" "tss_dtors s' = d"
    using s(3) by auto
  then show ?case using s(1) by (simp add: set_keys_snoc kv)
qed

lemma tss_chainD:
  assumes "tss_chain kvs s" and "a < length kvs"
  shows "nodes s a = Some \<lparr>tss_value = snd (kvs ! a), tss_key = fst (kvs ! a),
      tss_next = (if a = 0 \<and> 2 \<le> length kvs then Some (length kvs - 1) else None)\<rparr>"
    and "tls s (fst (kvs ! a)) = Some a" and "tss_head s = Some 0" and "tss_tail s = Some 0" and "next_node s = length kvs"
proof -
  have "kvs \<noteq> []" using assms(2) by auto
  then show "nodes s a = Some \<lparr>tss_value = snd (kvs ! a), tss_key = fst (kvs ! a),
      tss_next = (if a = 0 \<and> 2 \<le> length kvs then Some (length kvs - 1) else None)\<rparr>"
    "tls s (fst (kvs ! a)) = Some a" "tss_head s = Some 0" "tss_tail s = Some 0" "next_node s = length kvs"
    using assms by (simp_all add: tss_chain_def)
qed

lemma tss_chain_get:
  assumes "tss_chain kvs s" and "(k, v) \<in> set kvs"
  shows "tct_tss_get k s = Some v"
proof -
  obtain a where "a < length kvs" "kvs ! a = (k, v)" using assms(2) by (metis in_set_conv_nth)
  then show ?thesis using tss_chainD(1,2)[OF assms(1), of a] by (simp add: tct_tss_get_def)
qed

lemma tss_two_list:
  assumes "tss_head s = Some 0" and "nodes s 0 = Some \<lparr>tss_value = v, tss_key = k, tss_next = Some b\<rparr>"
    and "nodes s b = Some \<lparr>tss_value = u, tss_key = l, tss_next = None\<rparr>" and "next_node s = Suc n"
  shows "tss_list s = Some [0, b]"
  using assms by (simp add: tss_list_def)

lemma tss_chain_ends:
  assumes "tss_chain kvs s" and "2 \<le> length kvs"
  obtains b where "length kvs = Suc b" and "b \<noteq> 0" and "next_node s = Suc b" and "tss_head s = Some 0"
    and "nodes s 0 = Some \<lparr>tss_value = snd (hd kvs), tss_key = fst (hd kvs), tss_next = Some b\<rparr>"
    and "nodes s b = Some \<lparr>tss_value = snd (last kvs), tss_key = fst (last kvs), tss_next = None\<rparr>"
proof -
  obtain b where b: "length kvs = Suc b" "b \<noteq> 0" using assms(2) by (cases "length kvs") auto
  have ne: "kvs \<noteq> []" using b by auto
  have "hd kvs = kvs ! 0" "last kvs = kvs ! b" using b ne by (simp_all add: hd_conv_nth last_conv_nth)
  then show thesis using that[of b] b tss_chainD[OF assms(1), of 0] tss_chainD[OF assms(1), of b] by simp
qed

lemma tss_chain_list:
  assumes "tss_chain kvs s" and "2 \<le> length kvs"
  shows "tss_list s = Some [0, length kvs - 1]"
proof -
  obtain b where b: "length kvs = Suc b" "next_node s = Suc b" "tss_head s = Some 0"
    "nodes s 0 = Some \<lparr>tss_value = snd (hd kvs), tss_key = fst (hd kvs), tss_next = Some b\<rparr>"
    "nodes s b = Some \<lparr>tss_value = snd (last kvs), tss_key = fst (last kvs), tss_next = None\<rparr>"
    using tss_chain_ends[OF assms] by metis
  show ?thesis using tss_two_list[OF b(3-5,2)] b(1) by simp
qed

lemma tss_chain_cleanup:
  assumes "tss_chain kvs s" and "2 \<le> length kvs" and "\<forall>(k, v) \<in> set kvs. v \<noteq> 0 \<and> tss_dtors s k"
  shows "map_option snd (tss_cleanup s) = Some [hd kvs, last kvs]"
proof -
  obtain b where b: "length kvs = Suc b" "b \<noteq> 0" "next_node s = Suc b" "tss_head s = Some 0"
    and n: "nodes s 0 = Some \<lparr>tss_value = snd (hd kvs), tss_key = fst (hd kvs), tss_next = Some b\<rparr>"
    "nodes s b = Some \<lparr>tss_value = snd (last kvs), tss_key = fst (last kvs), tss_next = None\<rparr>"
    using tss_chain_ends[OF assms(1,2)] by metis
  have "kvs \<noteq> []" using assms(2) by auto
  then have "hd kvs \<in> set kvs" "last kvs \<in> set kvs" by simp_all
  then have nz: "snd (hd kvs) \<noteq> 0" "snd (last kvs) \<noteq> 0" "tss_dtors s (fst (hd kvs))" "tss_dtors s (fst (last kvs))"
    using assms(3) by auto
  let ?s1 = "s\<lparr>nodes := (nodes s)(0 \<mapsto> \<lparr>tss_value = 0, tss_key = fst (hd kvs), tss_next = Some b\<rparr>,
    b \<mapsto> \<lparr>tss_value = 0, tss_key = fst (last kvs), tss_next = None\<rparr>)\<rparr>"
  have l0: "tss_list s = Some [0, b]" using tss_two_list[OF b(4) n b(3)] .
  have p1: "cleanup_pass [0, b] s [] False = Some (?s1, [hd kvs, last kvs], True)"
    using n nz b(2) by simp
  have l1: "tss_list ?s1 = Some [0, b]"
    by (rule tss_two_list[of _ 0 "fst (hd kvs)" b 0 "fst (last kvs)" b]) (use b in simp_all)
  have p2: "cleanup_pass [0, b] ?s1 c False = Some (?s1, c, False)" for c using b(2) by simp
  have four: "TCT_TSS_DTOR_ITERATIONS = Suc (Suc 2)" by (simp add: TCT_TSS_DTOR_ITERATIONS_def)
  have "cleanup_passes TCT_TSS_DTOR_ITERATIONS s [] = Some (?s1, [hd kvs, last kvs])"
    unfolding four
    by (simp only: cleanup_passes.simps l0 p1 l1 p2 bind.bind_lunit prod.case if_True if_False)
  then show ?thesis using l1 by (simp add: tss_cleanup_def)
qed

lemma tss_chain_delete:
  assumes "tss_chain kvs s" and "0 < i" and "i < length kvs - 1"
  shows "tct_tss_delete (fst (kvs ! i)) s = None"
proof -
  have two: "2 \<le> length kvs" and i: "i < length kvs" using assms(2,3) by auto
  obtain b where b: "length kvs = Suc b" "b \<noteq> 0" "next_node s = Suc b" "tss_head s = Some 0"
    and n: "nodes s 0 = Some \<lparr>tss_value = snd (hd kvs), tss_key = fst (hd kvs), tss_next = Some b\<rparr>"
    "nodes s b = Some \<lparr>tss_value = snd (last kvs), tss_key = fst (last kvs), tss_next = None\<rparr>"
    using tss_chain_ends[OF assms(1) two] by metis
  have "i \<noteq> b" using assms(3) b(1) by simp
  then have "find_prev (Suc (next_node s)) s i 0 = None" using n b by simp
  then show ?thesis using tss_chainD(1,2)[OF assms(1) i] assms(2) b(4) by (simp add: tct_tss_delete_def)
qed

end
