(* ===== verification/CallOnce.thy ===== *)
theory CallOnce
  imports Prelude
begin

text \<open>
  \<open>tct_call_once\<close> of \<^verbatim>\<open>tinycthread.c\<close> (Windows): any number of threads call it on one flag. Each
  step of a thread is one access to the shared state; the threads interleave freely. The
  invariant gives the contract: the function runs once, and no caller returns before it has.
\<close>

section \<open>State and steps\<close>

text \<open>Where a thread stands: before the call, at the \<^verbatim>\<open>while\<close> test, at the \<^verbatim>\<open>switch\<close>, and so on.\<close>

datatype once_pc =
    OutOfCall | AtTest | AtSwitch | AtCas | AtInit | AtEnter | AtSet2 | AtRun | AtSet3 | AtLeave
  | AtWaitEnter | AtWaitLeave | Returned

record once =
  status :: nat
  section_ready :: bool
  lock_owner :: "nat option"
  runs :: nat
  pc :: "nat \<Rightarrow> once_pc"

definition once_init :: once where
  "once_init = \<lparr>status = 0, section_ready = False, lock_owner = None, runs = 0, pc = (\<lambda>_. OutOfCall)\<rparr>"

definition goto :: "nat \<Rightarrow> once_pc \<Rightarrow> once \<Rightarrow> once" where
  "goto t p s = s\<lparr>pc := (pc s)(t := p)\<rparr>"

text \<open>
  One step of thread \<open>t\<close>; \<open>None\<close> when it is blocked on the critical section or has nothing
  to do.
\<close>

definition once_step :: "nat \<Rightarrow> once \<Rightarrow> once option" where
  "once_step t s =
     (case pc s t of
        OutOfCall \<Rightarrow> Some (goto t AtTest s)
      | AtTest \<Rightarrow> Some (goto t (if status s < 3 then AtSwitch else Returned) s)
      | AtSwitch \<Rightarrow>
          Some (goto t (if status s = 0 then AtCas else if status s = 2 then AtWaitEnter else AtTest) s)
      | AtCas \<Rightarrow>
          (if status s = 0 then Some (goto t AtInit (s\<lparr>status := 1\<rparr>)) else Some (goto t AtTest s))
      | AtInit \<Rightarrow> Some (goto t AtEnter (s\<lparr>section_ready := True, lock_owner := None\<rparr>))
      | AtEnter \<Rightarrow>
          (if lock_owner s = None then Some (goto t AtSet2 (s\<lparr>lock_owner := Some t\<rparr>)) else None)
      | AtSet2 \<Rightarrow> Some (goto t AtRun (s\<lparr>status := 2\<rparr>))
      | AtRun \<Rightarrow> Some (goto t AtSet3 (s\<lparr>runs := Suc (runs s)\<rparr>))
      | AtSet3 \<Rightarrow> Some (goto t AtLeave (s\<lparr>status := 3\<rparr>))
      | AtLeave \<Rightarrow> Some (goto t Returned (s\<lparr>lock_owner := None\<rparr>))
      | AtWaitEnter \<Rightarrow>
          (if lock_owner s = None then Some (goto t AtWaitLeave (s\<lparr>lock_owner := Some t\<rparr>)) else None)
      | AtWaitLeave \<Rightarrow> Some (goto t AtTest (s\<lparr>lock_owner := None\<rparr>))
      | Returned \<Rightarrow> None)"

inductive once_reachable :: "once \<Rightarrow> bool" where
  start: "once_reachable once_init"
| step: "once_reachable s \<Longrightarrow> once_step t s = Some s' \<Longrightarrow> once_reachable s'"

section \<open>The invariant\<close>

text \<open>
  The phase of the thread that won the race, with what it implies; the other threads are
  outside the winner's part of the code.
\<close>

definition winner_pc :: "once_pc \<Rightarrow> bool" where
  "winner_pc p \<longleftrightarrow> p \<in> {AtInit, AtEnter, AtSet2, AtRun, AtSet3, AtLeave}"

definition phase_ok :: "once_pc \<Rightarrow> once \<Rightarrow> bool" where
  "phase_ok p s \<longleftrightarrow>
     status s = (if p \<in> {AtInit, AtEnter, AtSet2} then 1 else if p \<in> {AtRun, AtSet3} then 2 else 3) \<and>
     runs s = (if p \<in> {AtSet3, AtLeave} then 1 else 0) \<and>
     (p \<noteq> AtInit \<longrightarrow> section_ready s)"

definition once_inv :: "once \<Rightarrow> bool" where
  "once_inv s \<longleftrightarrow>
     (\<forall>t u. winner_pc (pc s t) \<and> winner_pc (pc s u) \<longrightarrow> t = u) \<and>
     (\<forall>t. winner_pc (pc s t) \<longrightarrow> phase_ok (pc s t) s) \<and>
     ((\<forall>t. \<not> winner_pc (pc s t)) \<longrightarrow>
        (status s = 0 \<and> runs s = 0) \<or> (status s = 3 \<and> runs s = 1 \<and> section_ready s)) \<and>
     (\<forall>t. pc s t = Returned \<longrightarrow> status s = 3 \<and> runs s = 1) \<and>
     (\<forall>t. pc s t \<in> {AtWaitEnter, AtWaitLeave} \<longrightarrow> 2 \<le> status s \<and> section_ready s) \<and>
     (\<forall>t. lock_owner s = Some t \<longleftrightarrow> pc s t \<in> {AtSet2, AtRun, AtSet3, AtLeave, AtWaitLeave})"

lemma once_init_inv: "once_inv once_init"
  by (simp add: once_inv_def once_init_def winner_pc_def)

lemma goto_simps [simp]:
  "pc (goto t p s) = (pc s)(t := p)" "status (goto t p s) = status s" "runs (goto t p s) = runs s"
  "section_ready (goto t p s) = section_ready s" "lock_owner (goto t p s) = lock_owner s"
  by (simp_all add: goto_def)

lemma once_invD:
  assumes "once_inv s"
  shows "winner_pc (pc s t) \<Longrightarrow> winner_pc (pc s u) \<Longrightarrow> t = u"
    and "winner_pc (pc s t) \<Longrightarrow> phase_ok (pc s t) s"
    and "(\<And>t. \<not> winner_pc (pc s t)) \<Longrightarrow>
      (status s = 0 \<and> runs s = 0) \<or> (status s = 3 \<and> runs s = 1 \<and> section_ready s)"
    and "pc s t = Returned \<Longrightarrow> status s = 3 \<and> runs s = 1"
    and "pc s t \<in> {AtWaitEnter, AtWaitLeave} \<Longrightarrow> 2 \<le> status s \<and> section_ready s"
    and "lock_owner s = Some t \<longleftrightarrow> pc s t \<in> {AtSet2, AtRun, AtSet3, AtLeave, AtWaitLeave}"
  using assms unfolding once_inv_def by blast+

lemma once_invI:
  assumes "\<And>t u. winner_pc (pc s t) \<Longrightarrow> winner_pc (pc s u) \<Longrightarrow> t = u"
    and "\<And>t. winner_pc (pc s t) \<Longrightarrow> phase_ok (pc s t) s"
    and "(\<And>t. \<not> winner_pc (pc s t)) \<Longrightarrow>
      (status s = 0 \<and> runs s = 0) \<or> (status s = 3 \<and> runs s = 1 \<and> section_ready s)"
    and "\<And>t. pc s t = Returned \<Longrightarrow> status s = 3 \<and> runs s = 1"
    and "\<And>t. pc s t \<in> {AtWaitEnter, AtWaitLeave} \<Longrightarrow> 2 \<le> status s \<and> section_ready s"
    and "\<And>t. lock_owner s = Some t \<longleftrightarrow> pc s t \<in> {AtSet2, AtRun, AtSet3, AtLeave, AtWaitLeave}"
  shows "once_inv s"
  unfolding once_inv_def using assms by blast

lemma winner_pc_simps [simp]:
  "winner_pc AtInit" "winner_pc AtEnter" "winner_pc AtSet2" "winner_pc AtRun" "winner_pc AtSet3" "winner_pc AtLeave"
  "\<not> winner_pc OutOfCall" "\<not> winner_pc AtTest" "\<not> winner_pc AtSwitch" "\<not> winner_pc AtCas"
  "\<not> winner_pc AtWaitEnter" "\<not> winner_pc AtWaitLeave" "\<not> winner_pc Returned"
  by (simp_all add: winner_pc_def)

text \<open>A step of a thread outside the winner's part that leaves the lock alone.\<close>

lemma loser_step_inv:
  assumes inv: "once_inv s" and t: "\<not> winner_pc (pc s t)" "pc s t \<noteq> AtWaitLeave"
    and p: "\<not> winner_pc p" "p \<noteq> AtWaitLeave" "p = Returned \<longrightarrow> status s = 3 \<and> runs s = 1"
      "p = AtWaitEnter \<longrightarrow> 2 \<le> status s \<and> section_ready s"
  shows "once_inv (goto t p s)"
proof (rule once_invI)
  note d = once_invD[OF inv]
  have same: "winner_pc (pc (goto t p s) u) \<longleftrightarrow> winner_pc (pc s u)" for u using t p by simp
  show "u = v" if "winner_pc (pc (goto t p s) u)" "winner_pc (pc (goto t p s) v)" for u v
    using that d(1) unfolding same by blast
  show "phase_ok (pc (goto t p s) u) (goto t p s)" if "winner_pc (pc (goto t p s) u)" for u
    using that d(2)[of u] p(1) by (cases "u = t") (auto simp: phase_ok_def)
  show "(status (goto t p s) = 0 \<and> runs (goto t p s) = 0) \<or>
      (status (goto t p s) = 3 \<and> runs (goto t p s) = 1 \<and> section_ready (goto t p s))"
    if "\<And>u. \<not> winner_pc (pc (goto t p s) u)"
    using d(3) that unfolding same by simp
  show "status (goto t p s) = 3 \<and> runs (goto t p s) = 1" if "pc (goto t p s) u = Returned" for u
    using that d(4)[of u] p(3) by (cases "u = t") auto
  show "2 \<le> status (goto t p s) \<and> section_ready (goto t p s)" if "pc (goto t p s) u \<in> {AtWaitEnter, AtWaitLeave}" for u
    using that d(5)[of u] p(2,4) by (cases "u = t") auto
  show "lock_owner (goto t p s) = Some u \<longleftrightarrow> pc (goto t p s) u \<in> {AtSet2, AtRun, AtSet3, AtLeave, AtWaitLeave}" for u
    using d(6)[of u] t p by (cases "u = t") (auto simp: winner_pc_def)
qed

text \<open>A step of the winner within its part.\<close>

lemma winner_step_inv:
  assumes inv: "once_inv s" and t: "winner_pc (pc s t)" and lt: "status s \<le> 2"
    and s': "pc s' = (pc s)(t := p)" "winner_pc p" "phase_ok p s'"
      "status s \<le> status s'" "section_ready s \<longrightarrow> section_ready s'"
    and l: "lock_owner s' = Some t \<longleftrightarrow> p \<in> {AtSet2, AtRun, AtSet3, AtLeave}"
      "\<And>u. u \<noteq> t \<Longrightarrow> lock_owner s' = Some u \<longleftrightarrow> lock_owner s = Some u"
  shows "once_inv s'"
proof (rule once_invI)
  note d = once_invD[OF inv]
  have lone: "\<not> winner_pc (pc s u)" if "u \<noteq> t" for u using d(1)[OF t, of u] that by blast
  show "u = v" if "winner_pc (pc s' u)" "winner_pc (pc s' v)" for u v
    using that lone[of u] lone[of v] by (auto simp: s' split: if_splits)
  show "phase_ok (pc s' u) s'" if "winner_pc (pc s' u)" for u
    using that lone[of u] s' by (auto split: if_splits)
  show "(status s' = 0 \<and> runs s' = 0) \<or> (status s' = 3 \<and> runs s' = 1 \<and> section_ready s')"
    if "\<And>u. \<not> winner_pc (pc s' u)"
    using that[of t] s'(1,2) by simp
  show "status s' = 3 \<and> runs s' = 1" if "pc s' u = Returned" for u
    using that s'(1,2) d(4)[of u] lt by (cases "u = t") auto
  show "2 \<le> status s' \<and> section_ready s'" if "pc s' u \<in> {AtWaitEnter, AtWaitLeave}" for u
    using that s' d(5)[of u] by (cases "u = t") auto
  show "lock_owner s' = Some u \<longleftrightarrow> pc s' u \<in> {AtSet2, AtRun, AtSet3, AtLeave, AtWaitLeave}" for u
    using l s'(1,2) d(6)[of u] by (cases "u = t") auto
qed

lemma cas_step_inv:
  assumes inv: "once_inv s" and t: "pc s t = AtCas" and z: "status s = 0"
  shows "once_inv (goto t AtInit (s\<lparr>status := 1\<rparr>))" (is "once_inv ?s")
proof (rule once_invI)
  note d = once_invD[OF inv]
  have lone: "\<not> winner_pc (pc s u)" for u using d(2)[of u] z by (auto simp: phase_ok_def split: if_splits)
  show "u = v" if "winner_pc (pc ?s u)" "winner_pc (pc ?s v)" for u v
    using that lone[of u] lone[of v] by (auto split: if_splits)
  show "phase_ok (pc ?s u) ?s" if "winner_pc (pc ?s u)" for u
    using that lone[of u] d(3)[OF lone] z by (auto simp: phase_ok_def split: if_splits)
  show "(status ?s = 0 \<and> runs ?s = 0) \<or> (status ?s = 3 \<and> runs ?s = 1 \<and> section_ready ?s)"
    if "\<And>u. \<not> winner_pc (pc ?s u)"
    using that[of t] by simp
  show "status ?s = 3 \<and> runs ?s = 1" if "pc ?s u = Returned" for u
    using that d(4)[of u] z by (cases "u = t") auto
  show "2 \<le> status ?s \<and> section_ready ?s" if "pc ?s u \<in> {AtWaitEnter, AtWaitLeave}" for u
    using that d(5)[of u] z by (cases "u = t") auto
  show "lock_owner ?s = Some u \<longleftrightarrow> pc ?s u \<in> {AtSet2, AtRun, AtSet3, AtLeave, AtWaitLeave}" for u
    using d(6)[of u] t by (cases "u = t") auto
qed

text \<open>The winner returns.\<close>

lemma leave_step_inv:
  assumes inv: "once_inv s" and t: "pc s t = AtLeave"
  shows "once_inv (goto t Returned (s\<lparr>lock_owner := None\<rparr>))" (is "once_inv ?s")
proof (rule once_invI)
  note d = once_invD[OF inv]
  have w: "winner_pc (pc s t)" using t by simp
  have lone: "\<not> winner_pc (pc s u)" if "u \<noteq> t" for u using d(1)[OF w, of u] that by blast
  have ph: "status s = 3" "runs s = 1" "section_ready s" using d(2)[OF w] t by (auto simp: phase_ok_def)
  have lo: "lock_owner s = Some t" using d(6)[of t] t by simp
  show "u = v" if "winner_pc (pc ?s u)" "winner_pc (pc ?s v)" for u v
    using that lone[of u] by (auto split: if_splits)
  show "phase_ok (pc ?s u) ?s" if "winner_pc (pc ?s u)" for u
    using that lone[of u] by (auto split: if_splits)
  show "(status ?s = 0 \<and> runs ?s = 0) \<or> (status ?s = 3 \<and> runs ?s = 1 \<and> section_ready ?s)"
    using ph by simp
  show "status ?s = 3 \<and> runs ?s = 1" using ph by simp
  show "2 \<le> status ?s \<and> section_ready ?s" using ph by simp
  show "lock_owner ?s = Some u \<longleftrightarrow> pc ?s u \<in> {AtSet2, AtRun, AtSet3, AtLeave, AtWaitLeave}" for u
    using d(6)[of u] lo by (cases "u = t") auto
qed

text \<open>A waiter takes the lock once it is free, and gives it back.\<close>

lemma waiter_step_inv:
  assumes inv: "once_inv s" and t: "pc s t = AtWaitEnter \<and> lock_owner s = None \<and> p = AtWaitLeave \<and> l = Some t
      \<or> pc s t = AtWaitLeave \<and> p = AtTest \<and> l = None"
  shows "once_inv (goto t p (s\<lparr>lock_owner := l\<rparr>))" (is "once_inv ?s")
proof (rule once_invI)
  note d = once_invD[OF inv]
  have same: "winner_pc (pc ?s u) \<longleftrightarrow> winner_pc (pc s u)" for u using t by auto
  show "u = v" if "winner_pc (pc ?s u)" "winner_pc (pc ?s v)" for u v
    using that d(1) unfolding same by blast
  show "phase_ok (pc ?s u) ?s" if "winner_pc (pc ?s u)" for u
    using that d(2)[of u] t by (cases "u = t") (auto simp: phase_ok_def)
  show "(status ?s = 0 \<and> runs ?s = 0) \<or> (status ?s = 3 \<and> runs ?s = 1 \<and> section_ready ?s)"
    if "\<And>u. \<not> winner_pc (pc ?s u)"
    using d(3) that unfolding same by simp
  show "status ?s = 3 \<and> runs ?s = 1" if "pc ?s u = Returned" for u
    using that d(4)[of u] t by (cases "u = t") auto
  show "2 \<le> status ?s \<and> section_ready ?s" if "pc ?s u \<in> {AtWaitEnter, AtWaitLeave}" for u
    using that d(5)[of u] d(5)[of t] t by (cases "u = t") auto
  show "lock_owner ?s = Some u \<longleftrightarrow> pc ?s u \<in> {AtSet2, AtRun, AtSet3, AtLeave, AtWaitLeave}" for u
    using d(6)[of u] d(6)[of t] t by (cases "u = t") auto
qed

lemma once_step_inv:
  assumes inv: "once_inv s" and step: "once_step t s = Some s'"
  shows "once_inv s'"
proof (cases "winner_pc (pc s t)")
  case True
  note ph = once_invD(2)[OF inv True] and lo = once_invD(6)[OF inv, of t]
  show ?thesis
  proof (cases "pc s t = AtLeave")
    case True
    then show ?thesis using step leave_step_inv[OF inv True] by (simp add: once_step_def)
  next
    case False
    have "\<exists>p. pc s' = (pc s)(t := p) \<and> winner_pc p \<and> phase_ok p s' \<and> status s \<le> 2 \<and> status s \<le> status s' \<and>
        (section_ready s \<longrightarrow> section_ready s') \<and>
        (lock_owner s' = Some t \<longleftrightarrow> p \<in> {AtSet2, AtRun, AtSet3, AtLeave}) \<and>
        (\<forall>u. u \<noteq> t \<longrightarrow> lock_owner s' = Some u \<longleftrightarrow> lock_owner s = Some u)"
    proof (cases "pc s t = AtInit")
      case init: True
      have st: "status s = 1" using ph init by (simp add: phase_ok_def)
      have "lock_owner s \<noteq> Some u" for u
      proof
        assume "lock_owner s = Some u"
        then have u: "pc s u \<in> {AtSet2, AtRun, AtSet3, AtLeave, AtWaitLeave}"
          using once_invD(6)[OF inv, of u] by blast
        show False
        proof (cases "pc s u = AtWaitLeave")
          case True
          then show False using once_invD(5)[OF inv, of u] st by simp
        next
          case False
          then have "winner_pc (pc s u)" using u by auto
          then have "u = t" using once_invD(1)[OF inv True, of u] by simp
          then show False using u init by simp
        qed
      qed
      then have "lock_owner s = None" by (cases "lock_owner s") auto
      then show ?thesis using step ph init
        by (intro exI[of _ AtEnter]) (auto simp: once_step_def phase_ok_def)
    next
      case ninit: False
      then consider "pc s t = AtEnter" | "pc s t = AtSet2" | "pc s t = AtRun" | "pc s t = AtSet3"
        using True False by (auto simp: winner_pc_def)
      then show ?thesis
      proof cases
        case 1
        then show ?thesis using step ph
          by (intro exI[of _ AtSet2]) (simp add: once_step_def phase_ok_def split: if_splits, auto)
      next
        case 2
        then show ?thesis using step ph lo
          by (intro exI[of _ AtRun]) (simp add: once_step_def phase_ok_def, auto)
      next
        case 3
        then show ?thesis using step ph lo
          by (intro exI[of _ AtSet3]) (simp add: once_step_def phase_ok_def, auto)
      next
        case 4
        then show ?thesis using step ph lo
          by (intro exI[of _ AtLeave]) (simp add: once_step_def phase_ok_def, auto)
      qed
    qed
    then obtain p where p: "pc s' = (pc s)(t := p)" "winner_pc p" "phase_ok p s'" "status s \<le> 2"
        "status s \<le> status s'" "section_ready s \<longrightarrow> section_ready s'"
        "lock_owner s' = Some t \<longleftrightarrow> p \<in> {AtSet2, AtRun, AtSet3, AtLeave}"
        "\<And>u. u \<noteq> t \<Longrightarrow> lock_owner s' = Some u \<longleftrightarrow> lock_owner s = Some u"
      by blast
    show ?thesis by (rule winner_step_inv[OF inv True p(4) p(1,2,3,5,6,7,8)])
  qed
next
  case False
  note w = once_invD(5)[OF inv, of t] and n = once_invD(3)[OF inv]
  show ?thesis
  proof (cases "pc s t")
    case AtTest
    have "status s = 3 \<and> runs s = 1" if "\<not> status s < 3"
    proof (cases "\<forall>u. \<not> winner_pc (pc s u)")
      case True
      then show ?thesis using n that by auto
    next
      case False
      then obtain u where u: "winner_pc (pc s u)" by blast
      then show ?thesis using once_invD(2)[OF inv u] that by (auto simp: phase_ok_def winner_pc_def split: if_splits)
    qed
    then show ?thesis using step AtTest loser_step_inv[OF inv False, of AtSwitch] loser_step_inv[OF inv False, of Returned]
      by (auto simp: once_step_def split: if_splits)
  next
    case AtSwitch
    have "section_ready s" if "status s = 2"
    proof (cases "\<forall>u. \<not> winner_pc (pc s u)")
      case True
      then show ?thesis using n that by auto
    next
      case False
      then obtain u where u: "winner_pc (pc s u)" by blast
      then show ?thesis using once_invD(2)[OF inv u] that by (auto simp: phase_ok_def split: if_splits)
    qed
    then show ?thesis using step AtSwitch loser_step_inv[OF inv False, of AtCas] loser_step_inv[OF inv False, of AtTest]
        loser_step_inv[OF inv False, of AtWaitEnter]
      by (auto simp: once_step_def split: if_splits)
  next
    case AtCas
    then show ?thesis using step cas_step_inv[OF inv AtCas] loser_step_inv[OF inv False, of AtTest]
      by (auto simp: once_step_def split: if_splits)
  next
    case OutOfCall
    then show ?thesis using step loser_step_inv[OF inv False, of AtTest] by (auto simp: once_step_def)
  next
    case AtWaitEnter
    then show ?thesis using step waiter_step_inv[OF inv, of t AtWaitLeave "Some t"]
      by (auto simp: once_step_def split: if_splits)
  next
    case AtWaitLeave
    then show ?thesis using step waiter_step_inv[OF inv, of t AtTest None] by (auto simp: once_step_def)
  next
    case Returned
    then show ?thesis using step by (simp add: once_step_def)
  qed (use False in simp_all)
qed

lemma once_reachable_inv: "once_reachable s \<Longrightarrow> once_inv s"
  by (induction rule: once_reachable.induct) (auto simp: once_init_inv once_step_inv)

lemma once_runs_le: "once_inv s \<Longrightarrow> runs s \<le> 1"
  using once_invD(2,3)[of s] by (cases "\<exists>t. winner_pc (pc s t)") (auto simp: phase_ok_def)

end
