(* ===== verification/Debug.thy ===== *)
theory Debug
  imports Callback
begin

text \<open>
  \<^verbatim>\<open>optional.h\<close> and \<^verbatim>\<open>debug.cpp\<close>: the class \<^verbatim>\<open>Optional\<close>, which the rest of the development
  reads as HOL's \<open>option\<close> (this theory shows that it may), the log level and the printing of
  log messages through a buffer of fixed size.
\<close>

section \<open>Optional\<close>

text \<open>The class keeps a value beside the flag; \<open>d\<close> is what \<^verbatim>\<open>T()\<close> makes.\<close>

record 'a Optional =
  opt_has :: bool
  opt_value :: 'a

definition Optional_default :: "'a \<Rightarrow> 'a Optional" where
  "Optional_default d = \<lparr>opt_has = False, opt_value = d\<rparr>"

definition Optional_of :: "'a \<Rightarrow> 'a Optional" where
  "Optional_of val = \<lparr>opt_has = True, opt_value = val\<rparr>"

definition Optional_deref :: "'a Optional \<Rightarrow> 'a" where
  "Optional_deref x = opt_value x"

definition Optional_assign :: "'a \<Rightarrow> 'a Optional \<Rightarrow> 'a Optional" where
  "Optional_assign val x = x\<lparr>opt_value := val, opt_has := True\<rparr>"

definition Optional_has_value :: "'a Optional \<Rightarrow> bool" where
  "Optional_has_value x = opt_has x"

definition Optional_reset :: "'a \<Rightarrow> 'a Optional \<Rightarrow> 'a Optional" where
  "Optional_reset d x = x\<lparr>opt_value := d, opt_has := False\<rparr>"

text \<open>What the rest of the development writes for it.\<close>

definition opt_abs :: "'a Optional \<Rightarrow> 'a option" where
  "opt_abs x = (if opt_has x then Some (opt_value x) else None)"

section \<open>Log levels\<close>

datatype LogLevel = LOG_OFF | LOG_ERROR | LOG_WARN | LOG_INFO | LOG_DEBUG

fun level_number :: "LogLevel \<Rightarrow> nat" where
  "level_number LOG_OFF = 0"
| "level_number LOG_ERROR = 1"
| "level_number LOG_WARN = 2"
| "level_number LOG_INFO = 3"
| "level_number LOG_DEBUG = 4"

fun level_name :: "LogLevel \<Rightarrow> string" where
  "level_name LOG_OFF = ''OFF''"
| "level_name LOG_ERROR = ''ERROR''"
| "level_name LOG_WARN = ''WARN''"
| "level_name LOG_INFO = ''INFO''"
| "level_name LOG_DEBUG = ''DEBUG''"

text \<open>\<open>log_level\<close>: the new level is stored before the name of the old one is answered.\<close>

definition log_level :: "string \<Rightarrow> LogLevel \<Rightarrow> (exn + string) \<times> LogLevel" where
  "log_level level old_level =
     (if level = '''' then (Inr (level_name old_level), old_level)
      else if level = ''OFF'' then (Inr (level_name old_level), LOG_OFF)
      else if level = ''ERROR'' then (Inr (level_name old_level), LOG_ERROR)
      else if level = ''WARN'' then (Inr (level_name old_level), LOG_WARN)
      else if level = ''INFO'' then (Inr (level_name old_level), LOG_INFO)
      else if level = ''DEBUG'' then (Inr (level_name old_level), LOG_DEBUG)
      else (Inl (UnwindException ''Unknown value for `level`''), old_level))"

section \<open>Printing\<close>

definition max_size :: nat where
  "max_size = 4096"

text \<open>
  \<^verbatim>\<open>vsnprintf\<close> stores what fits with a terminating zero and answers the length of the whole
  text, or \<open>-1\<close> (here \<open>None\<close>).
\<close>

definition vsnprintf :: "nat \<Rightarrow> string option \<Rightarrow> string \<times> int" where
  "vsnprintf sz formatted =
     (case formatted of
        None \<Rightarrow> ([], -1)
      | Some s \<Rightarrow> (take (sz - 1) s @ [CHR 0x00], int (length s)))"

text \<open>
  \<open>err_printf\<close> hands \<open>n\<close> bytes of the buffer to \<^verbatim>\<open>write\<close>; \<open>None\<close> is a read past its end.
\<close>

definition err_printf :: "string option \<Rightarrow> string option" where
  "err_printf formatted =
     (let (buf, n) = vsnprintf max_size formatted
      in if n = -1 then Some []
         else if n > int max_size then None
         else Some (take (nat n) buf))"

definition DEBUG_LOG :: "string \<Rightarrow> LogLevel \<Rightarrow> LogLevel \<Rightarrow> string option" where
  "DEBUG_LOG msg level current =
     (if level_number current \<ge> level_number level then err_printf (Some (msg @ [CHR 0x0A]))
      else Some [])"

section \<open>Facts\<close>

lemma level_name_inj: "level_name a = level_name b \<longleftrightarrow> a = b"
  by (cases a; cases b) simp_all

lemma log_level_name: "log_level (level_name l) old = (Inr (level_name old), l)"
  by (cases l) (simp_all add: log_level_def)

lemma log_level_unknown:
  assumes "level \<noteq> ''''" and "\<forall>l. level \<noteq> level_name l"
  shows "log_level level old = (Inl (UnwindException ''Unknown value for `level`''), old)"
proof -
  have "level \<noteq> ''OFF'' \<and> level \<noteq> ''ERROR'' \<and> level \<noteq> ''WARN'' \<and> level \<noteq> ''INFO'' \<and> level \<noteq> ''DEBUG''"
    using assms(2) level_name.simps by metis
  with assms(1) show ?thesis by (simp add: log_level_def)
qed

lemma err_printf_short: "length s < max_size \<Longrightarrow> err_printf (Some s) = Some s"
  by (simp add: err_printf_def vsnprintf_def max_size_def)

lemma err_printf_long: "length s > max_size \<Longrightarrow> err_printf (Some s) = None"
  by (simp add: err_printf_def vsnprintf_def)

lemma err_printf_exact: "length s = max_size \<Longrightarrow> err_printf (Some s) = Some (butlast s @ [CHR 0x00])"
  by (simp add: err_printf_def vsnprintf_def max_size_def butlast_conv_take)

end
