(* ===== verification/Threads.thy ===== *)
theory Threads
  imports ThreadUtils ThreadStorage CallOnce Debug
begin

text \<open>
  What the thread library, its C++ wrappers and the debug printing promise, and where they
  fall short.
\<close>

section \<open>Mutexes\<close>

text \<open>
  C37. The Windows mutexes exclude: a free one can be locked, then no other thread gets it - it
  blocks, or is told \<^verbatim>\<open>busy\<close> - and unlocking gives back exactly the free mutex. A plain mutex
  that is not recursive is not handed to its own holder again either.
\<close>

theorem win32_mutex_excludes:
  assumes "mtx_free m" and "\<not> mTimed m"
  shows "\<exists>m1. tct_mtx_lock_win32 a t m = Some (Thrd_success, m1) \<and> tct_mtx_trylock_win32 t m = Some (Thrd_success, m1) \<and>
    tct_mtx_unlock_win32 t m1 = (Thrd_success, m) \<and>
    (\<forall>u. u \<noteq> t \<or> \<not> mRecursive m \<longrightarrow>
       tct_mtx_lock_win32 a u m1 = None \<and> tct_mtx_trylock_win32 u m1 = Some (Thrd_busy, m1))"
proof -
  let ?m1 = "m\<lparr>cs_owner := Some t, cs_count := 1, mAlreadyLocked := \<not> mRecursive m\<rparr>"
  have "tct_mtx_lock_win32 a t m = Some (Thrd_success, ?m1)" using assms by (intro lock_free) simp_all
  moreover have "tct_mtx_trylock_win32 t m = Some (Thrd_success, ?m1)"
    using assms by (simp add: mtx_free_def tct_mtx_trylock_win32_def os_enter_def)
  moreover have "tct_mtx_unlock_win32 t ?m1 = (Thrd_success, m)"
    using unlock_restores[OF assms(1), of t "\<not> mRecursive m"] by simp
  moreover have "tct_mtx_lock_win32 a u ?m1 = None \<and> tct_mtx_trylock_win32 u ?m1 = Some (Thrd_busy, ?m1)"
    if "u \<noteq> t \<or> \<not> mRecursive m" for u
  proof (cases "mRecursive m")
    case True
    then show ?thesis using that assms(2)
      by (auto simp: tct_mtx_lock_win32_def tct_mtx_trylock_win32_def os_enter_def)
  next
    case False
    then show ?thesis using trylock_held_plain[OF assms(1) False assms(2), of u t] lock_held_plain[OF False assms(2), of a u t]
      by simp
  qed
  ultimately show ?thesis by blast
qed

definition plain_mtx :: win_mtx where
  "plain_mtx = snd (tct_mtx_init_win32 False False True
     \<lparr>mTimed = True, mRecursive = True, mAlreadyLocked = True, cs_owner = None, cs_count = 0\<rparr>)"

theorem win32_mutex_excludes_witness:
  "\<exists>m1. tct_mtx_lock_win32 Object0 1 plain_mtx = Some (Thrd_success, m1) \<and> tct_mtx_lock_win32 Object0 2 m1 = None"
proof -
  have "mtx_free plain_mtx" "\<not> mTimed plain_mtx" "\<not> mRecursive plain_mtx" by code_simp+
  from win32_mutex_excludes[OF this(1,2)] this(3) show ?thesis by metis
qed

text \<open>
  C38. A guard on a recursive mutex gives back exactly the level it took, however deep the
  guards are nested, when the block returns or throws; a block left by \<^verbatim>\<open>longjmp\<close> leaves the
  mutex one level deeper.
\<close>

theorem guard_gives_back:
  assumes "held_by t n m"
    and "\<And>m1 x m2 s2. held_by t (Suc n) m1 \<Longrightarrow> body (m1, s) = Some (x, m2, s2) \<Longrightarrow> held_by t (Suc n) m2"
    and "guarded (tct_mtx_lock_win32 Object0 t) (tct_mtx_unlock_win32 t) body (m, s) = Some (x, m', s')"
  shows "held_by t (if leaves_frame x then n else Suc n) m'"
  by (rule recursive.guarded_balanced[OF assms(1) _ assms(3)]) (fact assms(2))

definition recursive_mtx :: win_mtx where
  "recursive_mtx = \<lparr>mTimed = False, mRecursive = True, mAlreadyLocked = False, cs_owner = None, cs_count = 0\<rparr>"

theorem guard_gives_back_witness:
  "\<exists>m'. guarded (tct_mtx_lock_win32 Object0 1) (tct_mtx_unlock_win32 1)
      (\<lambda>(m, s). Some (Inl (Longjmp ''interrupt'') :: exn + unit, m, s)) (recursive_mtx, ()) =
      Some (Inl (Longjmp ''interrupt''), m', ()) \<and> held_by 1 1 m'"
proof -
  let ?body = "\<lambda>(m, s). Some (Inl (Longjmp ''interrupt'') :: exn + unit, m, s)"
  have h: "held_by 1 0 recursive_mtx" by (simp add: held_by_def recursive_mtx_def)
  obtain m' where g: "guarded (tct_mtx_lock_win32 Object0 1) (tct_mtx_unlock_win32 1) ?body (recursive_mtx, ()) =
      Some (Inl (Longjmp ''interrupt''), m', ())"
    by (simp add: guarded_def tct_mtx_lock_win32_def os_enter_def mark_locked_def recursive_mtx_def Mutex_lock_def
        throw_unless_success_def leaves_frame_def)
  have "held_by 1 1 m'" using guard_gives_back[OF h _ g] by (simp add: leaves_frame_def)
  with g show ?thesis by blast
qed

section \<open>Condition variables\<close>

text \<open>
  C39. Waiting on a Windows condition variable: if whatever happens during the wait leaves the
  mutex free, the caller has the mutex again however the wait ends; but only a wait that was
  signalled is taken off the count of waiters - one that timed out or failed stays on it.
\<close>

theorem win32_wait_relocks:
  assumes "mtx_free m" and "held = m\<lparr>cs_owner := Some t, cs_count := 1, mAlreadyLocked := \<not> mRecursive m\<rparr>"
    and "\<And>c' m'. snd (env (c', m')) = m' \<and> mWaitersCount (fst (env (c', m'))) = mWaitersCount c'"
  shows "\<exists>res c'. cnd_timedwait_win32 t env result reset_ok (c, held) = Some (res, c', held) \<and>
    mWaitersCount c' = mWaitersCount c + (if result = SignalOne \<or> result = SignalAll then 0 else 1)"
proof -
  have b: "cnd_before t (c, held) = (c\<lparr>mWaitersCount := mWaitersCount c + 1\<rparr>, m)"
    using unlock_restores[OF assms(1), of t "\<not> mRecursive m"] by (simp add: cnd_before_def assms(2))
  have e: "snd (env (cnd_before t (c, held))) = m"
    "mWaitersCount (fst (env (cnd_before t (c, held)))) = mWaitersCount c + 1"
    using assms(3) unfolding b by simp_all
  from cnd_timedwait_relocks[where env = env and t = t and c = c and m = m and result = result and reset_ok = reset_ok,
      folded assms(2), OF assms(1) refl e(1)] e(2)
  show ?thesis by (auto simp: algebra_simps)
qed

theorem win32_wait_relocks_witness:
  "\<exists>res c'. cnd_timedwait_win32 1 (\<lambda>x. x) CndTimeout True
      (\<lparr>mWaitersCount = 0, has_one = True, has_all = True, event_one = False, event_all = False\<rparr>,
       plain_mtx\<lparr>cs_owner := Some 1, cs_count := 1, mAlreadyLocked := \<not> mRecursive plain_mtx\<rparr>) =
      Some (res, c', plain_mtx\<lparr>cs_owner := Some 1, cs_count := 1, mAlreadyLocked := \<not> mRecursive plain_mtx\<rparr>) \<and>
    mWaitersCount c' = 1"
proof -
  have m: "mtx_free plain_mtx" by code_simp
  have e: "snd ((\<lambda>x. x) (c', m')) = m' \<and> mWaitersCount (fst ((\<lambda>x. x) (c', m'))) = mWaitersCount c'" for c' :: win_cnd and m' :: win_mtx
    by simp
  from win32_wait_relocks[OF m refl, where env = "\<lambda>x. x", OF e, of 1 CndTimeout True
      "\<lparr>mWaitersCount = 0, has_one = True, has_all = True, event_one = False, event_all = False\<rparr>"]
  show ?thesis by simp
qed

section \<open>call_once\<close>

lemma blocked_owner_moves:
  assumes "once_inv s" and "pc s t \<noteq> Returned" and "once_step t s = None"
  shows "\<exists>u s'. lock_owner s = Some u \<and> once_step u s = Some s'"
proof -
  have "lock_owner s \<noteq> None" using assms(2,3) by (auto simp: once_step_def split: once_pc.splits if_splits)
  then obtain u where u: "lock_owner s = Some u" by blast
  then have "pc s u \<in> {AtSet2, AtRun, AtSet3, AtLeave, AtWaitLeave}" using once_invD(6)[OF assms(1), of u] by blast
  then have "\<exists>s'. once_step u s = Some s'" by (auto simp: once_step_def)
  with u show ?thesis by blast
qed

text \<open>
  C36. \<open>tct_call_once\<close>, called by any number of threads in any interleaving: the function runs
  at most once, no two threads are in it, a caller returns only after it has run, and a caller
  that is blocked waits for a thread that can go on.
\<close>

theorem call_once_runs_once:
  assumes "once_reachable s"
  shows "runs s \<le> 1 \<and> (\<forall>t u. pc s t = AtRun \<and> pc s u = AtRun \<longrightarrow> t = u) \<and>
    (\<forall>t. pc s t = Returned \<longrightarrow> runs s = 1) \<and>
    (\<forall>t. pc s t \<noteq> Returned \<and> once_step t s = None \<longrightarrow> (\<exists>u s'. lock_owner s = Some u \<and> once_step u s = Some s'))"
proof -
  note inv = once_reachable_inv[OF assms]
  have "t = u" if "pc s t = AtRun" "pc s u = AtRun" for t u
    using once_invD(1)[OF inv, of t u] that by simp
  moreover have "runs s = 1" if "pc s t = Returned" for t using once_invD(4)[OF inv that] by blast
  ultimately show ?thesis using once_runs_le[OF inv] blocked_owner_moves[OF inv] by blast
qed

theorem call_once_runs_once_witness: "runs (the (once_step 0 once_init)) \<le> 1"
proof -
  have "once_step 0 once_init = Some (goto 0 AtTest once_init)" by (simp add: once_step_def once_init_def)
  then have "once_reachable (the (once_step 0 once_init))"
    using once_reachable.step[OF once_reachable.start, of 0] by simp
  from call_once_runs_once[OF this] show ?thesis by blast
qed

section \<open>Thread-specific storage\<close>

text \<open>
  C40. Thread-specific storage on Windows answers what was set last, key by key; but it loses
  values: once several keys have been set on one thread, the list that the end of the thread
  walks holds the first and the last only, so no other destructor is called, and deleting a
  key between them runs off the list.
\<close>

theorem tss_loses_nodes:
  assumes "distinct (map fst kvs)" and "2 \<le> length kvs" and "\<forall>(k, v) \<in> set kvs. v \<noteq> 0"
  shows "\<exists>s. set_keys kvs (tss_fresh\<lparr>tss_dtors := (\<lambda>_. True)\<rparr>) = Some s \<and>
    (\<forall>(k, v) \<in> set kvs. tct_tss_get k s = Some v) \<and> tss_list s = Some [0, length kvs - 1] \<and>
    map_option snd (tss_cleanup s) = Some [hd kvs, last kvs] \<and>
    (\<forall>i. 0 < i \<and> i < length kvs - 1 \<longrightarrow> tct_tss_delete (fst (kvs ! i)) s = None)"
proof -
  from set_keys_chain[OF assms(1), of "\<lambda>_. True"] obtain s where
    s: "set_keys kvs (tss_fresh\<lparr>tss_dtors := (\<lambda>_. True)\<rparr>) = Some s" "tss_chain kvs s" "tss_dtors s = (\<lambda>_. True)" by blast
  have "\<forall>(k, v) \<in> set kvs. v \<noteq> 0 \<and> tss_dtors s k" using assms(3) s(3) by auto
  then show ?thesis
    using s(1) tss_chain_get[OF s(2)] tss_chain_list[OF s(2) assms(2)] tss_chain_cleanup[OF s(2) assms(2)]
      tss_chain_delete[OF s(2)] by auto
qed

theorem tss_loses_nodes_witness:
  "\<exists>s. set_keys [(1, 10), (2, 20), (3, 30)] (tss_fresh\<lparr>tss_dtors := (\<lambda>_. True)\<rparr>) = Some s \<and>
     map_option snd (tss_cleanup s) = Some [(1, 10), (3, 30)] \<and> tct_tss_delete 2 s = None"
  using tss_loses_nodes[of "[(1, 10), (2, 20), (3, 30)]"] by fastforce

section \<open>Sleeping and waiting times\<close>

text \<open>
  On Windows \<open>tct_thrd_sleep\<close> reports the time that has passed where its documentation
  promises the time that remains.
\<close>

lemma sleep_remaining_is_elapsed:
  "ts_normal start \<Longrightarrow> ts_normal now \<Longrightarrow>
   ts_normal (sleep_remaining start now) \<and> ts_ns (sleep_remaining start now) = ts_ns now - ts_ns start"
  by (cases start; cases now) (auto simp: sleep_remaining_def ts_normal_def ts_ns_def Let_def)

text \<open>A wait of exactly \<open>2 ^ 32\<close> milliseconds on Windows does not wait at all.\<close>

lemma cnd_delta_wraps: "cnd_delta (Timespec 4294967 296000000) (Timespec 0 0) = 0"
  by code_simp

text \<open>The polling fallback naps for at most five milliseconds at a time.\<close>

lemma nap_short:
  assumes "ts_normal ts" "ts_normal cur" "\<not> expired ts cur"
  shows "tv_sec (nap ts cur) = 0 \<and> 0 \<le> tv_nsec (nap ts cur) \<and> tv_nsec (nap ts cur) \<le> 5000000"
  using assms by (cases ts; cases cur) (auto simp: nap_def expired_def ts_normal_def Let_def)

lemma timedlock_polling_naps:
  assumes "timedlock_polling as ts = Some (res, naps)" and "ts_normal ts" and "\<forall>a \<in> set as. ts_normal (snd a)"
  shows "\<forall>d \<in> set naps. tv_sec d = 0 \<and> 0 \<le> tv_nsec d \<and> tv_nsec d \<le> 5000000"
  using assms
proof (induction as ts arbitrary: naps rule: timedlock_polling.induct)
  case (2 rc cur rest ts)
  then show ?case using nap_short[of ts cur] by (auto split: if_splits)
qed simp

section \<open>Init and destroy\<close>

text \<open>They balance on success; when an event cannot be made the critical section is left over.\<close>

lemma cnd_init_destroy:
  "tct_cnd_init_win32 one_ok all_ok (c, s) = (res, c1, s1) \<Longrightarrow>
   (res = Thrd_success \<longrightarrow> tct_cnd_destroy_win32 c1 s1 = s) \<and>
   (res \<noteq> Thrd_success \<longrightarrow> open_handles s1 = open_handles s \<and> open_sections s1 = Suc (open_sections s))"
  by (auto simp: tct_cnd_init_win32_def tct_cnd_destroy_win32_def Let_def split: if_splits)

section \<open>Printing\<close>

text \<open>
  \<open>err_printf\<close> writes the text exactly if it has less than 4096 characters; at 4096 the
  last one comes out as a zero byte, and beyond that the write reads past the buffer.
\<close>

lemma err_printf_bounds:
  "err_printf (Some s) =
     (if length s < max_size then Some s
      else if length s = max_size then Some (butlast s @ [CHR 0x00])
      else None)"
  using err_printf_short[of s] err_printf_exact[of s] err_printf_long[of s] by auto

end
