(* ===== verification/LaterApi.thy ===== *)
theory LaterApi
  imports QueueSpec
begin

text \<open>
  \<^verbatim>\<open>inst/include/later2_api.h\<close>, which is compiled into other packages: \<open>later()\<close> and
  \<open>later_fd()\<close> find the package's functions by name on their first call, and the class
  \<open>BackgroundTask\<close> runs work on a thread and its completion on the main thread. At the other
  end, \<open>later_init\<close> of \<^verbatim>\<open>later2.cpp\<close> registers the functions.
\<close>

section \<open>Finding the functions\<close>

text \<open>R's table of C functions of the package, by name; a lookup of a missing one is an R error.\<close>

definition later_init :: "string list \<Rightarrow> string list" where
  "later_init callables =
     (let c1 = callables @ [''execLaterNative2'']; c2 = c1 @ [''execLaterFdNative''] in c2 @ [''apiVersion''])"

definition R_GetCCallable :: "string list \<Rightarrow> string \<Rightarrow> exn + unit" where
  "R_GetCCallable callables name =
     (if name \<in> set callables then Inr ()
      else Inl (Longjmp (''function '' @ name @ '' not provided by package later2'')))"

text \<open>The static variables of one compilation unit that includes the header.\<close>

record api_unit =
  eln :: bool
  elfdn :: bool
  api_log :: "string list"

text \<open>
  \<open>later\<close>: \<^verbatim>\<open>NULL\<close> for the function (here \<open>None\<close>) asks only for the lookup. The id that
  \<^verbatim>\<open>execLaterNative2\<close> answers is dropped.
\<close>

definition find_eln :: "string list \<Rightarrow> bool \<Rightarrow> api_unit \<Rightarrow> (exn + unit) \<times> api_unit" where
  "find_eln callables has_func u =
     (if eln u then (Inr (), u)
      else let u1 = (if has_func
                     then u\<lparr>api_log := api_log u @
                            [''Warning: later2::execLaterNative2 called in uninitialized state.'']\<rparr>
                     else u)
           in case R_GetCCallable callables ''execLaterNative2'' of
                Inl e \<Rightarrow> (Inl e, u1)
              | Inr _ \<Rightarrow> (Inr (), u1\<lparr>eln := True\<rparr>))"

definition later ::
    "string list \<Rightarrow> prog option \<Rightarrow> double \<Rightarrow> int \<Rightarrow> api_unit \<times> world \<Rightarrow> (exn + unit) \<times> api_unit \<times> world" where
  "later callables f secs loop_id = (\<lambda>(u, w).
     (case find_eln callables (f \<noteq> None) u of
        (Inl e, u1) \<Rightarrow> (Inl e, u1, w)
      | (Inr _, u1) \<Rightarrow>
          (case f of
             None \<Rightarrow> (Inr (), u1, w)
           | Some p \<Rightarrow>
               let (x, w1) = execLaterNative2 p secs loop_id w
               in (case x of Inl e \<Rightarrow> Inl e | Inr _ \<Rightarrow> Inr (), u1, w1))))"

definition later_global ::
    "string list \<Rightarrow> prog option \<Rightarrow> double \<Rightarrow> api_unit \<times> world \<Rightarrow> (exn + unit) \<times> api_unit \<times> world" where
  "later_global callables f secs = later callables f secs GLOBAL_LOOP"

definition find_elfdn :: "string list \<Rightarrow> bool \<Rightarrow> api_unit \<Rightarrow> (exn + unit) \<times> api_unit" where
  "find_elfdn callables has_func u =
     (if elfdn u then (Inr (), u)
      else let u1 = (if has_func
                     then u\<lparr>api_log := api_log u @
                            [''Warning: later2::execLaterFdNative called in uninitialized state.'']\<rparr>
                     else u)
           in case R_GetCCallable callables ''execLaterFdNative'' of
                Inl e \<Rightarrow> (Inl e, u1)
              | Inr _ \<Rightarrow> (Inr (), u1\<lparr>elfdn := True\<rparr>))"

definition later_fd ::
    "string list \<Rightarrow> (int list \<Rightarrow> prog) option \<Rightarrow> pollfd list \<Rightarrow> double \<Rightarrow> int \<Rightarrow> api_unit \<times> world
      \<Rightarrow> (exn + unit) \<times> api_unit \<times> world" where
  "later_fd callables f fds secs loop_id = (\<lambda>(u, w).
     (case find_elfdn callables (f \<noteq> None) u of
        (Inl e, u1) \<Rightarrow> (Inl e, u1, w)
      | (Inr _, u1) \<Rightarrow>
          (case f of
             None \<Rightarrow> (Inr (), u1, w)
           | Some p \<Rightarrow>
               let (x, w1) = execLaterFdNative p fds secs loop_id w
               in (case x of Inl e \<Rightarrow> Inl e | Inr _ \<Rightarrow> Inr (), u1, w1))))"

definition later_fd_global ::
    "string list \<Rightarrow> (int list \<Rightarrow> prog) option \<Rightarrow> pollfd list \<Rightarrow> double \<Rightarrow> api_unit \<times> world
      \<Rightarrow> (exn + unit) \<times> api_unit \<times> world" where
  "later_fd_global callables f fds secs = later_fd callables f fds secs GLOBAL_LOOP"

text \<open>The constructor of the static object \<^verbatim>\<open>init\<close>.\<close>

definition LaterInitializer :: "string list \<Rightarrow> api_unit \<times> world \<Rightarrow> (exn + unit) \<times> api_unit \<times> world" where
  "LaterInitializer callables uw =
     (case later_global callables None (Fin 0) uw of
        (Inl e, uw1) \<Rightarrow> (Inl e, uw1)
      | (Inr _, uw1) \<Rightarrow> later_fd_global callables None [] (Fin 0) uw1)"

definition LATER2_H_API_VERSION :: int where
  "LATER2_H_API_VERSION = 0 * 10000 + 1 * 100 + 0"

section \<open>BackgroundTask\<close>

text \<open>
  A task object: its fields (which \<open>execute\<close> may change), how often each of its two methods
  has run, and whether it has been deleted. The methods are user code: \<open>execute\<close> a function
  on the fields, as it must not touch R, and \<open>complete\<close> a program.
\<close>

record 'd task =
  task_data :: 'd
  executed :: nat
  completed :: nat
  deleted :: bool

text \<open>\<open>begin\<close>: whether the thread was created is not looked at.\<close>

definition begin_task :: "bool \<Rightarrow> nat \<Rightarrow> nat list \<Rightarrow> nat list" where
  "begin_task created k started = (if created then started @ [k] else started)"

text \<open>
  On the thread: \<open>None\<close> is a step on a deleted object. \<open>cb\<close> stands for the function
  \<open>result_callback\<close> bound to the task, as a program.
\<close>

definition task_main ::
    "('d \<Rightarrow> 'd) \<Rightarrow> string list \<Rightarrow> prog \<Rightarrow> 'd task \<times> api_unit \<times> world \<Rightarrow> ((exn + unit) \<times> 'd task \<times> api_unit \<times> world) option" where
  "task_main ex callables cb = (\<lambda>(t, u, w).
     (if deleted t then None
      else let t1 = t\<lparr>task_data := ex (task_data t), executed := Suc (executed t)\<rparr>;
               (x, u1, w1) = later_global callables (Some cb) (Fin 0) (u, w)
           in Some (x, t1, u1, w1)))"

text \<open>On the main thread: the object is deleted after \<open>complete\<close>, unless that does not return.\<close>

definition result_callback ::
    "nat \<Rightarrow> ('d \<Rightarrow> prog) \<Rightarrow> 'd task \<times> world \<Rightarrow> ((exn + unit) \<times> 'd task \<times> world) option" where
  "result_callback n finish = (\<lambda>(t, w).
     (if deleted t then Some (Inl (Undefined ''deleted task''), t, w)
      else case exec_prog n (finish (task_data t)) w of
             None \<Rightarrow> None
           | Some (x, w1) \<Rightarrow>
               let t1 = t\<lparr>completed := Suc (completed t)\<rparr>
               in Some (x, case x of Inl e \<Rightarrow> t1 | Inr _ \<Rightarrow> t1\<lparr>deleted := True\<rparr>, w1)))"

section \<open>Facts\<close>

lemma find_found:
  "eln u \<Longrightarrow> find_eln callables b u = (Inr (), u)" "elfdn u \<Longrightarrow> find_elfdn callables b u = (Inr (), u)"
  by (simp_all add: find_eln_def find_elfdn_def)

lemma LaterInitializer_effect:
  "LaterInitializer (later_init callables) (u, w) = (Inr (), u\<lparr>eln := True, elfdn := True\<rparr>, w)"
  by (auto simp: LaterInitializer_def later_global_def later_fd_global_def later_def later_fd_def find_eln_def
      find_elfdn_def later_init_def R_GetCCallable_def)

lemma execLaterNative2_effect:
  assumes ok: "ids_ok w" and r: "getRegistry w l = Some r" and e: "execLaterNative2 p d l w = (Inr i, w1)"
  obtains t where "addSeconds (clock w (tick w)) d = Some t"
    and "pending w1 = (pending w)(r := insert \<lparr>cbWhen = t, callbackId = nextCallbackId w, func = NativeFunction p\<rparr> (pending w r))"
    and "registries w1 = registries w" and "made w1 = Suc (made w)" and "clock w1 = clock w" and "tick w < tick w1"
proof -
  define w0 where "w0 = snd (ensureInitialized w)"
  note k = ensureInitialized_keeps[of w, folded w0_def]
  have ok0: "ids_ok w0" using ids_ok_queues[OF ok, of w0] k by simp
  have p0: "pending w0 = pending w" using k(1) by (simp add: pending_def fun_eq_iff)
  have r0: "getRegistry w0 l = Some r" using r getRegistry_registries[OF k(2)] by simp
  obtain u where "ensureInitialized w = (Inr u, w0)"
    using e by (auto simp: execLaterNative2_def w0_def split: sum.splits prod.splits)
  then have s: "doExecLater r (NativeFunction p) d True w0 = (Inr i, w1)"
    using e r0 by (auto simp: execLaterNative2_def scheduleCallback_def)
  obtain j w2 where a: "add r (NativeFunction p) d w0 = (Inr j, w2)"
    and h: "heap w1 = heap w2" "registries w1 = registries w2" "made w1 = made w2" "clock w1 = clock w2" "tick w2 \<le> tick w1"
    using s by (auto simp: doExecLater_def timer_set_def deref_timestamp_def timestamp_now_def get_current_time_def
        split: sum.splits prod.splits option.splits)
  obtain t where t: "addSeconds (clock w0 (tick w0)) d = Some t" "j = nextCallbackId w0"
      "pending w2 = (pending w0)(r := insert \<lparr>cbWhen = t, callbackId = j, func = NativeFunction p\<rparr> (pending w0 r))"
    by (rule add_pending[OF ok0 a])
  have "pending w1 = pending w2" using h(1) by (simp add: pending_def fun_eq_iff)
  moreover have "registries w2 = registries w0" "made w2 = Suc (made w0)" "clock w2 = clock w0" "tick w2 = Suc (tick w0)"
    using a by (auto simp: add_Inr[OF t(1)] cond_signal_def)
  ultimately show ?thesis using t k p0 h by (intro that[of t]) simp_all
qed

section \<open>Properties\<close>

text \<open>
  Once a compilation unit's static initializer has run with the package loaded,
  \<open>later()\<close> and \<open>later_fd()\<close> look nothing up in R any more and warn of nothing: they are
  just the package's functions, so other threads may call them.
\<close>

theorem later_after_init:
  assumes "LaterInitializer (later_init callables) (u, w) = (x, u', w')"
  shows "x = Inr () \<and> w' = w \<and> api_log u' = api_log u \<and>
    later cs (Some p) secs l (u', v) = (map_sum id (\<lambda>_. ()) (fst (execLaterNative2 p secs l v)), u', snd (execLaterNative2 p secs l v)) \<and>
    later_fd cs (Some g) fds secs l (u', v) =
      (map_sum id (\<lambda>_. ()) (fst (execLaterFdNative g fds secs l v)), u', snd (execLaterFdNative g fds secs l v))"
  using assms by (auto simp: LaterInitializer_effect later_def later_fd_def find_found split: prod.splits sum.splits)

theorem later_after_init_witness:
  "\<exists>u'. LaterInitializer (later_init []) (\<lparr>eln = False, elfdn = False, api_log = []\<rparr>, demo) = (Inr (), u', demo) \<and>
     api_log u' = []"
proof -
  obtain x u' w' where i: "LaterInitializer (later_init []) (\<lparr>eln = False, elfdn = False, api_log = []\<rparr>, demo) = (x, u', w')"
    by (metis prod.collapse)
  from later_after_init[OF i] i show ?thesis by auto
qed


definition demo_unit :: api_unit where
  "demo_unit = \<lparr>eln = True, elfdn = True, api_log = []\<rparr>"

definition demo_task :: "nat task" where
  "demo_task = \<lparr>task_data = 20, executed = 0, completed = 0, deleted = False\<rparr>"


end
