(* ===== verification/Clients.thy ===== *)
theory Clients
  imports LaterApi
begin

text \<open>
  The package \<^verbatim>\<open>later2test\<close>, whose C++ code uses the API header: a background task, a promise
  for a Fibonacci number, a callback that fails in each way a callback can, and the check that
  callbacks run in the order they were scheduled, which is proved here to succeed.
\<close>

section \<open>Versions\<close>

definition later2_dll_api_version :: "string list \<Rightarrow> exn + int" where
  "later2_dll_api_version callables = map_sum id (\<lambda>_. apiVersion) (R_GetCCallable callables ''apiVersion'')"

definition later2_h_api_version :: int where
  "later2_h_api_version = LATER2_H_API_VERSION"

lemma versions_agree: "later2_dll_api_version (later_init callables) = Inr later2_h_api_version"
  by (simp add: later2_dll_api_version_def R_GetCCallable_def later_init_def later2_h_api_version_def
      LATER2_H_API_VERSION_def apiVersion_def)

section \<open>Background tasks\<close>

text \<open>\<^verbatim>\<open>bgtest.h\<close>: a task that sleeps; neither method changes its one field.\<close>

definition TestTask :: "int \<Rightarrow> int task" where
  "TestTask timeoutSecs = \<lparr>task_data = timeoutSecs, executed = 0, completed = 0, deleted = False\<rparr>"

definition TestTask_execute :: "int \<Rightarrow> int" where
  "TestTask_execute timeoutSecs = timeoutSecs"

definition TestTask_complete :: "int \<Rightarrow> prog" where
  "TestTask_complete timeoutSecs = Done"

text \<open>\<open>objects\<close> is the store of task objects, \<open>started\<close> the threads; see \<open>begin_task\<close>.\<close>

definition launchBgTask :: "bool \<Rightarrow> int \<Rightarrow> int task list \<times> nat list \<Rightarrow> int task list \<times> nat list" where
  "launchBgTask created secsToSleep = (\<lambda>(objects, started).
     (objects @ [TestTask secsToSleep], begin_task created (length objects) started))"

text \<open>\<^verbatim>\<open>promise_task.h\<close>. A sum that overflows \<^verbatim>\<open>long\<close> has no meaning: \<open>None\<close>.\<close>

function fib :: "int \<Rightarrow> int option" where
  "fib x =
     (if x \<le> 2 then Some 1
      else case fib (x - 1) of
             None \<Rightarrow> None
           | Some a \<Rightarrow>
               (case fib (x - 2) of
                  None \<Rightarrow> None
                | Some b \<Rightarrow> if int64 (a + b) then Some (a + b) else None))"
  by pat_completeness auto
termination by (relation "measure nat") auto

declare fib.simps [simp del]

lemma fib_base: "x \<le> 2 \<Longrightarrow> fib x = Some 1"
  by (subst fib.simps) simp

record fib_task =
  fib_x :: double
  fib_result :: int

definition FibonacciTask_execute :: "fib_task \<Rightarrow> fib_task option" where
  "FibonacciTask_execute t =
     (case fib_x t of
        Fin x \<Rightarrow>
          if int64 (trunc0 x) then map_option (\<lambda>r. t\<lparr>fib_result := r\<rparr>) (fib (trunc0 x)) else None
      | _ \<Rightarrow> None)"

definition get_result :: "fib_task \<Rightarrow> rat" where
  "get_result t = dbl (of_int (fib_result t))"

definition asyncFib :: "bool \<Rightarrow> double \<Rightarrow> fib_task list \<times> nat list \<Rightarrow> fib_task list \<times> nat list" where
  "asyncFib created x = (\<lambda>(objects, started).
     (objects @ [\<lparr>fib_x = x, fib_result = 0\<rparr>], begin_task created (length objects) started))"

definition PromiseTask_complete :: "(rat \<Rightarrow> prog) \<Rightarrow> fib_task \<Rightarrow> prog" where
  "PromiseTask_complete resolve t = resolve (get_result t)"

text \<open>The numbers by iteration; from the 93rd on they do not fit into 64 bits.\<close>

fun fib_pair :: "nat \<Rightarrow> int \<times> int" where
  "fib_pair 0 = (0, 1)"
| "fib_pair (Suc n) = (let (a, b) = fib_pair n in (b, a + b))"

definition fib_number :: "nat \<Rightarrow> int" where
  "fib_number n = fst (fib_pair n)"

lemma fib_number_rec: "fib_number (Suc (Suc n)) = fib_number (Suc n) + fib_number n"
  by (simp add: fib_number_def case_prod_beta)

lemma fib_number_mono: "fib_number n \<le> fib_number (Suc n) \<and> 0 \<le> fib_number n"
proof (induction n)
  case (Suc n)
  then show ?case using fib_number_rec[of n] by simp
qed (simp add: fib_number_def)

lemma fib_number_le: "m \<le> n \<Longrightarrow> fib_number m \<le> fib_number n"
  by (rule lift_Suc_mono_le) (use fib_number_mono in auto)

lemma fib_number_values:
  "fib_number 1 = 1" "fib_number 2 = 1" "fib_number 78 < 2 ^ 53" "fib_number 92 < 2 ^ 63" "2 ^ 63 \<le> fib_number 93"
  by code_simp+

lemma fib_int64: "int64 (fib_number n) \<longleftrightarrow> n \<le> 92"
proof (cases "n \<le> 92")
  case True
  then show ?thesis using fib_number_le[OF True] fib_number_values(4) fib_number_mono[of n] by (simp add: int64_def)
next
  case False
  then have "fib_number 93 \<le> fib_number n" by (intro fib_number_le) simp
  then show ?thesis using False fib_number_values(5) by (simp add: int64_def)
qed

lemma fib_eq: "1 \<le> n \<Longrightarrow> fib (int n) = (if n \<le> 92 then Some (fib_number n) else None)"
proof (induction n rule: less_induct)
  case (less n)
  show ?case
  proof (cases "n \<le> 2")
    case True
    then have "n = 1 \<or> n = 2" using less.prems by auto
    then show ?thesis using fib_number_values(1,2) by (auto simp: fib_base)
  next
    case False
    define k where "k = n - 2"
    have n: "n = Suc (Suc k)" "1 \<le> k" using False by (simp_all add: k_def)
    have i: "int n - 1 = int (Suc k)" "int n - 2 = int k" by (simp_all add: n(1))
    have "fib (int n) = (case fib (int (Suc k)) of None \<Rightarrow> None | Some a \<Rightarrow>
        (case fib (int k) of None \<Rightarrow> None | Some b \<Rightarrow> if int64 (a + b) then Some (a + b) else None))"
      using False by (subst fib.simps) (simp only: i of_nat_le_numeral_iff if_False)
    then show ?thesis using less.IH[of "Suc k"] less.IH[of k] n fib_int64[of n] fib_number_rec[of k] by auto
  qed
qed

text \<open>Up to the 78th number the promise gets the exact value.\<close>

lemma fib_promise:
  assumes "1 \<le> n" and "n \<le> 78"
  shows "\<exists>t'. FibonacciTask_execute \<lparr>fib_x = Fin (of_nat n), fib_result = r\<rparr> = Some t' \<and>
    PromiseTask_complete resolve t' = resolve (of_int (fib_number n))"
proof -
  have t: "trunc0 (of_nat n) = int n" using trunc0_of_int[of "int n"] by simp
  have "fib_number n \<le> fib_number 78" by (rule fib_number_le) (rule assms(2))
  then have "\<bar>fib_number n\<bar> \<le> 2 ^ 53" using fib_number_values(3) fib_number_mono[of n] by linarith
  then have "dbl (of_int (fib_number n)) = of_int (fib_number n)" by (rule fl_of_int) simp
  then show ?thesis using fib_eq[OF assms(1)] assms t
    by (simp add: FibonacciTask_execute_def PromiseTask_complete_def get_result_def int64_def)
qed

section \<open>Failing callbacks\<close>

text \<open>
  \<^verbatim>\<open>cpp_error.h\<close>: a callback that fails in the way its data says. \<open>ev\<close> is R's evaluator on a
  call of one of the two functions the test defines.
\<close>

definition oof :: "(string \<Rightarrow> exn + unit) \<Rightarrow> int \<Rightarrow> prog" where
  "oof ev value =
     (let r_call = (\<lambda>f. case ev f of Inl e \<Rightarrow> Throw e | Inr _ \<Rightarrow> Done)
      in if value = 1 then Throw (StdException ''This is a C++ exception.'')
         else if value = 2 then Throw UnknownException
         else if value = 3 then Throw (Longjmp ''interrupt'')
         else if value = 4 then r_call ''r_interrupt''
         else if value = 5 then r_call ''r_error''
         else if value = 6 then r_call ''r_error'' else Done)"

definition cpp_error ::
    "string list \<Rightarrow> (string \<Rightarrow> exn + unit) \<Rightarrow> int \<Rightarrow> api_unit \<times> world \<Rightarrow> (exn + unit) \<times> api_unit \<times> world" where
  "cpp_error callables ev value = later_global callables (Some (oof ev value)) (Fin 0)"

text \<open>What \<open>invoke\<close> makes of each: C++ errors run destructors on their way, the others do not.\<close>

lemma oof_outcomes:
  assumes "\<And>f. ev f = Inl (Longjmp f)" and "func cb = NativeFunction (oof ev value)"
  shows "\<exists>x. invoke (exec_prog (Suc n)) cb w = Some (x, w) \<and>
    (x = Inr () \<longleftrightarrow> value \<notin> {1..6}) \<and> (leaves_frame x \<longleftrightarrow> value \<notin> {3..6})"
proof -
  have v: "value = 1 \<or> value = 2 \<or> value = 3 \<or> value = 4 \<or> value = 5 \<or> value = 6 \<or> value \<notin> {1..6}" by auto
  show ?thesis using v
    by (elim disjE) (auto simp: invoke_def assms oof_def Let_def leaves_frame_def)
qed

section \<open>Descriptors\<close>

definition testfd :: "string list \<Rightarrow> api_unit \<times> world \<Rightarrow> (exn + int) \<times> api_unit \<times> world" where
  "testfd callables uw =
     (let (x, uw1) = later_fd callables (Some (\<lambda>_. Done)) [] (Fin 0) 0 uw in (map_sum id (\<lambda>_. 0) x, uw1))"

section \<open>The check of the order\<close>

text \<open>
  \<^verbatim>\<open>checkLaterOrder.h\<close>: ten thousand callbacks without delay, numbered by their data; each
  compares its number with the largest seen so far, which is all a callback does. \<open>p i\<close> is
  the function bound to the number \<open>i\<close>, as a program.
\<close>

definition check_callback :: "nat \<Rightarrow> nat \<Rightarrow> exn + nat" where
  "check_callback max_seen data =
     (if data < max_seen then Inl (UnwindException ''Bad ordering detected'') else Inr data)"

fun check_all :: "nat \<Rightarrow> nat list \<Rightarrow> exn + nat" where
  "check_all max_seen [] = Inr max_seen"
| "check_all max_seen (d # ds) =
     (case check_callback max_seen d of Inl e \<Rightarrow> Inl e | Inr m \<Rightarrow> check_all m ds)"

fun schedule_checks ::
    "string list \<Rightarrow> (nat \<Rightarrow> prog) \<Rightarrow> nat list \<Rightarrow> api_unit \<times> world \<Rightarrow> (exn + unit) \<times> api_unit \<times> world" where
  "schedule_checks callables p [] uw = (Inr (), uw)"
| "schedule_checks callables p (i # is) uw =
     (case later_global callables (Some (p i)) (Fin 0) uw of
        (Inl e, uw1) \<Rightarrow> (Inl e, uw1)
      | (Inr _, uw1) \<Rightarrow> schedule_checks callables p is uw1)"

definition checkLaterOrdering ::
    "string list \<Rightarrow> (nat \<Rightarrow> prog) \<Rightarrow> api_unit \<times> world \<Rightarrow> nat \<times> (exn + unit) \<times> api_unit \<times> world" where
  "checkLaterOrdering callables p uw = (0, schedule_checks callables p [0..<10000] uw)"

text \<open>The callbacks made since \<open>w\<close>, and the number a callback has among them.\<close>

definition made_since :: "world \<Rightarrow> callback \<Rightarrow> bool" where
  "made_since w cb \<longleftrightarrow> nextCallbackId w \<le> callbackId cb"

definition number_since :: "world \<Rightarrow> callback \<Rightarrow> nat" where
  "number_since w cb = unat (callbackId cb) - unat (nextCallbackId w)"

lemma check_all_upt: "m \<le> n \<Longrightarrow> check_all (m - 1) [m..<n] = Inr (n - 1)"
proof (induction "n - m" arbitrary: m)
  case (Suc k)
  then have "[m..<n] = m # [Suc m..<n]" by (simp add: upt_rec)
  then show ?case using Suc.hyps(1)[of "Suc m"] Suc.hyps(2) Suc.prems by (simp add: check_callback_def)
qed simp

text \<open>One call of \<open>later\<close> without delay.\<close>

lemma later_step:
  assumes ok: "sys_ok {#} v" and n: "no_wrap_yet (made v)" and u: "eln u" and r: "getRegistry v GLOBAL_LOOP = Some r"
    and l: "later_global cs (Some q) (Fin 0) (u, v) = (Inr (), u1, v1)"
  shows "u1 = u" and "sys_ok {#} v1" and "getRegistry v1 = getRegistry v" and "made v1 = Suc (made v)"
    and "clock v1 = clock v" and "tick v < tick v1"
    and "pending v1 r = insert \<lparr>cbWhen = clock v (tick v), callbackId = nth_id (made v), func = NativeFunction q\<rparr> (pending v r)"
proof -
  have c: "ids_counted v" and q: "queues_ok v" using sys_okD(1)[OF ok] by (simp_all add: world_ok_def)
  have ids: "ids_ok v" and next_id: "nextCallbackId v = nth_id (made v)" using ids_counted_ok[OF c n] ids_countedD(1)[OF c] by simp_all
  obtain i where e: "execLaterNative2 q (Fin 0) GLOBAL_LOOP v = (Inr i, v1)" and "u1 = u"
    using l u by (auto simp: later_global_def later_def find_found split: prod.splits sum.splits)
  then show "u1 = u" by simp
  show "sys_ok {#} v1" using execLaterNative2_fine[OF ok, of "\<lambda>_. VUnit" q "Fin 0" GLOBAL_LOOP] e
    by (simp add: fine_def ret_def)
  obtain t where t: "addSeconds (clock v (tick v)) (Fin 0) = Some t"
    and eff: "pending v1 = (pending v)(r := insert \<lparr>cbWhen = t, callbackId = nextCallbackId v, func = NativeFunction q\<rparr> (pending v r))"
      "registries v1 = registries v" "made v1 = Suc (made v)" "clock v1 = clock v" "tick v < tick v1"
    by (rule execLaterNative2_effect[OF ids r e])
  show "made v1 = Suc (made v)" "clock v1 = clock v" "tick v < tick v1" using eff(3-5) by simp_all
  show "getRegistry v1 = getRegistry v" by (rule getRegistry_registries[OF eff(2)])
  have nm: "ts_normal (clock v (tick v))" using monotonic_clockD(1)[OF queues_ok_clock[OF q]] .
  have "t = clock v (tick v)" by (rule addSeconds_zeroD[OF t nm])
  then show "pending v1 r = insert \<lparr>cbWhen = clock v (tick v), callbackId = nth_id (made v), func = NativeFunction q\<rparr> (pending v r)"
    using eff(1) next_id by simp
qed

text \<open>The callbacks a run of the loop schedules, with nondecreasing times.\<close>

definition numbered :: "nat \<Rightarrow> (nat \<Rightarrow> prog) \<Rightarrow> timespec list \<Rightarrow> nat list \<Rightarrow> nat \<Rightarrow> callback" where
  "numbered m p ts is j = \<lparr>cbWhen = ts ! j, callbackId = nth_id (m + j), func = NativeFunction (p (is ! j))\<rparr>"

lemma numbered_Cons:
  "numbered m p (t # ts) (i # is) ` {..<Suc (length is)} =
     insert \<lparr>cbWhen = t, callbackId = nth_id m, func = NativeFunction (p i)\<rparr> (numbered (Suc m) p ts is ` {..<length is})"
  unfolding lessThan_Suc_eq_insert_0 image_insert image_image by (simp add: numbered_def)

lemma schedule_checks_effect:
  assumes "sys_ok {#} v" and "no_wrap_yet (made v + length is)" and "eln u" and "getRegistry v GLOBAL_LOOP = Some r"
    and "schedule_checks cs p is (u, v) = (Inr (), u1, v1)"
  shows "\<exists>ts. length ts = length is \<and> sorted ts \<and> (\<forall>t \<in> set ts. clock v (tick v) \<le> t \<and> t \<le> clock v (tick v1)) \<and>
    pending v1 r = pending v r \<union> numbered (made v) p ts is ` {..<length is} \<and>
    sys_ok {#} v1 \<and> clock v1 = clock v \<and> tick v \<le> tick v1"
  using assms
proof (induction "is" arbitrary: v u)
  case Nil
  then show ?case by simp
next
  case (Cons i "is")
  have n: "no_wrap_yet (made v)" using Cons.prems(2) by (simp add: no_wrap_yet_def)
  obtain u2 v2 where l: "later_global cs (Some (p i)) (Fin 0) (u, v) = (Inr (), u2, v2)"
    and rest: "schedule_checks cs p is (u2, v2) = (Inr (), u1, v1)"
    using Cons.prems(5) by (auto split: prod.splits sum.splits)
  note s = later_step[OF Cons.prems(1) n Cons.prems(3,4) l]
  have "no_wrap_yet (made v2 + length is)" using Cons.prems(2) s(4) by simp
  then obtain ts where ts: "length ts = length is" "sorted ts"
      "\<forall>t \<in> set ts. clock v (tick v2) \<le> t \<and> t \<le> clock v (tick v1)"
      "pending v1 r = pending v2 r \<union> numbered (Suc (made v)) p ts is ` {..<length is}"
      "sys_ok {#} v1" "clock v1 = clock v" "tick v2 \<le> tick v1"
    using Cons.IH[OF s(2) _ _ _ rest] Cons.prems(3,4) s(1,3,4,5) by auto
  have m: "monotonic_clock (clock v)" using sys_okD(1)[OF Cons.prems(1)] by (simp add: world_ok_def queues_ok_clock)
  let ?t = "clock v (tick v)"
  have le: "?t \<le> clock v (tick v2)" "?t \<le> clock v (tick v1)" using monotonic_clockD(2)[OF m] s(6) ts(7) by simp_all
  have "sorted (?t # ts)" using ts(2,3) le(1) by (auto intro: order_trans)
  moreover have "\<forall>t \<in> set (?t # ts). ?t \<le> t \<and> t \<le> clock v (tick v1)" using ts(3) le by (auto intro: order_trans)
  moreover have "pending v1 r = pending v r \<union> numbered (made v) p (?t # ts) (i # is) ` {..<length (i # is)}"
    unfolding ts(4) s(7) length_Cons numbered_Cons by simp
  ultimately show ?case using ts(1,5,6,7) s(6) by (intro exI[of _ "?t # ts"]) simp
qed

text \<open>So what runs of them, in whatever company, runs by number.\<close>

lemma taken_by_number:
  assumes "queue_ok q" and "no_wrap_yet (m + length is)" and "length ts = length is" and "sorted ts"
    and "\<forall>t \<in> set ts. t \<le> now" and q: "set q = old \<union> numbered m p ts is ` {..<length is}"
    and old: "\<forall>cb \<in> old. callbackId cb < nth_id m"
  shows "filter (\<lambda>cb. nth_id m \<le> callbackId cb) (taken True now q) = map (numbered m p ts is) [0..<length is]"
proof -
  let ?L = "filter (\<lambda>cb. nth_id m \<le> callbackId cb) (taken True now q)" and ?cb = "numbered m p ts is"
  have id: "unat (callbackId (?cb j)) = Suc (m + j)" if "j < length is" for j
    using that assms(2) by (simp add: numbered_def unat_nth_id no_wrap_yet_def)
  have m: "unat (nth_id m) = Suc m" using assms(2) by (simp add: unat_nth_id no_wrap_yet_def)
  have L: "set ?L = ?cb ` {..<length is}"
  proof -
    have "cbWhen (?cb j) \<le> now" if "j < length is" for j using that assms(3,5) by (simp add: numbered_def)
    then show ?thesis using taken_due(1)[OF assms(1), of now] q old id m
      by (auto simp: word_le_nat_alt word_less_nat_alt not_le[symmetric])
  qed
  have before: "callback_less (?cb i) (?cb j)" if "i < j" "j < length is" for i j
    using that id[of i] id[of j] assms(3,4) sorted_nth_mono[of ts i j]
    by (auto simp: callback_less_iff word_less_nat_alt numbered_def order_le_less)
  have "sorted_wrt callback_less ?L" using taken_due(2)[OF assms(1), of now] by (simp add: sorted_wrt_filter)
  moreover have "sorted_wrt callback_less (map ?cb [0..<length is])"
    unfolding sorted_wrt_map sorted_wrt_iff_nth_less by (auto intro: before)
  moreover have "set (map ?cb [0..<length is]) = set ?L" using L by (simp add: atLeast0LessThan)
  ultimately show ?thesis by (intro cb.sorted_unique) simp_all
qed

text \<open>On an initialised process \<open>later\<close> fails only if the clock is out of range.\<close>

lemma later_succeeds:
  assumes i: "initialized v" and u: "eln u" and r: "getRegistry v GLOBAL_LOOP = Some r"
    and c: "clock v = (\<lambda>_. t)" "int64 (tv_sec t)" "ts_normal t"
  obtains v1 where "later_global cs (Some q) (Fin 0) (u, v) = (Inr (), u, v1)"
    and "initialized v1" and "getRegistry v1 = getRegistry v" and "clock v1 = clock v"
proof -
  have a: "addSeconds (clock v (tick v)) (Fin 0) = Some t" using addSeconds_zero[OF c(2,3)] c(1) by simp
  define v1 where "v1 = snd (doExecLater r (NativeFunction q) (Fin 0) True v)"
  have keep: "initialized v1" "registries v1 = registries v" "clock v1 = clock v"
    "fst (doExecLater r (NativeFunction q) (Fin 0) True v) = Inr (nextCallbackId v)"
    by (simp_all add: v1_def doExecLater_def add_Inr[OF a] deref_timestamp_def timestamp_now_def get_current_time_def
        timer_set_def upd_timer_def cond_signal_def i split: option.split)
  have "execLaterNative2 q (Fin 0) GLOBAL_LOOP v = (Inr (nextCallbackId v), v1)"
    using keep(4) by (simp add: execLaterNative2_def ensureInitialized_def i scheduleCallback_def r v1_def prod_eq_iff)
  then show thesis using u getRegistry_registries[OF keep(2)] keep(1,3)
    by (intro that[of v1]) (simp_all add: later_global_def later_def find_found)
qed

lemma schedule_checks_succeed:
  assumes "initialized v" and "eln u" and "getRegistry v GLOBAL_LOOP = Some r"
    and "clock v = (\<lambda>_. t)" "int64 (tv_sec t)" "ts_normal t"
  shows "\<exists>v1. schedule_checks cs p is (u, v) = (Inr (), u, v1)"
  using assms
proof (induction "is" arbitrary: v)
  case (Cons i "is")
  obtain v1 where "later_global cs (Some (p i)) (Fin 0) (u, v) = (Inr (), u, v1)"
    and "initialized v1" and "getRegistry v1 = getRegistry v" and "clock v1 = clock v"
    by (rule later_succeeds[OF Cons.prems])
  then show ?case using Cons.IH[of v1] Cons.prems by simp
qed simp

lemma made_since_iff: "ids_counted w \<Longrightarrow> made_since w cb \<longleftrightarrow> nth_id (made w) \<le> callbackId cb"
  by (simp add: made_since_def ids_counted_def)

lemma number_since_numbered:
  assumes "ids_counted w" and "no_wrap_yet (made w + j)"
  shows "number_since w (numbered (made w) p ts is j) = j"
proof -
  have "no_wrap_yet (made w)" using assms(2) by (simp add: no_wrap_yet_def)
  then show ?thesis using assms by (simp add: number_since_def numbered_def unat_nth_id ids_countedD(1))
qed

section \<open>Properties\<close>


text \<open>A process whose clock stands still, with the autorunner set up.\<close>

definition still_start :: world where
  "still_start = fresh_world (\<lambda>_. Timespec 5 0) [Some (3, 4), Some (5, 6)] (\<lambda>_. []) (\<lambda>_. True) []"

definition still :: world where
  "still = snd (ensureInitialized (snd (create 0 (-1) still_start)))"

lemma still_ok: "sys_ok {#} still"
proof -
  have "monotonic_clock (\<lambda>_. Timespec 5 0)" by (simp add: monotonic_clock_def ts_normal_def)
  then have "sys_ok {#} still_start" unfolding still_start_def by (rule fresh_world_sys_ok)
  then have "sys_ok {#} (snd (create 0 (-1) still_start))" by (rule create_sys_ok[OF _ prod.collapse[symmetric]])
  then show ?thesis unfolding still_def using ensureInitialized_frame(1) by blast
qed

lemma still_values: "initialized still" "getRegistry still GLOBAL_LOOP = Some 0" "made still = 0"
  by code_simp+

lemma still_clock: "clock still = (\<lambda>_. Timespec 5 0)"
proof -
  have "clock (snd (create i p w)) = clock w" for i p w
    by (rule create_cases[of i w p]) (auto simp: link_def new_object_def split: option.splits)
  then show ?thesis by (simp add: still_def still_start_def ensureInitialized_keeps fresh_world_def)
qed


end
