(* ===== verification/Win32.thy ===== *)
theory Win32
  imports Exec Example
begin

text \<open>
  The Windows side: \<^verbatim>\<open>timestamp_win32.cpp\<close> (points in time as performance counts) and
  \<^verbatim>\<open>later_win32.cpp\<close> (a message-only window whose timer runs the callbacks). What the system
  calls answer is an argument.
\<close>

section \<open>Timestamps\<close>

type_synonym perf = int  \<comment> \<open>\<^verbatim>\<open>LARGE_INTEGER.QuadPart\<close>, 64 bits signed\<close>

text \<open>
  \<open>now\<close> and \<open>freq\<close> are what \<^verbatim>\<open>QueryPerformanceCounter\<close> and \<^verbatim>\<open>QueryPerformanceFrequency\<close>
  answer. \<open>None\<close>: the conversion of the product or the sum is not a 64-bit integer.
\<close>

definition win_timestamp_in :: "perf \<Rightarrow> int \<Rightarrow> double \<Rightarrow> perf option" where
  "win_timestamp_in now freq secs =
     (case secs of
        Fin x \<Rightarrow>
          let d = trunc0 (dbl (x * dbl (of_int freq)))
          in if int64 d \<and> int64 (now + d) then Some (now + d) else None
      | _ \<Rightarrow> None)"

definition win_future :: "perf \<Rightarrow> perf \<Rightarrow> bool" where
  "win_future t now \<longleftrightarrow> t > now"

definition win_less :: "perf \<Rightarrow> perf \<Rightarrow> bool" where
  "win_less a b \<longleftrightarrow> a < b"

definition win_greater :: "perf \<Rightarrow> perf \<Rightarrow> bool" where
  "win_greater a b \<longleftrightarrow> a > b"

definition win_diff_secs :: "int \<Rightarrow> perf \<Rightarrow> perf \<Rightarrow> rat" where
  "win_diff_secs freq a b = (let sec_diff = a - b in dbl (dbl (of_int sec_diff) / dbl (of_int freq)))"

lemma win_diff_secs_pos_iff:
  assumes "0 < freq"
  shows "0 < win_diff_secs freq a b \<longleftrightarrow> b < a"
proof -
  have f: "0 < dbl (of_int freq)" using assms by (simp add: fl_pos_iff)
  show ?thesis by (simp add: win_diff_secs_def fl_pos_iff zero_less_divide_iff f f[THEN less_imp_le] not_less[symmetric])
     (use f in \<open>simp add: fl_pos_iff\<close>)
qed

text \<open>For counts below \<open>2 ^ 53\<close> the delay is exact up to two roundings and one tick.\<close>

lemma win_timestamp_in_error:
  assumes "win_timestamp_in now freq (Fin x) = Some t" and "0 < freq" and "freq < 2 ^ 53"
  shows "\<bar>of_int (t - now) - x * of_int freq\<bar> < \<bar>x\<bar> * of_int freq / 2 ^ 53 + 1"
proof -
  have f: "dbl (of_int freq) = of_int freq" using assms(2,3) by (intro fl_of_int) auto
  define q where "q = x * of_int freq"
  define p where "p = dbl q"
  have "t - now = trunc0 p"
    using assms(1) by (auto simp: win_timestamp_in_def f Let_def p_def q_def split: if_splits)
  then have d: "of_int (t - now) = (of_int (trunc0 p) :: rat)" by simp
  have pq: "\<bar>p - q\<bar> \<le> \<bar>q\<bar> / 2 ^ 53" unfolding p_def by (rule fl_rel_error)
  have q: "\<bar>x\<bar> * of_int freq = \<bar>q\<bar>" using assms(2) by (simp add: abs_mult q_def)
  have "\<bar>of_int (trunc0 p) - q\<bar> < \<bar>q\<bar> / 2 ^ 53 + 1"
    using pq trunc0_error[of p] by (simp only: abs_less_iff abs_le_iff) linarith
  then show ?thesis unfolding d q by (simp only: q_def)
qed

section \<open>The window\<close>

datatype message = WM_TIMER | WM_SETUPTIMER | OtherMessage

text \<open>Whether the window is there, whether its timer runs, and the messages posted to it.\<close>

record window =
  w_initialized :: bool
  hwnd :: bool
  timer_running :: bool
  posted :: "message list"

definition setupTimer :: "bool \<Rightarrow> window \<Rightarrow> (exn + unit) \<times> window" where
  "setupTimer os_ok s =
     (if \<not> os_ok then (Inl (Longjmp ''Failed to schedule callback timer''), s)
      else (Inr (), s\<lparr>timer_running := True\<rparr>))"

definition win_message :: "exn \<Rightarrow> string" where
  "win_message e =
     (case e of
        UnwindException _ \<Rightarrow> ''later2: exception or interrupt occurred while executing callback.''
      | StdException m \<Rightarrow> ''later2: exception occurred while executing callback: '' @ [CHR 0x0A] @ m
      | _ \<Rightarrow> ''later2: c++ exception (unknown reason) occurred while executing callback.'')"

text \<open>The answer says whether the timer can stop.\<close>

definition executeHandlers ::
    "nat \<Rightarrow> (callback \<Rightarrow> world \<Rightarrow> unit res option) \<Rightarrow> world \<Rightarrow> bool res option" where
  "executeHandlers n call w =
     (case at_top_level w of
        (Inl e, w1) \<Rightarrow> Some (Inl e, w1)
      | (Inr top_level, w1) \<Rightarrow>
          if \<not> top_level then Some (Inr False, w1)
          else (case execCallbacksForTopLevel n call w1 of
                  None \<Rightarrow> None
                | Some (Inr any, w2) \<Rightarrow> Some (idle GLOBAL_LOOP w2)
                | Some (Inl e, w2) \<Rightarrow>
                    if runs_destructors e
                    then Some (idle GLOBAL_LOOP (w2\<lparr>stderr_log := stderr_log w2 @ [win_message e]\<rparr>))
                    else Some (Inl e, w2)))"

text \<open>
  What the window does with a message; the answer says whether it was handled here. Callbacks
  that schedule others set the timer, which is running when it ticks.
\<close>

definition callbackWndProc ::
    "nat \<Rightarrow> (callback \<Rightarrow> world \<Rightarrow> unit res option) \<Rightarrow> bool \<Rightarrow> message \<Rightarrow> window \<times> world
      \<Rightarrow> ((exn + bool) \<times> window \<times> world) option" where
  "callbackWndProc n call os_ok m sw =
     (case m of
        WM_TIMER \<Rightarrow>
          (case executeHandlers n call (snd sw) of
             None \<Rightarrow> None
           | Some (Inl e, w1) \<Rightarrow> Some (Inl e, fst sw, w1)
           | Some (Inr stop, w1) \<Rightarrow>
               Some (Inr True, if stop then (fst sw)\<lparr>timer_running := False\<rparr> else fst sw, w1))
      | WM_SETUPTIMER \<Rightarrow>
          (case setupTimer os_ok (fst sw) of
             (Inl e, s1) \<Rightarrow> Some (Inl e, s1, snd sw)
           | (Inr _, s1) \<Rightarrow> Some (Inr True, s1, snd sw))
      | OtherMessage \<Rightarrow> Some (Inr False, sw))"

definition ensureAutorunnerInitialized_win32 :: "bool \<Rightarrow> bool \<Rightarrow> window \<Rightarrow> (exn + unit) \<times> window" where
  "ensureAutorunnerInitialized_win32 registered created s =
     (if \<not> w_initialized s
      then if \<not> registered then (Inl (UnwindException ''Failed to register window class''), s)
           else if \<not> created
           then (Inl (UnwindException ''Failed to create message-only window''), s\<lparr>hwnd := False\<rparr>)
           else (Inr (), s\<lparr>hwnd := True, w_initialized := True\<rparr>)
      else (Inr (), s))"

text \<open>Both \<open>doExecLater\<close> functions; only the second may be called from another thread.\<close>

definition doExecLater_win32 ::
    "bool \<Rightarrow> nat \<Rightarrow> cbfun \<Rightarrow> double \<Rightarrow> bool \<Rightarrow> window \<times> world \<Rightarrow> (exn + 64 word) \<times> window \<times> world" where
  "doExecLater_win32 os_ok r f delaySecs resetTimer = (\<lambda>(s, w).
     (case add r f delaySecs w of
        (Inl e, w1) \<Rightarrow> (Inl e, s, w1)
      | (Inr i, w1) \<Rightarrow>
          if resetTimer
          then case setupTimer os_ok s of
                 (Inl e, s1) \<Rightarrow> (Inl e, s1, w1)
               | (Inr _, s1) \<Rightarrow> (Inr i, s1, w1)
          else (Inr i, s, w1)))"

definition doExecLater_native_win32 ::
    "bool \<Rightarrow> bool \<Rightarrow> nat \<Rightarrow> cbfun \<Rightarrow> double \<Rightarrow> bool \<Rightarrow> window \<times> world \<Rightarrow> (exn + 64 word) \<times> window \<times> world" where
  "doExecLater_native_win32 main_thread os_ok r f delaySecs resetTimer = (\<lambda>(s, w).
     (if main_thread \<or> \<not> resetTimer then doExecLater_win32 os_ok r f delaySecs resetTimer (s, w)
      else case add r f delaySecs w of
             (Inl e, w1) \<Rightarrow> (Inl e, s, w1)
           | (Inr i, w1) \<Rightarrow> (Inr i, s\<lparr>posted := posted s @ [WM_SETUPTIMER]\<rparr>, w1)))"

section \<open>The timer and the work\<close>

text \<open>
  The timer runs, or will be set up, or the global loop has nothing to do: what the window
  keeps for the global loop itself.
\<close>

definition armed :: "window \<times> world \<Rightarrow> bool" where
  "armed sw \<longleftrightarrow>
     timer_running (fst sw) \<or> WM_SETUPTIMER \<in> set (posted (fst sw)) \<or>
     (\<forall>r. getRegistry (snd sw) GLOBAL_LOOP = Some r \<longrightarrow> empty (snd sw) r)"

lemma executeHandlers_stops:
  assumes "executeHandlers n call w = Some (Inr True, w')"
  shows "\<exists>r. getRegistry w' GLOBAL_LOOP = Some r \<and> empty w' r"
  using assms by (auto simp: executeHandlers_def idle_def split: sum.splits prod.splits option.splits if_splits)

lemma timer_armed:
  assumes "armed (s, w)" and "timer_running s" and "callbackWndProc n call os_ok WM_TIMER (s, w) = Some (x, sw)"
  shows "armed sw"
proof -
  obtain y w1 where e: "executeHandlers n call w = Some (y, w1)"
    using assms(3) by (auto simp: callbackWndProc_def split: option.splits)
  show ?thesis
  proof (cases "y = Inr True")
    case True
    then have "sw = (s\<lparr>timer_running := False\<rparr>, w1)" using assms(3) e by (simp add: callbackWndProc_def)
    then show ?thesis using executeHandlers_stops[of n call w w1] e True by (auto simp: armed_def)
  next
    case False
    then have "sw = (s, w1)" using assms(3) e by (auto simp: callbackWndProc_def split: sum.splits)
    then show ?thesis using assms(2) by (simp add: armed_def)
  qed
qed

lemma doExecLater_armed:
  assumes "doExecLater_native_win32 main True r f secs True (s, w) = (Inr i, sw)"
  shows "armed sw"
  using assms by (auto simp: doExecLater_native_win32_def doExecLater_win32_def setupTimer_def armed_def
      split: sum.splits prod.splits if_splits)

text \<open>A process whose clock stands still, and a window whose timer runs.\<close>

definition demo_still :: world where
  "demo_still = snd (create 1 0 (snd (create 0 (-1) (fresh_world (\<lambda>_. Timespec 0 0) [] (\<lambda>_. []) (\<lambda>_. True) []))))"

definition demo_tick :: world where
  "demo_tick = snd (scheduleCallback (RFunction Done) (Fin 2) 1 demo_still)"

lemma demo_tick_ok: "sys_ok {#} demo_tick"
proof -
  have "monotonic_clock (\<lambda>_. Timespec 0 0)" by (simp add: monotonic_clock_def ts_normal_def)
  note create_sys_ok[OF fresh_world_sys_ok[OF this] prod.collapse[symmetric]]
  note create_sys_ok[OF this prod.collapse[symmetric]]
  then have "sys_ok {#} demo_still" by (simp add: demo_still_def)
  then show ?thesis unfolding demo_tick_def
    by (intro scheduleCallback_sys_ok[where f = "RFunction Done", OF _ prod.collapse[symmetric]]) simp
qed

definition demo_window :: window where
  "demo_window = \<lparr>w_initialized = True, hwnd = True, timer_running = True, posted = []\<rparr>"

section \<open>Properties\<close>

text \<open>
  C34. On Windows the global loop is never forgotten: when its timer ticks, the timer goes on
  running or the loop's own queue is empty and waits for no descriptor; when the timer is not
  stopped, nothing else has changed in the window.
\<close>

theorem win32_timer_keeps_global_loop:
  assumes "timer_running s" and "callbackWndProc n call os_ok WM_TIMER (s, w) = Some (x, s', w')"
  shows "(timer_running s' \<and> s' = s) \<or>
    (\<exists>r. getRegistry w' GLOBAL_LOOP = Some r \<and> empty w' r \<and> s' = s\<lparr>timer_running := False\<rparr>)"
proof -
  obtain y w1 where e: "executeHandlers n call w = Some (y, w1)"
    using assms(2) by (auto simp: callbackWndProc_def split: option.splits)
  show ?thesis
  proof (cases "y = Inr True")
    case True
    then show ?thesis using assms(2) e executeHandlers_stops[of n call w w1]
      by (auto simp: callbackWndProc_def)
  next
    case False
    then show ?thesis using assms e by (auto simp: callbackWndProc_def split: sum.splits)
  qed
qed

theorem win32_timer_keeps_global_loop_witness:
  "\<exists>x s' w'. callbackWndProc 9 (invoke (exec_prog 9)) True WM_TIMER (demo_window, demo_tick) = Some (x, s', w') \<and>
     (timer_running s' \<or> (\<exists>r. getRegistry w' GLOBAL_LOOP = Some r \<and> empty w' r))"
proof -
  have "callbackWndProc 9 (invoke (exec_prog 9)) True WM_TIMER (demo_window, demo_tick) \<noteq> None" by code_simp
  then obtain x s' w' where c:
      "callbackWndProc 9 (invoke (exec_prog 9)) True WM_TIMER (demo_window, demo_tick) = Some (x, s', w')" by auto
  have "timer_running demo_window" by (simp add: demo_window_def)
  from win32_timer_keeps_global_loop[OF this c] c show ?thesis by blast
qed



text \<open>
  The time differences of the Windows timestamps have the sign of the order, and a time
  \<open>x\<close> seconds ahead is right up to one tick of the counter and one rounding to double.
\<close>

theorem win32_timestamps:
  assumes "win_timestamp_in now freq (Fin x) = Some t" and "0 < freq" and "freq < 2 ^ 53"
  shows "\<bar>of_int (t - now) - x * of_int freq\<bar> < \<bar>x\<bar> * of_int freq / 2 ^ 53 + 1 \<and>
    (0 < win_diff_secs freq a b \<longleftrightarrow> win_less b a)"
  using win_timestamp_in_error[OF assms] win_diff_secs_pos_iff[OF assms(2)] by (simp add: win_less_def)

theorem win32_timestamps_witness:
  "\<exists>t. win_timestamp_in 5000 10000000 (Fin (3 / 2)) = Some t \<and>
     \<bar>of_int (t - 5000) - 3 / 2 * 10000000\<bar> < 3 / 2 * 10000000 / 2 ^ 53 + (1 :: rat)"
proof -
  have "win_timestamp_in 5000 10000000 (Fin (3 / 2)) = Some 15005000" by code_simp
  from win32_timestamps[OF this] this show ?thesis by simp
qed

end
