(* ===== verification/Spec2Isabelle.thy ===== *)
theory Spec2Isabelle
  imports Running Delivery Recovery Loops Threads Clients Win32
begin

text \<open>
  This development models the C and C++ code of the R package \<^verbatim>\<open>later2\<close>, an event loop that
  runs R and C functions at a later time on R's main thread, and proves what makes it correct.

  \<^bold>\<open>The program.\<close> A loop is a \<^verbatim>\<open>CallbackRegistry\<close>: a queue of callbacks ordered by time and id,
  with links to a parent and to children. \<^verbatim>\<open>CallbackRegistryTable\<close> maps loop ids to loops. R
  code calls entry points in \<^verbatim>\<open>later2.cpp\<close> to make, run and destroy loops, to schedule and
  cancel callbacks and to wait; C code of other packages reaches them through the header
  \<^verbatim>\<open>later2_api.h\<close>. Callbacks of the global loop also run by themselves when R is idle: a timer
  thread (\<^verbatim>\<open>timer_posix.cpp\<close>) writes into a pipe, R calls an input handler
  (\<^verbatim>\<open>later_posix.cpp\<close>), and the handler runs the loop; on Windows a message-only window does
  this (\<^verbatim>\<open>later_win32.cpp\<close>). \<^verbatim>\<open>fd.cpp\<close> starts a thread per wait for file descriptors, which
  schedules a callback when \<^verbatim>\<open>poll\<close> answers. Threads, mutexes and condition variables come from
  \<^verbatim>\<open>tinycthread.c\<close>, behind the classes of \<^verbatim>\<open>threadutils.h\<close>.

  \<^bold>\<open>The model.\<close> One record, \<open>world\<close> (theory State), holds all objects and static variables;
  operations take it and return it changed. Shared pointers are references into stores, so
  aliasing is visible. Exceptions, R errors and undefined behaviour are values of \<open>exn\<close>: C++
  exceptions run the destructors of the frames they leave, a \<^verbatim>\<open>longjmp\<close> runs none. A callback
  is any program (\<open>prog\<close>, theory Callback) of calls to the entry points; it sees their
  answers. The clock, the answers of \<^verbatim>\<open>poll\<close>, \<^verbatim>\<open>pipe\<close> and thread creation, and what other
  threads do meanwhile are arguments of the model; of the clock only what \<^verbatim>\<open>CLOCK_MONOTONIC\<close>
  promises is assumed.

  \<^bold>\<open>The theories\<close>, with the files under \<^verbatim>\<open>src/src\<close> they model:

  \<^item> Prelude, Floating, StdContainers: generic lemmas, rounding of \<^verbatim>\<open>double\<close> and \<^verbatim>\<open>long double\<close>,
    \<^verbatim>\<open>std::set\<close> and \<^verbatim>\<open>std::map\<close>. The locales \<open>comparator\<close> and \<open>finite_map\<close> state what the
    containers need and promise; they are interpreted on the order of callbacks and on the
    map of loops.
  \<^item> Timestamp (\<^verbatim>\<open>timestamp_unix.cpp\<close>, \<^verbatim>\<open>timeconv.h\<close>): \<open>addSeconds\<close> and comparisons, with
    the effect of every rounding; accuracy, normal form, order.
  \<^item> Callback, State, Registry (\<^verbatim>\<open>callback_registry.h\<close>, \<^verbatim>\<open>callback_registry.cpp\<close>): callbacks,
    the state, and each operation of a queue. Tickets: until the 64-bit
    counter wraps every id given out is in one queue or has left it once. Two ghost fields serve
    this: \<open>made\<close> counts the ids, and \<open>trace\<close> records what was taken to be called or cancelled.
    \<open>moved_on\<close> says how the queues of a later moment come from those of an earlier one.
  \<^item> Timer (\<^verbatim>\<open>timer_posix.cpp\<close>): the timer's thread as a state machine. Posix and Autorun
    (\<^verbatim>\<open>later_posix.cpp\<close>): pipes, handlers, fork, the input handler; \<open>step\<close> and \<open>reachable\<close>, the
    steps and the reachable states of the process.
  \<^item> Table, Pruning (\<^verbatim>\<open>callback_registry_table.h\<close>): the table, the invariant \<open>world_ok\<close> (one
    forest, ordered queues, unique ids) and which loops pruning removes.
  \<^item> Fd, FdFacts (\<^verbatim>\<open>fd.cpp\<close>): \<^verbatim>\<open>ThreadArgs\<close> objects, the wait thread as a state machine,
    cancellation; ownership of the objects as a multiset (\<open>owned\<close>) and the counters (\<open>fd_ok\<close>).
  \<^item> Wait, Ids, Exec, ExecFacts (\<^verbatim>\<open>callback_registry.cpp\<close>, \<^verbatim>\<open>utils.h\<close>, \<^verbatim>\<open>later2.cpp\<close>): waiting,
    ids as text, the guards, running loops, all entry points (\<open>api\<close>), programs. The locale
    \<open>callback_runner\<close> is the contract between running a loop and what a callback does; it is
    interpreted on \<open>invoke (exec_prog n)\<close>, which ties the knot.
  \<^item> RunOrder: the specification \<open>run_order\<close> of what runs, and when runs end. QueueSpec: the
    locale \<open>due_queue\<close>, a set from which the least due element is taken, interpreted on the
    queue; refinement of its operations; the package's own ordering
    test, which takes ids for callbacks that are in no queue, so it is not part of \<open>api\<close>.
  \<^item> Tinycthread, ThreadStorage, CallOnce (\<^verbatim>\<open>tinycthread.c\<close>): both implementations of mutexes,
    condition variables and threads, thread-specific storage, \<open>call_once\<close> under every
    interleaving. ThreadUtils (\<^verbatim>\<open>threadutils.h\<close>): the wrappers; the locale \<open>mutex\<close> gives the
    contract a guard relies on. Debug (\<^verbatim>\<open>optional.h\<close>, \<^verbatim>\<open>debug.cpp\<close>).
  \<^item> Win32 (\<^verbatim>\<open>timestamp_win32.cpp\<close>, \<^verbatim>\<open>later_win32.cpp\<close>), LaterApi
    (\<^verbatim>\<open>src/inst/include/later2_api.h\<close>), Clients (\<^verbatim>\<open>src/later2test/src\<close>).
  \<^item> Progress, Recovery and Delivery: what is due is served, from scheduling or from \<^verbatim>\<open>poll\<close> to
    the call, and after errors, without any assumption on the callbacks.
  \<^item> Running, Waiting, Loops, FdWaits, Threads, Progress, Recovery, Delivery and this theory hold the
    properties; Example is the small process their witnesses evaluate.

  \<^bold>\<open>What is proved.\<close> The invariant of all reachable states, with no use after free and no
  callback lost or run twice (C1 to C3). A scheduled callback and a finished wait for
  descriptors reach their call, whatever else the callbacks and the other threads do, and
  failing callbacks do not stall the rest (C4 to C7). Running a loop calls exactly what is due, in order, and ends (C8 to C10, C30); the queue
  refines its specification (C11 to C14, C26). \<^verbatim>\<open>wait\<close> ends and its answer is right (C15, C16).
  Loops are made, pruned and removed as documented (C18 to C20). Errors leave the rest queued
  and the guards restored, except for an R error out of a C callback and an interrupt in
  \<^verbatim>\<open>wait\<close>, whose \<^verbatim>\<open>longjmp\<close> skips the destructors (C22 to C25). Cancelling a descriptor wait
  excludes its callback (C27); two ways of losing its object are shown (C21, C28). Threads
  exclude each other and run once what must run once (C36 to C39). The properties that prove
  a fault of the code say so in their text.

  \<^bold>\<open>Fuel and blocking.\<close> \<open>nextTimestamp\<close> and \<open>due\<close> walk the tree of loops with \<open>next_ref\<close> as
  fuel: children are made after their parents, so no path is longer (\<open>heap_acyclic\<close>).
  Programs and loops of callbacks may run for ever; they take fuel and are \<open>None\<close> when it is
  used up, and C8 and C10 give the fuel that is enough. \<^verbatim>\<open>wait\<close> takes the wake-ups of its
  condition variable as a list and is \<open>None\<close> when it still waits at the end; C16 says when it
  returns. Elsewhere recursion is structural.

  \<^bold>\<open>Atomicity.\<close> Every access to a queue holds the table's mutex, so one operation is one step.
  Other threads act between the turns of the loop that runs callbacks (\<open>interleave\<close>), before
  each entry point a callback calls, and while \<^verbatim>\<open>wait\<close> sleeps.

  \<^bold>\<open>Not modelled.\<close> R itself and the R code of the package; \<^verbatim>\<open>cpp4r.cpp\<close> (generated argument
  conversions); \<^verbatim>\<open>wref.cpp\<close> (calls R's weak references only); \<^verbatim>\<open>badthreads.h\<close> and
  \<^verbatim>\<open>interrupt.h\<close> (macros); the state of R's random numbers, which \<open>execCallbacksOne\<close> saves and
  restores; assertions that name the current thread, which are compiled out;
  \<^verbatim>\<open>tct_thrd_current\<close>, \<^verbatim>\<open>tct_thrd_equal\<close> and \<^verbatim>\<open>tct_thrd_yield\<close>, which pass on a system call;
  overflow of the exponent of floating-point numbers, which no value used here comes near.
\<close>

section \<open>Properties of the whole process\<close>

text \<open>
  C1. Whatever R code, C callbacks and other threads do, every state the process can reach
  keeps the invariant: the loops in the table form one forest, every queue is in order, each
  registry counts exactly the waits that are alive, every \<^verbatim>\<open>ThreadArgs\<close> object has at most one
  owner, which finds it alive, and until \<open>2 ^ 64 - 1\<close> callbacks have been made, no two callbacks
  of a queue have the same id and the next id is larger than all.
\<close>

theorem reachable_invariant:
  assumes "reachable w"
  shows "world_ok w \<and> fd_ok w \<and> owned {#} w \<and> (no_wrap_yet (made w) \<longrightarrow> ids_ok w)"
  using reachable_sys_ok[OF assms] ids_counted_ok by (simp add: sys_ok_def world_ok_def)

theorem reachable_invariant_witness: "world_ok demo_start \<and> fd_ok demo_start"
  using reachable_invariant[OF demo_start_reachable] by simp


text \<open>Two callbacks are scheduled and the second one is cancelled.\<close>

definition demo_first :: world where
  "demo_first = snd (execLater Done (Fin 0) 0 demo_global)"

definition demo_second :: world where
  "demo_second = snd (execLater Done (Fin 0) 0 demo_first)"

definition demo_cancelled :: world where
  "demo_cancelled = snd (cancel_string ''2'' 0 demo_second)"

lemma demo_first_reachable: "reachable demo_first"
  unfolding demo_first_def by (rule reachable.more[OF demo_global_reachable api_later_step])

lemma demo_cancelled_reachable: "reachable demo_cancelled"
  unfolding demo_cancelled_def demo_second_def
  by (rule reachable.more[OF reachable.more[OF demo_first_reachable api_later_step] api_cancel_step])

lemma demo_first_pending: "callbackId ` pending demo_first s = (if s = 0 then {1} else {})"
proof (cases "s = 0")
  case True
  have "map callbackId (queue (heap demo_first 0)) = [1]" by code_simp
  then have "set (map callbackId (queue (heap demo_first 0))) = {1}" by simp
  then show ?thesis using True by (simp add: pending_def)
next
  case False
  have "fst (execLater Done (Fin 0) 0 demo_global) = Inr ''1''" by code_simp
  then have "execLater Done (Fin 0) 0 demo_global = (Inr ''1'', demo_first)" by (simp add: demo_first_def prod_eq_iff)
  moreover have "getRegistry demo_global 0 = Some 0" by code_simp
  ultimately have "heap demo_first s = heap demo_global s" using False by (auto elim: execLater_cases)
  then show ?thesis using False demo_global_queue by (simp add: pending_def)
qed

lemma demo_cancelled_pending: "pending demo_cancelled = pending demo_first" and demo_cancelled_made: "made demo_cancelled = 2"
proof -
  have m: "made demo_first = 1" "made demo_second = 2" by code_simp+
  have "ids_ok demo_first"
    using reachable_sys_ok[OF demo_first_reachable] ids_counted_ok m(1) by (simp add: sys_ok_def world_ok_def no_wrap_yet_def)
  moreover have "fst (execLater Done (Fin 0) 0 demo_first) = Inr ''2''" by code_simp
  then have "execLater Done (Fin 0) 0 demo_first = (Inr ''2'', demo_second)" by (simp add: demo_second_def prod_eq_iff)
  ultimately have "heap demo_cancelled = heap demo_first" using execLater_cancel by (fastforce simp: demo_cancelled_def)
  then show "pending demo_cancelled = pending demo_first" by (simp add: pending_def fun_eq_iff)
  show "made demo_cancelled = 2" using m(2)
    by (simp add: demo_cancelled_def cancel_string_def cancel_id_def cancel_def case_prod_unfold Let_def split: option.split)
qed


lemma handler_safe:
  assumes "sys_ok {#} w"
  shows "async_input_handler n (invoke (exec_prog n)) w \<noteq> Some (Inl (Undefined ''freed ThreadArgs''), w')"
proof
  assume h: "async_input_handler n (invoke (exec_prog n)) w = Some (Inl (Undefined ''freed ThreadArgs''), w')"
  have t: "fst (at_top_level v) \<noteq> Inl (Undefined m)" for v m by (auto simp: at_top_level_def Let_def)
  have r: "fst (reset_timer_on_exit v) \<noteq> Inl (Undefined m)" for v m
    by (auto simp: reset_timer_on_exit_def getGlobalRegistry_def split: option.splits sum.splits prod.splits)
  have ok: "sys_ok {#} (set_fd False w)" using assms by simp
  obtain b where b: "at_top_level (set_fd False w) = (Inr b, set_fd False w)"
    using h t[of "set_fd False w"] at_top_level_frame[of "set_fd False w"]
    by (cases "at_top_level (set_fd False w)") (auto simp: async_input_handler_def split: sum.splits)
  show False
  proof (cases b)
    case False
    then show False using h b
      by (auto simp: async_input_handler_def timestamp_in_eq split: sum.splits prod.splits option.splits)
  next
    case True
    then obtain x v where x: "execCallbacksForTopLevel n (invoke (exec_prog n)) (set_fd False w) = Some (x, v)"
      using h b by (auto simp: async_input_handler_def split: option.splits)
    then have "x \<noteq> Inl (Undefined ''freed ThreadArgs'')"
      using runner.top_level_loop_ok[OF ok] by (simp add: execCallbacksForTopLevel_def)
    then show False using h b x True r
      by (auto simp: async_input_handler_def split: sum.splits if_splits) (metis fst_conv)+
  qed
qed



text \<open>
  C31. The arithmetic of time: for a clock within half the range of \<^verbatim>\<open>time_t\<close> and the delays the
  package clamps to, adding seconds is defined, gives a normal time, is right to within two
  nanoseconds, never moves time backwards for a delay that is not negative, and keeps the order
  of times: of two equal delays the one that starts later does not end earlier.
\<close>

theorem addSeconds_accurate:
  assumes "ts_normal ts" and "\<bar>tv_sec ts\<bar> \<le> 2 ^ 62" and "\<bar>x\<bar> \<le> 3 * 10 ^ 10"
  shows "\<exists>r. addSeconds ts (Fin x) = Some r \<and> ts_normal r \<and>
    \<bar>of_int (ts_ns r) - (of_int (ts_ns ts) + x * 10 ^ 9)\<bar> < 2 \<and> (0 \<le> x \<longrightarrow> ts \<le> r) \<and> (x < 0 \<longrightarrow> r \<le> ts) \<and>
    (\<forall>ts' r'. ts_normal ts' \<and> ts \<le> ts' \<and> addSeconds ts' (Fin x) = Some r' \<longrightarrow> r \<le> r')"
proof -
  obtain r where r: "addSeconds ts (Fin x) = Some r" using addSeconds_defined[OF assms] by blast
  obtain z where z: "ts_ns r = (tv_sec ts + trunc0 x) * 10 ^ 9 + z" "ts_normal r"
    and b: "\<bar>of_int z - (of_int (tv_nsec ts) + (x - of_int (trunc0 x)) * 10 ^ 9)\<bar> < 2"
    by (rule addSeconds_SomeD[OF r assms(1)])
  have "of_int (ts_ns r) - (of_int (ts_ns ts) + x * 10 ^ 9)
      = of_int z - (of_int (tv_nsec ts) + (x - of_int (trunc0 x)) * 10 ^ 9)"
    unfolding z(1) by (simp add: ts_ns_def algebra_simps)
  with b have "\<bar>of_int (ts_ns r) - (of_int (ts_ns ts) + x * 10 ^ 9)\<bar> < 2" by simp
  with r z(2) addSeconds_later[OF r assms(1)] addSeconds_earlier[OF r assms(1)] addSeconds_mono[OF r _ assms(1)]
  show ?thesis by blast
qed

theorem addSeconds_accurate_witness:
  "\<exists>r. addSeconds (Timespec 100 999999999) (Fin (1 / 4)) = Some r \<and> ts_normal r \<and> Timespec 100 999999999 \<le> r"
  using addSeconds_accurate[of "Timespec 100 999999999" "1 / 4"] by (auto simp: ts_normal_def)

end
